(* ===== verification/Prelude.thy ===== *)
theory Prelude
  imports Main "HOL-Library.Word" "HOL-Library.List_Lexorder"
begin

text \<open>
  Shared ground of the development: the byte and machine-integer types, the outcome of a Rust
  call (a value, an error value, a panic, or undefined behaviour of an unchecked access), slices,
  the lexicographic order Rust uses on byte slices (\<open>Ord for [u8]\<close>, which is the order of
  \<open>HOL-Library.List_Lexorder\<close>), and the positional value of byte lists.
\<close>

unbundle bit_operations_syntax

named_theorems lex_simps \<open>rewriting of the lexicographic order on byte lists\<close>
named_theorems result_simps \<open>evaluation of result-valued programs\<close>

type_synonym byte = "8 word"
type_synonym bytes = "byte list"
type_synonym u16 = "16 word"
type_synonym u32 = "32 word"
type_synonym u64 = "64 word"
type_synonym usize = nat

section \<open>Outcomes of a call\<close>

text \<open>
  \<open>Ok\<close> and \<open>Err\<close> are the constructors of Rust's \<open>Result\<close>. \<open>Panic\<close> is an
  unwinding panic (an assertion, an index out of range, \<open>unwrap\<close> on an error). \<open>Undef\<close>
  is undefined behaviour: an unchecked read outside its slice.
\<close>

datatype ('e, 'a) result = Ok 'a | Err 'e | Panic | Undef

primrec bind_result :: "('e, 'a) result \<Rightarrow> ('a \<Rightarrow> ('e, 'b) result) \<Rightarrow> ('e, 'b) result" where
  "bind_result (Ok x) f = f x"
| "bind_result (Err e) f = Err e"
| "bind_result Panic f = Panic"
| "bind_result Undef f = Undef"

text \<open>The kinds of \<open>std::io::Error\<close> the modelled code creates.\<close>

datatype io_error = UnexpectedEof | InvalidData

text \<open>\<open>Result::map\<close> and \<open>Result::map_err\<close>.\<close>

primrec result_map :: "('a \<Rightarrow> 'b) \<Rightarrow> ('e, 'a) result \<Rightarrow> ('e, 'b) result" where
  "result_map f (Ok x) = Ok (f x)"
| "result_map f (Err e) = Err e"
| "result_map f Panic = Panic"
| "result_map f Undef = Undef"

primrec result_map_err :: "('e \<Rightarrow> 'd) \<Rightarrow> ('e, 'a) result \<Rightarrow> ('d, 'a) result" where
  "result_map_err f (Ok x) = Ok x"
| "result_map_err f (Err e) = Err (f e)"
| "result_map_err f Panic = Panic"
| "result_map_err f Undef = Undef"

primrec is_ok :: "('e, 'a) result \<Rightarrow> bool" where
  "is_ok (Ok x) = True"
| "is_ok (Err e) = False"
| "is_ok Panic = False"
| "is_ok Undef = False"

lemma bind_result_cong:
  "r = r' \<Longrightarrow> (\<And>x. r' = Ok x \<Longrightarrow> f x = f' x) \<Longrightarrow> bind_result r f = bind_result r' f'"
  by (cases r') auto

lemma bind_result_Ok_iff:
  "bind_result r f = Ok y \<longleftrightarrow> (\<exists>x. r = Ok x \<and> f x = Ok y)"
  by (cases r) auto

lemma bind_result_Undef_iff:
  "bind_result r f = Undef \<longleftrightarrow> r = Undef \<or> (\<exists>x. r = Ok x \<and> f x = Undef)"
  by (cases r) auto

lemma bind_result_Panic_iff:
  "bind_result r f = Panic \<longleftrightarrow> r = Panic \<or> (\<exists>x. r = Ok x \<and> f x = Panic)"
  by (cases r) auto

lemma result_map_Ok_iff: "result_map f r = Ok y \<longleftrightarrow> (\<exists>x. r = Ok x \<and> y = f x)"
  by (cases r) auto

lemmas result_iffs = bind_result_Ok_iff bind_result_Undef_iff bind_result_Panic_iff
  result_map_Ok_iff

section \<open>Slices\<close>

text \<open>\<open>&xs[i..j]\<close> for a range that the caller has checked.\<close>

definition slice_of :: "'a list \<Rightarrow> nat \<Rightarrow> nat \<Rightarrow> 'a list" where
  "slice_of xs i j = take (j - i) (drop i xs)"

lemma length_slice_of [simp]: "length (slice_of xs i j) = min (j - i) (length xs - i)"
  by (simp add: slice_of_def)

lemma slice_of_same [simp]: "slice_of xs i i = []"
  by (simp add: slice_of_def)

lemma slice_of_append_left: "i = length xs \<Longrightarrow> slice_of (xs @ ys) i j = take (j - i) ys"
  by (simp add: slice_of_def)

section \<open>The lexicographic order on byte lists\<close>

lemma lex_append_same [lex_simps]:
  "(xs @ ys < xs @ zs) = (ys < (zs :: 'a::linorder list))"
  by (induction xs) auto

lemma lex_append_equal_length:
  fixes xs ys :: "'a::linorder list"
  assumes "length xs = length ys"
  shows "xs @ as < ys @ bs \<longleftrightarrow> xs < ys \<or> (xs = ys \<and> as < bs)"
  using assms by (induction xs ys rule: list_induct2) auto

lemma lex_append_less:
  fixes xs ys :: "'a::linorder list"
  assumes "length xs = length ys" "xs < ys"
  shows "xs @ as < ys @ bs"
  using assms by (simp add: lex_append_equal_length)

lemma lex_append_same_le [lex_simps]:
  "(xs @ ys \<le> xs @ zs) = (ys \<le> (zs :: 'a::linorder list))"
  by (induction xs) auto

lemma lex_map_antimono:
  fixes f :: "'a::linorder \<Rightarrow> 'a"
  assumes "\<And>x y. f x < f y \<longleftrightarrow> y < x" "length xs = length ys"
  shows "map f xs < map f ys \<longleftrightarrow> ys < xs"
proof -
  have inj: "f x = f y \<longleftrightarrow> x = y" for x y
    by (metis assms(1) less_irrefl linorder_less_linear)
  show ?thesis
    using assms(2) by (induction xs ys rule: list_induct2) (auto simp: assms(1) inj)
qed

subsection \<open>Complement reverses the order\<close>

lemma uint_not_word: "uint (NOT (x :: 'a::len word)) = 2 ^ LENGTH('a) - 1 - uint x"
proof -
  have "NOT x = - 1 - x" by (simp add: not_eq_complement)
  moreover have "uint (- 1 - x) = uint (- 1 :: 'a word) - uint x"
    using uint_minus_simple_alt [of x "- 1"] by simp
  ultimately show ?thesis
    by (simp add: unsigned_minus_1_eq_mask mask_eq_exp_minus_1)
qed

lemma not_less_not [simp]: "(NOT x < NOT (y :: 'a::len word)) = (y < x)"
  by (simp add: word_less_def uint_not_word)

lemma not_eq_not [simp]: "(NOT x = NOT (y :: 'a::len word)) = (x = y)"
  by (metis bit.double_compl)

lemma unat_not_word: "unat (NOT (x :: 'a::len word)) = 2 ^ LENGTH('a) - 1 - unat x"
proof -
  have "int (unat (NOT x) + unat x) = int (2 ^ LENGTH('a) - 1)"
    using uint_not_word [of x] by (simp add: of_nat_diff)
  then have "unat (NOT x) + unat x = 2 ^ LENGTH('a) - 1" by (simp only: of_nat_eq_iff)
  then show ?thesis by linarith
qed

lemma unat_not_byte: "unat (NOT (b :: byte)) = 255 - unat b"
  using unat_not_word [of b] by simp

lemma unat_ucast_byte: "unat (ucast (v :: 'a::len word) :: byte) = unat v mod 256"
  by (simp add: unsigned_ucast_eq take_bit_eq_mod)

lemma unat_drop_bit_div: "unat (drop_bit k (w :: 'a::len word)) = unat w div 2 ^ k"
proof -
  have "unat (drop_bit k w) = drop_bit k (unat w)"
    by (simp only: unsigned_drop_bit_eq take_bit_nat_eq_self [OF unsigned_less])
  then show ?thesis by (simp add: drop_bit_eq_div)
qed

section \<open>Positional value of byte lists\<close>

definition be_val :: "bytes \<Rightarrow> nat" where
  "be_val bs = foldl (\<lambda>a b. a * 256 + unat b) 0 bs"

lemma be_val_foldl: "foldl (\<lambda>a b. a * 256 + unat b) n bs = n * 256 ^ length bs + be_val (bs :: bytes)"
proof (induction bs arbitrary: n)
  case Nil
  then show ?case by (simp add: be_val_def)
next
  case (Cons b bs)
  have "foldl (\<lambda>a b. a * 256 + unat b) n (b # bs) = (n * 256 + unat b) * 256 ^ length bs + be_val bs"
    using Cons.IH [of "n * 256 + unat b"] by simp
  moreover have "be_val (b # bs) = unat b * 256 ^ length bs + be_val bs"
    using Cons.IH [of "unat b"] by (simp add: be_val_def)
  ultimately show ?case by (simp add: algebra_simps)
qed

lemma be_val_Nil [simp]: "be_val [] = 0"
  by (simp add: be_val_def)

lemma be_val_Cons: "be_val (b # bs) = unat b * 256 ^ length bs + be_val bs"
  using be_val_foldl [of "unat b" bs] by (simp add: be_val_def)

lemma be_val_snoc: "be_val (bs @ [b]) = be_val bs * 256 + unat b"
  by (simp add: be_val_def)

lemma unat_byte_less: "unat (b :: byte) < 256"
  using unsigned_less [of b, where ?'a = nat] by simp

lemma be_val_less: "be_val bs < 256 ^ length bs"
proof (induction bs)
  case (Cons b bs)
  have "unat b * 256 ^ length bs + be_val bs < (unat b + 1) * 256 ^ length bs"
    using Cons.IH by simp
  also have "\<dots> \<le> 256 * 256 ^ length bs"
    using unat_byte_less [of b] by (intro mult_right_mono) auto
  finally show ?case by (simp add: be_val_Cons)
qed simp

text \<open>
  On lists of one length the big-endian value is strictly monotone for the lexicographic order:
  this is why a big-endian integer is memory-comparable.
\<close>

lemma be_val_less_iff:
  assumes "length xs = length ys"
  shows "be_val xs < be_val ys \<longleftrightarrow> xs < ys"
  using assms
proof (induction xs ys rule: list_induct2)
  case (Cons x xs y ys)
  have *: "p * 256 ^ length xs + a < q * 256 ^ length xs + b"
    if "p < q" "a < 256 ^ length xs" for p q a b :: nat
  proof -
    have "p * 256 ^ length xs + a < (p + 1) * 256 ^ length xs"
      using that(2) by simp
    also have "\<dots> \<le> q * 256 ^ length xs"
      using that(1) by (intro mult_right_mono) auto
    finally show ?thesis by simp
  qed
  consider "x < y" | "x = y" | "y < x" by (metis linorder_less_linear)
  then show ?case
  proof cases
    case 1
    then have "unat x < unat y" by (simp add: word_less_nat_alt)
    from * [OF this be_val_less] 1 show ?thesis by (simp add: be_val_Cons Cons.hyps)
  next
    case 2
    then show ?thesis by (simp add: be_val_Cons Cons.hyps Cons.IH)
  next
    case 3
    then have "unat y < unat x" by (simp add: word_less_nat_alt)
    from * [OF this, of "be_val ys" "be_val xs"] be_val_less [of ys] 3
    show ?thesis by (auto simp: be_val_Cons Cons.hyps)
  qed
qed simp

lemma be_val_inj: "length xs = length ys \<Longrightarrow> be_val xs = be_val ys \<Longrightarrow> xs = ys"
  by (metis be_val_less_iff less_irrefl linorder_less_linear)

end
