(* ===== verification/Byte_Order.thy ===== *)
theory Byte_Order
  imports Prelude
begin

text \<open>
  The crate \<open>byteorder\<close> is not part of the repository: its operations are the fields of a
  record that every definition using the crate takes as its argument, and the documented behaviour
  the code relies on is the locale \<open>byteorder\<close>. A field that writes an integer gives the bytes
  the crate hands to the writer (or stores at the front of a slice); a field that reads one takes
  the slice. That reading or writing a slice shorter than the integer panics is documented, and is
  written out by the definitions that can meet it. The locales \<open>big_endian\<close> and
  \<open>little_endian\<close> state what one pair of operations promises and what follows from it.
  \<open>std_byteorder\<close> is a concrete value with the documented behaviour, on which the locale is
  interpreted; witnesses use it.
\<close>

section \<open>What one pair of operations promises\<close>

locale big_endian =
  fixes n :: nat
    and wr :: "'w::len word \<Rightarrow> bytes"
    and rd :: "bytes \<Rightarrow> 'w word"
  assumes length_wr [simp]: "length (wr v) = n"
    and val_wr: "be_val (wr v) = unat v"
    and val_rd: "n \<le> length bs \<Longrightarrow> unat (rd bs) = be_val (take n bs)"
begin

lemma rd_wr [simp]: "rd (wr v @ bs) = v"
proof -
  have "unat (rd (wr v @ bs)) = unat v"
    by (simp add: val_rd val_wr)
  then show ?thesis by (rule unsigned_word_eqI)
qed

lemma rd_wr_alone [simp]: "rd (wr v) = v"
  using rd_wr [of v "[]"] by simp

lemma wr_rd: "length bs = n \<Longrightarrow> wr (rd bs) = bs"
  by (rule be_val_inj) (simp_all add: val_wr val_rd)

lemma wr_less_iff: "wr u < wr v \<longleftrightarrow> u < v"
  using be_val_less_iff [of "wr u" "wr v"] by (simp add: val_wr word_less_nat_alt)

lemma wr_eq_iff [simp]: "wr u = wr v \<longleftrightarrow> u = v"
  by (metis rd_wr_alone)

lemma wr_append_less_iff: "wr u @ as < wr v @ bs \<longleftrightarrow> u < v \<or> (u = v \<and> as < bs)"
  by (simp add: lex_append_equal_length wr_less_iff)

end

locale little_endian =
  fixes n :: nat
    and wr :: "'w::len word \<Rightarrow> bytes"
    and rd :: "bytes \<Rightarrow> 'w word"
  assumes le_length_wr [simp]: "length (wr v) = n"
    and le_val_wr: "be_val (rev (wr v)) = unat v"
    and le_val_rd: "n \<le> length bs \<Longrightarrow> unat (rd bs) = be_val (rev (take n bs))"
begin

lemma le_rd_wr [simp]: "rd (wr v @ bs) = v"
proof -
  have "unat (rd (wr v @ bs)) = unat v"
    by (simp add: le_val_rd le_val_wr)
  then show ?thesis by (rule unsigned_word_eqI)
qed

lemma le_rd_wr_alone [simp]: "rd (wr v) = v"
  using le_rd_wr [of v "[]"] by simp

lemma le_wr_rd: "length bs = n \<Longrightarrow> wr (rd bs) = bs"
proof -
  assume "length bs = n"
  then have "rev (wr (rd bs)) = rev bs"
    by (intro be_val_inj) (simp_all add: le_val_wr le_val_rd)
  then show ?thesis by simp
qed

end

section \<open>The crate's operations and their contract\<close>

text \<open>
  Signed integers and floats travel as the words that hold their bits
  (\<open>write_i64(v)\<close> is given \<open>v as u64\<close>, \<open>write_f64(v)\<close> is given \<open>v.to_bits()\<close>).
\<close>

record byteorder_api =
  bo_write_u8 :: "byte \<Rightarrow> bytes"
  bo_read_u8 :: "bytes \<Rightarrow> (io_error, byte \<times> bytes) result"
  bo_be_write_u16 :: "u16 \<Rightarrow> bytes"
  bo_be_read_u16 :: "bytes \<Rightarrow> u16"
  bo_be_write_u32 :: "u32 \<Rightarrow> bytes"
  bo_be_read_u32 :: "bytes \<Rightarrow> u32"
  bo_be_write_u64 :: "u64 \<Rightarrow> bytes"
  bo_be_read_u64 :: "bytes \<Rightarrow> u64"
  bo_le_write_u16 :: "u16 \<Rightarrow> bytes"
  bo_le_read_u16 :: "bytes \<Rightarrow> u16"
  bo_le_write_i16 :: "u16 \<Rightarrow> bytes"
  bo_le_read_i16 :: "bytes \<Rightarrow> u16"
  bo_le_write_u32 :: "u32 \<Rightarrow> bytes"
  bo_le_read_u32 :: "bytes \<Rightarrow> u32"
  bo_le_write_i32 :: "u32 \<Rightarrow> bytes"
  bo_le_read_i32 :: "bytes \<Rightarrow> u32"
  bo_le_write_f32 :: "u32 \<Rightarrow> bytes"
  bo_le_read_f32 :: "bytes \<Rightarrow> u32"
  bo_le_write_u64 :: "u64 \<Rightarrow> bytes"
  bo_le_read_u64 :: "bytes \<Rightarrow> u64"
  bo_le_write_i64 :: "u64 \<Rightarrow> bytes"
  bo_le_read_i64 :: "bytes \<Rightarrow> u64"
  bo_le_write_f64 :: "u64 \<Rightarrow> bytes"
  bo_le_read_f64 :: "bytes \<Rightarrow> u64"
  bo_ne_read_u64 :: "bytes \<Rightarrow> u64"

text \<open>
  \<open>NativeEndian\<close> is one of the two orders, depending on the target.
\<close>

locale byteorder =
  fixes bo :: byteorder_api
  assumes write_u8: "bo_write_u8 bo b = [b]"
    and read_u8_eof: "bo_read_u8 bo [] = Err UnexpectedEof"
    and read_u8: "bo_read_u8 bo (b # bs) = Ok (b, bs)"
    and be_u16: "big_endian 2 (bo_be_write_u16 bo) (bo_be_read_u16 bo)"
    and be_u32: "big_endian 4 (bo_be_write_u32 bo) (bo_be_read_u32 bo)"
    and be_u64: "big_endian 8 (bo_be_write_u64 bo) (bo_be_read_u64 bo)"
    and le_u16: "little_endian 2 (bo_le_write_u16 bo) (bo_le_read_u16 bo)"
    and le_i16: "little_endian 2 (bo_le_write_i16 bo) (bo_le_read_i16 bo)"
    and le_u32: "little_endian 4 (bo_le_write_u32 bo) (bo_le_read_u32 bo)"
    and le_i32: "little_endian 4 (bo_le_write_i32 bo) (bo_le_read_i32 bo)"
    and le_f32: "little_endian 4 (bo_le_write_f32 bo) (bo_le_read_f32 bo)"
    and le_u64: "little_endian 8 (bo_le_write_u64 bo) (bo_le_read_u64 bo)"
    and le_i64: "little_endian 8 (bo_le_write_i64 bo) (bo_le_read_i64 bo)"
    and le_f64: "little_endian 8 (bo_le_write_f64 bo) (bo_le_read_f64 bo)"
    and ne_u64: "bo_ne_read_u64 bo = bo_be_read_u64 bo \<or> bo_ne_read_u64 bo = bo_le_read_u64 bo"

sublocale byteorder \<subseteq> be16: big_endian 2 "bo_be_write_u16 bo" "bo_be_read_u16 bo"
  by (rule be_u16)

sublocale byteorder \<subseteq> be32: big_endian 4 "bo_be_write_u32 bo" "bo_be_read_u32 bo"
  by (rule be_u32)

sublocale byteorder \<subseteq> be64: big_endian 8 "bo_be_write_u64 bo" "bo_be_read_u64 bo"
  by (rule be_u64)

sublocale byteorder \<subseteq> le64: little_endian 8 "bo_le_write_u64 bo" "bo_le_read_u64 bo"
  by (rule le_u64)

context byteorder
begin

lemma ne_read_eq_iff:
  assumes "length xs = 8" "length ys = 8"
  shows "bo_ne_read_u64 bo xs = bo_ne_read_u64 bo ys \<longleftrightarrow> xs = ys"
  using ne_u64 assms be64.wr_rd le64.le_wr_rd by metis

end

section \<open>A value with the documented behaviour\<close>

fun be_of_nat :: "nat \<Rightarrow> nat \<Rightarrow> bytes" where
  "be_of_nat 0 v = []"
| "be_of_nat (Suc n) v = be_of_nat n (v div 256) @ [of_nat v]"

definition be_write :: "nat \<Rightarrow> 'w::len word \<Rightarrow> bytes" where
  "be_write n v = be_of_nat n (unat v)"

definition be_read :: "nat \<Rightarrow> bytes \<Rightarrow> 'w::len word" where
  "be_read n bs = of_nat (be_val (take n bs))"

definition le_write :: "nat \<Rightarrow> 'w::len word \<Rightarrow> bytes" where
  "le_write n v = rev (be_of_nat n (unat v))"

definition le_read :: "nat \<Rightarrow> bytes \<Rightarrow> 'w::len word" where
  "le_read n bs = of_nat (be_val (rev (take n bs)))"

fun std_read_u8 :: "bytes \<Rightarrow> (io_error, byte \<times> bytes) result" where
  "std_read_u8 [] = Err UnexpectedEof"
| "std_read_u8 (b # bs) = Ok (b, bs)"

definition std_byteorder :: byteorder_api where
  "std_byteorder =
    \<lparr> bo_write_u8 = (\<lambda>b. [b]), bo_read_u8 = std_read_u8,
      bo_be_write_u16 = be_write 2, bo_be_read_u16 = be_read 2,
      bo_be_write_u32 = be_write 4, bo_be_read_u32 = be_read 4,
      bo_be_write_u64 = be_write 8, bo_be_read_u64 = be_read 8,
      bo_le_write_u16 = le_write 2, bo_le_read_u16 = le_read 2,
      bo_le_write_i16 = le_write 2, bo_le_read_i16 = le_read 2,
      bo_le_write_u32 = le_write 4, bo_le_read_u32 = le_read 4,
      bo_le_write_i32 = le_write 4, bo_le_read_i32 = le_read 4,
      bo_le_write_f32 = le_write 4, bo_le_read_f32 = le_read 4,
      bo_le_write_u64 = le_write 8, bo_le_read_u64 = le_read 8,
      bo_le_write_i64 = le_write 8, bo_le_read_i64 = le_read 8,
      bo_le_write_f64 = le_write 8, bo_le_read_f64 = le_read 8,
      bo_ne_read_u64 = le_read 8 \<rparr>"

lemma length_be_of_nat [simp]: "length (be_of_nat n v) = n"
  by (induction n arbitrary: v) auto

lemma be_val_be_of_nat: "be_val (be_of_nat n v) = v mod 256 ^ n"
proof (induction n arbitrary: v)
  case (Suc n)
  have "be_val (be_of_nat (Suc n) v) = (v div 256 mod 256 ^ n) * 256 + v mod 256"
    by (simp add: be_val_snoc Suc.IH unat_of_nat)
  also have "\<dots> = v mod 256 ^ Suc n"
    by (simp add: mod_mult2_eq)
  finally show ?case .
qed simp

lemma be_val_take_less: "LENGTH('w) = 8 * n \<Longrightarrow> length bs = n \<Longrightarrow> be_val bs < 2 ^ LENGTH('w::len)"
  using be_val_less [of bs] by (simp add: power_mult)

lemma big_endian_std:
  assumes "LENGTH('w) = 8 * n"
  shows "big_endian n (be_write n :: 'w::len word \<Rightarrow> bytes) (be_read n)"
proof
  fix v :: "'w word"
  show "length (be_write n v) = n" by (simp add: be_write_def)
  have "unat v < 256 ^ n"
    using unsigned_less [of v, where ?'a = nat] assms by (simp add: power_mult)
  then show "be_val (be_write n v) = unat v" by (simp add: be_write_def be_val_be_of_nat)
next
  fix bs :: bytes
  assume "n \<le> length bs"
  then show "unat (be_read n bs :: 'w word) = be_val (take n bs)"
    using be_val_take_less [OF assms, of "take n bs"] by (simp add: be_read_def unat_of_nat)
qed

lemma little_endian_std:
  assumes "LENGTH('w) = 8 * n"
  shows "little_endian n (le_write n :: 'w::len word \<Rightarrow> bytes) (le_read n)"
proof
  fix v :: "'w word"
  show "length (le_write n v) = n" by (simp add: le_write_def)
  have "unat v < 256 ^ n"
    using unsigned_less [of v, where ?'a = nat] assms by (simp add: power_mult)
  then show "be_val (rev (le_write n v)) = unat v" by (simp add: le_write_def be_val_be_of_nat)
next
  fix bs :: bytes
  assume "n \<le> length bs"
  then show "unat (le_read n bs :: 'w word) = be_val (rev (take n bs))"
    using be_val_take_less [OF assms, of "rev (take n bs)"] by (simp add: le_read_def unat_of_nat)
qed

interpretation std_bo: byteorder std_byteorder
  by unfold_locales
    (simp_all add: std_byteorder_def
      big_endian.length_wr [OF big_endian_std] big_endian.val_wr [OF big_endian_std]
      big_endian.val_rd [OF big_endian_std]
      little_endian.le_length_wr [OF little_endian_std] little_endian.le_val_wr [OF little_endian_std]
      little_endian.le_val_rd [OF little_endian_std])

lemma byteorder_std: "byteorder std_byteorder"
  by (rule std_bo.byteorder_axioms)

end
