(* ===== verification/Number_Codec.thy ===== *)
theory Number_Codec
  imports Byte_Order
begin

text \<open>
  The integer codec of \<open>edb/edbn/einsteindb_util/src/codec\<close> (\<open>mod.rs\<close> and
  \<open>number.rs\<close>): order-preserving fixed-width encodings and variable-length integers.
  A \<open>Write\<close> receiver is a \<open>Vec<u8>\<close>: an encoder takes the vector and returns it with the
  encoding appended (writing to a \<open>Vec\<close> never fails). A decoder takes the slice \<open>*data\<close>
  and returns the value with the slice it leaves in \<open>*data\<close>; after an error the callers do not
  look at the slice again. A signed integer is the word holding its two's complement (read with
  \<open>sint\<close>), a float the word holding its bits.
\<close>

section \<open>Errors and slices (codec/mod.rs)\<close>

datatype codec_error = Io io_error | KeyLength | KeyPadding | KeyNotFound

definition unexpected_eof :: codec_error where
  "unexpected_eof = Io UnexpectedEof"

fun maybe_clone :: "codec_error \<Rightarrow> codec_error option" where
  "maybe_clone KeyLength = Some KeyLength"
| "maybe_clone KeyPadding = Some KeyPadding"
| "maybe_clone KeyNotFound = Some KeyNotFound"
| "maybe_clone (Io _) = None"

definition read_slice :: "bytes \<Rightarrow> nat \<Rightarrow> (codec_error, bytes \<times> bytes) result" where
  "read_slice data sz =
    (if length data \<ge> sz then Ok (slice_of data 0 sz, drop sz data) else Err unexpected_eof)"

section \<open>Order-preserving conversions (codec/number.rs)\<close>

type_synonym i64 = "64 word"
type_synonym f64 = "64 word"

definition SIGN_MARK :: u64 where
  "SIGN_MARK = 0x8000000000000000"

definition MAX_VAR_I64_LEN :: usize where [simp]: "MAX_VAR_I64_LEN = 10"

definition MAX_VAR_U64_LEN :: usize where [simp]: "MAX_VAR_U64_LEN = 10"

definition U64_SIZE :: usize where [simp]: "U64_SIZE = 8"

definition order_encode_i64 :: "i64 \<Rightarrow> u64" where
  "order_encode_i64 v = v XOR SIGN_MARK"

definition order_decode_i64 :: "u64 \<Rightarrow> i64" where
  "order_decode_i64 u = u XOR SIGN_MARK"

text \<open>\<open>f64::is_sign_positive\<close>: the sign bit is clear (also for zeros, NaNs and infinities).\<close>

definition is_sign_positive :: "f64 \<Rightarrow> bool" where
  "is_sign_positive v \<longleftrightarrow> \<not> bit v 63"

definition order_encode_f64 :: "f64 \<Rightarrow> u64" where
  "order_encode_f64 v = (let u = v in if is_sign_positive v then u OR SIGN_MARK else NOT u)"

definition order_decode_f64 :: "u64 \<Rightarrow> f64" where
  "order_decode_f64 u = (if u AND SIGN_MARK > 0 then u AND NOT SIGN_MARK else NOT u)"

section \<open>Encoders\<close>

definition encode_u64 :: "byteorder_api \<Rightarrow> bytes \<Rightarrow> u64 \<Rightarrow> bytes" where
  "encode_u64 bo self v = self @ bo_be_write_u64 bo v"

definition encode_u64_desc :: "byteorder_api \<Rightarrow> bytes \<Rightarrow> u64 \<Rightarrow> bytes" where
  "encode_u64_desc bo self v = self @ bo_be_write_u64 bo (NOT v)"

definition encode_i64 :: "byteorder_api \<Rightarrow> bytes \<Rightarrow> i64 \<Rightarrow> bytes" where
  "encode_i64 bo self v = (let u = order_encode_i64 v in encode_u64 bo self u)"

definition encode_i64_desc :: "byteorder_api \<Rightarrow> bytes \<Rightarrow> i64 \<Rightarrow> bytes" where
  "encode_i64_desc bo self v = (let u = order_encode_i64 v in encode_u64_desc bo self u)"

definition encode_u32 :: "byteorder_api \<Rightarrow> bytes \<Rightarrow> u32 \<Rightarrow> bytes" where
  "encode_u32 bo self v = self @ bo_be_write_u32 bo v"

definition encode_u16 :: "byteorder_api \<Rightarrow> bytes \<Rightarrow> u16 \<Rightarrow> bytes" where
  "encode_u16 bo self v = self @ bo_be_write_u16 bo v"

function encode_var_u64 :: "byteorder_api \<Rightarrow> bytes \<Rightarrow> u64 \<Rightarrow> bytes" where
  "encode_var_u64 bo self v =
    (if v \<ge> 0x80
     then encode_var_u64 bo (self @ bo_write_u8 bo (ucast v OR 0x80)) (drop_bit 7 v)
     else self @ bo_write_u8 bo (ucast v))"
  by pat_completeness auto
termination
proof (relation "measure (\<lambda>(bo, self, v). unat v)")
  fix bo :: byteorder_api and self :: bytes and v :: u64
  assume "0x80 \<le> v"
  then have "unat v \<ge> 128" by (simp add: word_le_nat_alt)
  then show "((bo, self @ bo_write_u8 bo (ucast v OR 0x80), drop_bit 7 v), (bo, self, v))
      \<in> measure (\<lambda>(bo, self, v). unat v)"
    by (simp add: unat_drop_bit_div)
qed simp

declare encode_var_u64.simps [simp del]

definition encode_var_i64 :: "byteorder_api \<Rightarrow> bytes \<Rightarrow> i64 \<Rightarrow> bytes" where
  "encode_var_i64 bo self v =
    (let vx = push_bit 1 v; vx = (if sint v < 0 then NOT vx else vx) in encode_var_u64 bo self vx)"

definition encode_f64 :: "byteorder_api \<Rightarrow> bytes \<Rightarrow> f64 \<Rightarrow> bytes" where
  "encode_f64 bo self f = (let u = order_encode_f64 f in encode_u64 bo self u)"

definition encode_f64_desc :: "byteorder_api \<Rightarrow> bytes \<Rightarrow> f64 \<Rightarrow> bytes" where
  "encode_f64_desc bo self f = (let u = order_encode_f64 f in encode_u64_desc bo self u)"

definition encode_u16_le :: "byteorder_api \<Rightarrow> bytes \<Rightarrow> u16 \<Rightarrow> bytes" where
  "encode_u16_le bo self v = self @ bo_le_write_u16 bo v"

definition encode_f32_le :: "byteorder_api \<Rightarrow> bytes \<Rightarrow> u32 \<Rightarrow> bytes" where
  "encode_f32_le bo self v = self @ bo_le_write_f32 bo v"

definition encode_u32_le :: "byteorder_api \<Rightarrow> bytes \<Rightarrow> u32 \<Rightarrow> bytes" where
  "encode_u32_le bo self v = self @ bo_le_write_u32 bo v"

definition encode_i32_le :: "byteorder_api \<Rightarrow> bytes \<Rightarrow> u32 \<Rightarrow> bytes" where
  "encode_i32_le bo self v = self @ bo_le_write_i32 bo v"

definition encode_f64_le :: "byteorder_api \<Rightarrow> bytes \<Rightarrow> f64 \<Rightarrow> bytes" where
  "encode_f64_le bo self v = self @ bo_le_write_f64 bo v"

definition encode_i64_le :: "byteorder_api \<Rightarrow> bytes \<Rightarrow> i64 \<Rightarrow> bytes" where
  "encode_i64_le bo self v = self @ bo_le_write_i64 bo v"

definition encode_u64_le :: "byteorder_api \<Rightarrow> bytes \<Rightarrow> u64 \<Rightarrow> bytes" where
  "encode_u64_le bo self v = self @ bo_le_write_u64 bo v"

section \<open>Decoders\<close>

definition read_num_bytes :: "nat \<Rightarrow> bytes \<Rightarrow> (bytes \<Rightarrow> 'a) \<Rightarrow> (codec_error, 'a \<times> bytes) result" where
  "read_num_bytes sz data f =
    (if length data \<ge> sz
     then let buf = slice_of data 0 sz; data = drop sz data in Ok (f buf, data)
     else Err unexpected_eof)"

definition decode_u64 :: "byteorder_api \<Rightarrow> bytes \<Rightarrow> (codec_error, u64 \<times> bytes) result" where
  "decode_u64 bo data = read_num_bytes 8 data (bo_be_read_u64 bo)"

definition decode_u64_desc :: "byteorder_api \<Rightarrow> bytes \<Rightarrow> (codec_error, u64 \<times> bytes) result" where
  "decode_u64_desc bo data = bind_result (decode_u64 bo data) (\<lambda>(v, data). Ok (NOT v, data))"

definition decode_i64 :: "byteorder_api \<Rightarrow> bytes \<Rightarrow> (codec_error, i64 \<times> bytes) result" where
  "decode_i64 bo data = result_map (map_prod order_decode_i64 id) (decode_u64 bo data)"

definition decode_i64_desc :: "byteorder_api \<Rightarrow> bytes \<Rightarrow> (codec_error, i64 \<times> bytes) result" where
  "decode_i64_desc bo data = result_map (map_prod order_decode_i64 id) (decode_u64_desc bo data)"

definition decode_u32 :: "byteorder_api \<Rightarrow> bytes \<Rightarrow> (codec_error, u32 \<times> bytes) result" where
  "decode_u32 bo data = read_num_bytes 4 data (bo_be_read_u32 bo)"

definition decode_u16 :: "byteorder_api \<Rightarrow> bytes \<Rightarrow> (codec_error, u16 \<times> bytes) result" where
  "decode_u16 bo data = read_num_bytes 2 data (bo_be_read_u16 bo)"

text \<open>\<open>slice::get_unchecked\<close> on an index and on a range \<open>i..\<close>: undefined behaviour outside.\<close>

definition get_unchecked :: "bytes \<Rightarrow> nat \<Rightarrow> ('e, byte) result" where
  "get_unchecked data i = (if i < length data then Ok (data ! i) else Undef)"

definition get_unchecked_from :: "bytes \<Rightarrow> nat \<Rightarrow> ('e, bytes) result" where
  "get_unchecked_from data i = (if i \<le> length data then Ok (drop i data) else Undef)"

text \<open>The loop over \<open>0..9\<close> and the tenth byte, entered when ten bytes or a terminated integer are there.\<close>

function decode_var_u64_fast :: "bytes \<Rightarrow> nat \<Rightarrow> u64 \<Rightarrow> (codec_error, u64 \<times> bytes) result" where
  "decode_var_u64_fast data i res =
    (if i < 9
     then bind_result (get_unchecked data i) (\<lambda>b.
       let res = res OR push_bit (i * 7) (ucast b AND 0x7f) in
       if b < 0x80
       then bind_result (get_unchecked_from data (i + 1)) (\<lambda>data. Ok (res, data))
       else decode_var_u64_fast data (i + 1) res)
     else bind_result (get_unchecked data 9) (\<lambda>b.
       if b \<le> 1
       then let res = res OR push_bit (9 * 7) (ucast b AND 0x7f) in
         bind_result (get_unchecked_from data 10) (\<lambda>data. Ok (res, data))
       else Err (Io InvalidData)))"
  by pat_completeness auto
termination by (relation "measure (\<lambda>(data, i, res). 9 - i)") auto

declare decode_var_u64_fast.simps [simp del]

text \<open>The loop over \<open>0..data.len()\<close>.\<close>

function decode_var_u64_slow :: "bytes \<Rightarrow> nat \<Rightarrow> u64 \<Rightarrow> (codec_error, u64 \<times> bytes) result" where
  "decode_var_u64_slow data i res =
    (if i < length data
     then let b = data ! i; res = res OR push_bit (i * 7) (ucast b AND 0x7f) in
       if b < 0x80
       then bind_result (get_unchecked_from data (i + 1)) (\<lambda>data. Ok (res, data))
       else decode_var_u64_slow data (i + 1) res
     else Err unexpected_eof)"
  by pat_completeness auto
termination by (relation "measure (\<lambda>(data, i, res). length data - i)") auto

declare decode_var_u64_slow.simps [simp del]

definition decode_var_u64 :: "bytes \<Rightarrow> (codec_error, u64 \<times> bytes) result" where
  "decode_var_u64 data =
    (if data \<noteq> [] \<and> hd data < 0x80
     then let res = ucast (hd data) AND 0x7f in
       bind_result (get_unchecked_from data 1) (\<lambda>data. Ok (res, data))
     else if data \<noteq> [] \<and> (length data \<ge> 10 \<or> last data < 0x80)
     then decode_var_u64_fast data 0 0
     else decode_var_u64_slow data 0 0)"

definition decode_var_i64 :: "bytes \<Rightarrow> (codec_error, i64 \<times> bytes) result" where
  "decode_var_i64 data = bind_result (decode_var_u64 data) (\<lambda>(v, data).
    let vx = drop_bit 1 v in
    if v AND 1 = 0 then Ok (vx, data) else Ok (NOT vx, data))"

definition decode_f64 :: "byteorder_api \<Rightarrow> bytes \<Rightarrow> (codec_error, f64 \<times> bytes) result" where
  "decode_f64 bo data = result_map (map_prod order_decode_f64 id) (decode_u64 bo data)"

definition decode_f64_desc :: "byteorder_api \<Rightarrow> bytes \<Rightarrow> (codec_error, f64 \<times> bytes) result" where
  "decode_f64_desc bo data = result_map (map_prod order_decode_f64 id) (decode_u64_desc bo data)"

definition decode_u16_le :: "byteorder_api \<Rightarrow> bytes \<Rightarrow> (codec_error, u16 \<times> bytes) result" where
  "decode_u16_le bo data = read_num_bytes 2 data (bo_le_read_u16 bo)"

definition decode_u32_le :: "byteorder_api \<Rightarrow> bytes \<Rightarrow> (codec_error, u32 \<times> bytes) result" where
  "decode_u32_le bo data = read_num_bytes 4 data (bo_le_read_u32 bo)"

definition decode_i32_le :: "byteorder_api \<Rightarrow> bytes \<Rightarrow> (codec_error, u32 \<times> bytes) result" where
  "decode_i32_le bo data = read_num_bytes 4 data (bo_le_read_i32 bo)"

definition decode_f64_le :: "byteorder_api \<Rightarrow> bytes \<Rightarrow> (codec_error, f64 \<times> bytes) result" where
  "decode_f64_le bo data = read_num_bytes 8 data (bo_le_read_f64 bo)"

definition decode_f32_le :: "byteorder_api \<Rightarrow> bytes \<Rightarrow> (codec_error, u32 \<times> bytes) result" where
  "decode_f32_le bo data = read_num_bytes 4 data (bo_le_read_f32 bo)"

definition decode_u64_le :: "byteorder_api \<Rightarrow> bytes \<Rightarrow> (codec_error, u64 \<times> bytes) result" where
  "decode_u64_le bo data = read_num_bytes 8 data (bo_le_read_u64 bo)"

definition decode_i64_le :: "byteorder_api \<Rightarrow> bytes \<Rightarrow> (codec_error, i64 \<times> bytes) result" where
  "decode_i64_le bo data = bind_result (decode_u64_le bo data) (\<lambda>(v, data). Ok (v, data))"

definition read_u8 :: "bytes \<Rightarrow> (codec_error, byte \<times> bytes) result" where
  "read_u8 data =
    (if data \<noteq> [] then let v = hd data; data = drop 1 data in Ok (v, data)
     else Err unexpected_eof)"

section \<open>Reference definitions\<close>

text \<open>
  The variable-length format: groups of seven bits, least significant first, every group but the
  last with the high bit of its byte set. \<open>var_bytes\<close> is the encoding, \<open>var_prefix\<close>
  counts the continuation bytes at the front of a slice, \<open>var_value\<close> is the number a run of
  groups stands for, and \<open>decode_var_spec\<close> says what decoding any slice gives.
\<close>

function var_bytes :: "u64 \<Rightarrow> bytes" where
  "var_bytes v = (if v \<ge> 0x80 then (ucast v OR 0x80) # var_bytes (drop_bit 7 v) else [ucast v])"
  by pat_completeness auto
termination
  by (relation "measure unat") (auto simp: unat_drop_bit_div word_le_nat_alt)

declare var_bytes.simps [simp del]

primrec var_value :: "bytes \<Rightarrow> u64" where
  "var_value [] = 0"
| "var_value (b # bs) = (ucast b AND 0x7f) OR push_bit 7 (var_value bs)"

definition var_prefix :: "bytes \<Rightarrow> nat" where
  "var_prefix data = length (takeWhile (\<lambda>b. 0x80 \<le> b) data)"

definition decode_var_spec :: "bytes \<Rightarrow> (codec_error, u64 \<times> bytes) result" where
  "decode_var_spec data =
    (let n = var_prefix data in
     if n < length data \<and> (n < 9 \<or> n = 9 \<and> data ! 9 \<le> 1)
     then Ok (var_value (take (Suc n) data), drop (Suc n) data)
     else Err (Io (if length data < 10 then UnexpectedEof else InvalidData)))"

definition zigzag :: "i64 \<Rightarrow> u64" where
  "zigzag v = (if sint v < 0 then NOT (push_bit 1 v) else push_bit 1 v)"

text \<open>
  The value of a finite float, in units of the least subnormal \<open>2\<^sup>-\<^sup>1\<^sup>0\<^sup>7\<^sup>4\<close>: an exponent field
  \<open>e\<close> and a fraction field \<open>m\<close> stand for \<open>m\<close> when \<open>e = 0\<close> and for
  \<open>(2\<^sup>5\<^sup>2 + m) * 2\<^sup>e\<^sup>-\<^sup>1\<close> otherwise.
\<close>

definition f64_magnitude :: "nat \<Rightarrow> nat" where
  "f64_magnitude x =
    (let e = x div 2 ^ 52; m = x mod 2 ^ 52 in if e = 0 then m else (2 ^ 52 + m) * 2 ^ (e - 1))"

definition f64_units :: "f64 \<Rightarrow> int" where
  "f64_units v =
    (if is_sign_positive v then int (f64_magnitude (unat v))
     else - int (f64_magnitude (unat v - 2 ^ 63)))"

section \<open>Order-preserving conversions\<close>

lemma SIGN_MARK_push_bit: "SIGN_MARK = push_bit 63 1"
  by (simp add: SIGN_MARK_def)

lemma bit_SIGN_MARK [simp]: "bit SIGN_MARK n \<longleftrightarrow> n = 63"
  unfolding SIGN_MARK_push_bit by (simp only: bit_push_bit_iff bit_1_iff) auto

lemma order_decode_encode_i64 [simp]: "order_decode_i64 (order_encode_i64 v) = v"
  by (simp add: order_decode_i64_def order_encode_i64_def ac_simps)

lemma order_encode_decode_i64 [simp]: "order_encode_i64 (order_decode_i64 v) = v"
  by (simp add: order_decode_i64_def order_encode_i64_def ac_simps)

lemma and_SIGN_MARK_gt_0: "u AND SIGN_MARK > 0 \<longleftrightarrow> bit u 63"
proof -
  have "u AND SIGN_MARK = (if bit u 63 then SIGN_MARK else 0)"
    by (rule bit_word_eqI) (auto simp: bit_and_iff)
  moreover have "SIGN_MARK \<noteq> 0" by (simp add: SIGN_MARK_def)
  ultimately show ?thesis by (simp add: word_gt_0)
qed

lemma order_decode_encode_f64 [simp]: "order_decode_f64 (order_encode_f64 v) = v"
  unfolding order_decode_f64_def order_encode_f64_def Let_def is_sign_positive_def and_SIGN_MARK_gt_0
  by (rule bit_word_eqI) (auto simp: bit_and_iff bit_or_iff bit_not_iff)

lemma xor_SIGN_MARK: "v XOR SIGN_MARK = v + SIGN_MARK"
proof (cases "bit v 63")
  case False
  have "v + SIGN_MARK = v OR SIGN_MARK"
    by (rule disjunctive_add) (auto simp: False)
  also have "\<dots> = v XOR SIGN_MARK"
    by (rule bit_word_eqI) (auto simp: bit_or_iff bit_xor_iff False)
  finally show ?thesis by simp
next
  case True
  have "(v XOR SIGN_MARK) + SIGN_MARK = (v XOR SIGN_MARK) OR SIGN_MARK"
    by (rule disjunctive_add) (auto simp: True bit_xor_iff)
  also have "\<dots> = v"
    by (rule bit_word_eqI) (auto simp: bit_or_iff bit_xor_iff True)
  finally have "v + SIGN_MARK = (v XOR SIGN_MARK) + (SIGN_MARK + SIGN_MARK)"
    by (metis add.assoc)
  also have "SIGN_MARK + SIGN_MARK = 0" by (simp add: SIGN_MARK_def)
  finally show ?thesis by simp
qed

lemma uint_order_encode_i64: "uint (order_encode_i64 v) = sint v + 2 ^ 63"
proof -
  have "sint v = (uint v + 2 ^ 63) mod 2 ^ 64 - 2 ^ 63"
    using int_word_sint [where ?'a = 64, of "uint v"] by simp
  moreover have "uint (v + SIGN_MARK) = (uint v + 2 ^ 63) mod 2 ^ 64"
    by (simp add: uint_word_ariths SIGN_MARK_def)
  ultimately show ?thesis
    by (simp add: order_encode_i64_def xor_SIGN_MARK)
qed

lemma order_encode_i64_less: "order_encode_i64 a < order_encode_i64 b \<longleftrightarrow> sint a < sint b"
  by (simp add: word_less_def uint_order_encode_i64)

lemma f64_magnitude_fields:
  "m < 2 ^ 52 \<Longrightarrow>
    f64_magnitude (e * 2 ^ 52 + m) = (if e = 0 then m else (2 ^ 52 + m) * 2 ^ (e - 1))"
  by (simp add: f64_magnitude_def Let_def)

lemma f64_magnitude_Suc: "f64_magnitude x < f64_magnitude (Suc x)"
proof -
  define e m where "e = x div 2 ^ 52" and "m = x mod 2 ^ 52"
  have x: "x = e * 2 ^ 52 + m" and m: "m < 2 ^ 52"
    by (auto simp: e_def m_def)
  show ?thesis
  proof (cases "Suc m < 2 ^ 52")
    case True
    then show ?thesis
      using f64_magnitude_fields [OF m, of e] f64_magnitude_fields [OF True, of e]
      by (simp add: x)
  next
    case False
    with m have m': "m = 2 ^ 52 - 1" by simp
    then have "Suc x = Suc e * 2 ^ 52 + 0" using x by simp
    then have "f64_magnitude (Suc x) = 2 ^ 52 * 2 ^ e"
      using f64_magnitude_fields [of 0 "Suc e"] by simp
    moreover have "(2 ^ 52 + m) * 2 ^ (e - 1) < 2 ^ 52 * 2 ^ e" if "e \<noteq> 0"
    proof -
      have "(2 ^ 52 + m) * 2 ^ (e - 1) < (2 ^ 53) * 2 ^ (e - 1)"
        using m by (intro mult_strict_right_mono) simp_all
      also have "\<dots> = 2 ^ 52 * 2 ^ e"
        using that by (cases e) simp_all
      finally show ?thesis .
    qed
    moreover have "f64_magnitude x = (if e = 0 then m else (2 ^ 52 + m) * 2 ^ (e - 1))"
      unfolding x by (rule f64_magnitude_fields [OF m])
    ultimately show ?thesis using m by simp
  qed
qed

lemma f64_magnitude_less: "x < y \<Longrightarrow> f64_magnitude x < f64_magnitude y"
  using lift_Suc_mono_less [of f64_magnitude, OF f64_magnitude_Suc] .

lemma f64_magnitude_le_iff: "f64_magnitude x \<le> f64_magnitude y \<longleftrightarrow> x \<le> y"
  by (metis f64_magnitude_less not_le order_le_less)

lemma bit_63_unat: "bit (v :: u64) 63 \<longleftrightarrow> 2 ^ 63 \<le> unat v"
proof -
  have "bit v 63 \<longleftrightarrow> odd (unat v div 2 ^ 63)"
    using bit_unsigned_iff [of v 63, where ?'a = nat] by (simp add: bit_iff_odd)
  moreover have "unat v < 2 ^ 64" using unsigned_less [of v, where ?'a = nat] by simp
  then have "unat v div 2 ^ 63 < 2" by simp
  ultimately show ?thesis by (auto simp: div_eq_0_iff less_2_cases_iff)
qed

lemma unat_order_encode_f64:
  "unat (order_encode_f64 v) = (if is_sign_positive v then 2 ^ 63 + unat v else 2 ^ 64 - 1 - unat v)"
proof (cases "is_sign_positive v")
  case True
  then have nb: "\<not> bit v 63" by (simp add: is_sign_positive_def)
  then have "v OR SIGN_MARK = v + SIGN_MARK"
    by (intro disjunctive_add [symmetric]) auto
  moreover have "unat (v + SIGN_MARK) = unat v + 2 ^ 63"
    using nb by (simp add: unat_word_ariths SIGN_MARK_def bit_63_unat)
  ultimately show ?thesis using True by (simp add: order_encode_f64_def)
next
  case False
  have "unat (NOT v) = 2 ^ 64 - 1 - unat v"
    using unat_not_word [of v] by simp
  then show ?thesis using False by (simp add: order_encode_f64_def)
qed

lemma f64_magnitude_eq_iff: "f64_magnitude x = f64_magnitude y \<longleftrightarrow> x = y"
  by (metis f64_magnitude_le_iff order_antisym order_refl)

lemma f64_magnitude_0 [simp]: "f64_magnitude 0 = 0"
  by (simp add: f64_magnitude_def)

lemma f64_magnitude_pos: "0 < f64_magnitude x \<longleftrightarrow> 0 < x"
  using f64_magnitude_eq_iff [of x 0] by auto

lemma order_encode_f64_less_iff:
  "order_encode_f64 a < order_encode_f64 b \<longleftrightarrow>
    f64_units a < f64_units b \<or> (a = SIGN_MARK \<and> b = 0)"
proof -
  have lt: "unat a < 2 ^ 64" "unat b < 2 ^ 64"
    using unsigned_less [of a, where ?'a = nat] unsigned_less [of b, where ?'a = nat] by simp_all
  have sg: "is_sign_positive v \<longleftrightarrow> unat v < 2 ^ 63" for v
    by (auto simp: is_sign_positive_def bit_63_unat)
  have mk: "a = SIGN_MARK \<longleftrightarrow> unat a = 2 ^ 63" "b = 0 \<longleftrightarrow> unat b = 0"
    by (simp_all add: SIGN_MARK_def word_unat_eq_iff)
  have mag: "f64_magnitude x < f64_magnitude y \<longleftrightarrow> x < y" for x y
    by (metis f64_magnitude_le_iff not_le)
  show ?thesis
    unfolding word_less_nat_alt unat_order_encode_f64 f64_units_def sg mk
    using lt mag [of "unat b - 2 ^ 63" "unat a - 2 ^ 63"] mag [of "unat a" "unat b"]
      f64_magnitude_pos [of "unat a - 2 ^ 63"] f64_magnitude_pos [of "unat b"]
    by (auto split: if_splits)
qed

section \<open>Fixed-width reads\<close>

lemma read_num_bytes_append:
  "length xs = sz \<Longrightarrow> read_num_bytes sz (xs @ rest) f = Ok (f xs, rest)"
  by (simp add: read_num_bytes_def slice_of_def)

lemma read_num_bytes_short: "length data < sz \<Longrightarrow> read_num_bytes sz data f = Err unexpected_eof"
  by (simp add: read_num_bytes_def)

section \<open>Variable-length integers\<close>

lemma and_7f: "x AND 0x7f = take_bit 7 (x :: u64)"
proof -
  have "(0x7f :: u64) = mask 7" by (simp add: mask_eq_exp_minus_1)
  then show ?thesis by (simp only: take_bit_eq_mask)
qed

lemma bit_0x80: "bit (0x80 :: byte) n \<longleftrightarrow> n = 7"
proof -
  have "(0x80 :: byte) = push_bit 7 1" by simp
  then show ?thesis by (simp only: bit_push_bit_iff bit_1_iff) auto
qed

lemma take_7_ucast_or_0x80: "take_bit 7 (ucast (ucast v OR 0x80 :: byte)) = take_bit 7 (v :: u64)"
proof (rule bit_word_eqI)
  fix n
  have "bit (ucast v OR 0x80 :: byte) n \<longleftrightarrow> bit v n" if "n < 7"
    using that by (simp only: bit_or_iff bit_unsigned_iff bit_0x80) auto
  then show "bit (take_bit 7 (ucast (ucast v OR 0x80 :: byte)) :: u64) n = bit (take_bit 7 v) n"
    by (simp only: bit_take_bit_iff bit_unsigned_iff) (auto simp: possible_bit_word)
qed

lemma take_or_push_drop_bit: "take_bit 7 v OR push_bit 7 (drop_bit 7 v) = (v :: u64)"
proof (rule bit_word_eqI)
  fix n
  show "bit (take_bit 7 v OR push_bit 7 (drop_bit 7 v)) n = bit v n"
    by (cases "n < 7")
      (auto simp: bit_take_bit_iff bit_or_iff bit_push_bit_iff bit_drop_bit_eq dest: bit_imp_le_length)
qed

lemma var_prefix_Cons:
  "var_prefix (b # bs) = (if b < 0x80 then 0 else Suc (var_prefix bs))"
  by (auto simp: var_prefix_def)

lemma push_bit_var_step:
  "(res OR push_bit k (ucast b AND 0x7f)) OR push_bit (k + 7) x
    = res OR push_bit k ((ucast b AND 0x7f) OR push_bit 7 (x :: u64))"
  by (simp add: push_bit_or ac_simps)

lemma var_prefix_step:
  "i < length data \<Longrightarrow>
    var_prefix (drop i data) = (if data ! i < 0x80 then 0 else Suc (var_prefix (drop (Suc i) data)))"
  by (simp add: Cons_nth_drop_Suc [symmetric] var_prefix_Cons)

lemma slice_of_step:
  "i < length data \<Longrightarrow> i \<le> n \<Longrightarrow> slice_of data i (Suc n) = data ! i # slice_of data (Suc i) (Suc n)"
  by (simp add: slice_of_def Cons_nth_drop_Suc [symmetric] Suc_diff_le)

lemma decode_var_u64_slow_eq:
  assumes "i \<le> length data"
  shows "decode_var_u64_slow data i res =
    (let n = i + var_prefix (drop i data) in
     if n < length data then Ok (res OR push_bit (i * 7) (var_value (slice_of data i (Suc n))), drop (Suc n) data)
     else Err unexpected_eof)"
  using assms
proof (induction data i res rule: decode_var_u64_slow.induct)
  case (1 data i res)
  show ?case
  proof (cases "i < length data")
    case True
    let ?b = "data ! i"
    note sl = slice_of_step [OF True] and pf = var_prefix_step [OF True]
    show ?thesis
    proof (cases "?b < 0x80")
      case bs: True
      then show ?thesis
        using True by (simp add: decode_var_u64_slow.simps [of data i] pf sl
          get_unchecked_from_def Let_def)
    next
      case bs: False
      let ?res = "res OR push_bit (i * 7) (ucast ?b AND 0x7f)"
      have IH: "decode_var_u64_slow data (i + 1) ?res =
        (let n = i + 1 + var_prefix (drop (i + 1) data) in
         if n < length data then Ok (?res OR push_bit ((i + 1) * 7) (var_value (slice_of data (i + 1) (Suc n))), drop (Suc n) data)
         else Err unexpected_eof)"
        using "1.IH" [OF True refl refl bs] True by simp
      have "decode_var_u64_slow data i res = decode_var_u64_slow data (i + 1) ?res"
        using True bs by (simp add: decode_var_u64_slow.simps [of data i] Let_def)
      then show ?thesis
        using IH push_bit_var_step [of res "i * 7" ?b]
        by (simp add: pf bs sl Let_def add.commute)
    qed
  next
    case False
    with "1.prems" have "i = length data" by simp
    then show ?thesis
      by (simp add: decode_var_u64_slow.simps [of data "length data"])
  qed
qed

lemma decode_var_u64_fast_eq:
  assumes "i \<le> 9" "i + var_prefix (drop i data) < length data \<or> 10 \<le> length data"
  shows "decode_var_u64_fast data i res =
    (let n = i + var_prefix (drop i data) in
     if n < 9 \<or> n = 9 \<and> data ! 9 \<le> 1
     then Ok (res OR push_bit (i * 7) (var_value (slice_of data i (Suc n))), drop (Suc n) data)
     else Err (Io InvalidData))"
  using assms
proof (induction data i res rule: decode_var_u64_fast.induct)
  case (1 data i res)
  from 1(2,3) have len: "i < length data"
    by auto
  let ?b = "data ! i"
  note sl = slice_of_step [OF len] and pf = var_prefix_step [OF len]
  show ?case
  proof (cases "i < 9")
    case i9: True
    show ?thesis
    proof (cases "?b < 0x80")
      case bs: True
      then show ?thesis
        using i9 len by (simp add: decode_var_u64_fast.simps [of data i] pf sl
          get_unchecked_from_def get_unchecked_def Let_def)
    next
      case bs: False
      let ?res = "res OR push_bit (i * 7) (ucast ?b AND 0x7f)"
      have IH: "decode_var_u64_fast data (i + 1) ?res =
        (let n = i + 1 + var_prefix (drop (i + 1) data) in
         if n < 9 \<or> n = 9 \<and> data ! 9 \<le> 1 then Ok (?res OR push_bit ((i + 1) * 7) (var_value (slice_of data (i + 1) (Suc n))), drop (Suc n) data)
         else Err (Io InvalidData))"
        using "1.IH" [OF i9 refl bs] 1(3) i9 bs by (simp add: pf)
      have "decode_var_u64_fast data i res = decode_var_u64_fast data (i + 1) ?res"
        using i9 bs len by (simp add: decode_var_u64_fast.simps [of data i] Let_def get_unchecked_def)
      then show ?thesis
        using IH push_bit_var_step [of res "i * 7" ?b]
        by (simp add: pf bs sl Let_def add.commute)
    qed
  next
    case False
    with 1(2) have i9: "i = 9" by simp
    have "var_prefix (drop 9 data) = 0" if "data ! 9 \<le> 1"
    proof -
      from that have "data ! 9 < 0x80" by (simp add: word_le_nat_alt word_less_nat_alt)
      then show ?thesis using pf by (simp add: i9)
    qed
    moreover have "slice_of data 9 10 = [data ! 9]"
      using sl [of 9] by (simp add: i9)
    ultimately show ?thesis
      using len by (simp add: i9 decode_var_u64_fast.simps [of data 9] get_unchecked_def
        get_unchecked_from_def Let_def del: and_numerals)
  qed
qed

lemma var_prefix_le: "var_prefix data \<le> length data"
  by (simp add: var_prefix_def length_takeWhile_le)

lemma var_prefix_last: "data \<noteq> [] \<Longrightarrow> last data < 0x80 \<Longrightarrow> var_prefix data < length data"
  by (induction data) (auto simp: var_prefix_Cons split: if_splits)

lemma decode_var_u64_eq_spec: "decode_var_u64 data = decode_var_spec data"
proof (cases data)
  case Nil
  then show ?thesis
    by (simp add: decode_var_u64_def decode_var_u64_slow.simps decode_var_spec_def unexpected_eof_def var_prefix_def)
next
  case (Cons b bs)
  show ?thesis
  proof (cases "b < 0x80")
    case True
    with Cons show ?thesis
      by (simp add: decode_var_u64_def decode_var_spec_def var_prefix_Cons get_unchecked_from_def)
  next
    case b: False
    show ?thesis
    proof (cases "length data \<ge> 10 \<or> last data < 0x80")
      case True
      then have "decode_var_u64 data = decode_var_u64_fast data 0 0"
        using Cons b by (auto simp: decode_var_u64_def)
      moreover have pre: "var_prefix data < length data \<or> 10 \<le> length data"
        using True Cons var_prefix_last by blast
      ultimately show ?thesis
        using decode_var_u64_fast_eq [of 0 data 0] var_prefix_le [of data]
        by (auto simp: decode_var_spec_def slice_of_def Let_def)
    next
      case False
      then have "decode_var_u64 data = decode_var_u64_slow data 0 0"
        using Cons b by (auto simp: decode_var_u64_def)
      then show ?thesis
        using False decode_var_u64_slow_eq [of 0 data 0] var_prefix_le [of data]
        by (auto simp: decode_var_spec_def slice_of_def Let_def unexpected_eof_def)
    qed
  qed
qed

lemma high_bit_set: "0x80 \<le> (b OR 0x80 :: byte)"
proof -
  have "0x80 AND (b OR 0x80) = (0x80 :: byte)"
    by (rule bit_word_eqI) (auto simp: bit_and_iff bit_or_iff bit_0x80)
  then show ?thesis by (metis word_and_le1)
qed

lemma var_prefix_var_bytes: "var_prefix (var_bytes v @ r) = length (var_bytes v) - 1"
proof (induction v rule: var_bytes.induct)
  case (1 v)
  show ?case
  proof (cases "v \<ge> 0x80")
    case True
    have ne: "length (var_bytes (drop_bit 7 v)) > 0" by (subst var_bytes.simps) simp
    have "\<not> (ucast v OR 0x80 :: byte) < 0x80" using high_bit_set [of "ucast v"] by simp
    with True "1" ne show ?thesis by (simp add: var_bytes.simps [of v] var_prefix_Cons)
  next
    case False
    then have "(ucast v :: byte) < 0x80"
      by (simp add: word_less_nat_alt word_le_nat_alt unat_ucast_byte)
    with False show ?thesis by (simp add: var_bytes.simps [of v] var_prefix_Cons)
  qed
qed

lemma var_value_var_bytes: "var_value (var_bytes v) = v"
proof (induction v rule: var_bytes.induct)
  case (1 v)
  show ?case
  proof (cases "v \<ge> 0x80")
    case True
    have "(ucast (ucast v OR 0x80 :: byte) AND 0x7f) OR push_bit 7 (drop_bit 7 v) = v"
      unfolding and_7f take_7_ucast_or_0x80 by (rule take_or_push_drop_bit)
    with True "1" show ?thesis by (simp add: var_bytes.simps [of v])
  next
    case False
    then have "unat v < 128" by (simp add: word_le_nat_alt)
    then have "ucast (ucast v :: byte) AND 0x7f = v"
      by (intro unsigned_word_eqI [where ?'a = nat])
        (simp only: and_7f unsigned_take_bit_eq unsigned_ucast_eq, simp add: take_bit_eq_mod)
    with False show ?thesis by (simp add: var_bytes.simps [of v])
  qed
qed

lemma var_bytes_length:
  "unat v < 2 ^ (7 * k + 1) \<Longrightarrow>
    length (var_bytes v) \<le> k \<or> length (var_bytes v) = Suc k \<and> last (var_bytes v) \<le> 1"
proof (induction k arbitrary: v)
  case 0
  then have "v \<le> 1" by (simp add: word_le_nat_alt)
  then have "\<not> v \<ge> 0x80" "(ucast v :: byte) \<le> 1"
    by (auto simp: word_le_nat_alt unat_ucast_byte)
  then show ?case by (simp add: var_bytes.simps [of v])
next
  case (Suc k)
  show ?case
  proof (cases "v \<ge> 0x80")
    case True
    have "unat (drop_bit 7 v) < 2 ^ (7 * k + 1)"
      using Suc.prems by (simp add: unat_drop_bit_div less_mult_imp_div_less power_add)
    from Suc.IH [OF this] True show ?thesis
      by (subst (1 2 3) var_bytes.simps) (auto, (subst (asm) var_bytes.simps, simp)?)
  next
    case False
    then show ?thesis by (simp add: var_bytes.simps [of v])
  qed
qed

lemma var_bytes_nonempty [simp]: "var_bytes v \<noteq> []"
  by (subst var_bytes.simps) simp

lemma var_bytes_length_10:
  "length (var_bytes v) \<le> 9 \<or> length (var_bytes v) = 10 \<and> last (var_bytes v) \<le> 1"
  using var_bytes_length [of v 9] unsigned_less [of v, where ?'a = nat] by simp

lemma decode_var_u64_var_bytes: "decode_var_u64 (var_bytes v @ r) = Ok (v, r)"
proof -
  let ?n = "length (var_bytes v)"
  obtain k where n: "?n = Suc k" by (cases "var_bytes v") auto
  have "?n - 1 < 9 \<or> ?n - 1 = 9 \<and> (var_bytes v @ r) ! 9 \<le> 1"
    using n var_bytes_length_10 [of v] by (auto simp: nth_append last_conv_nth)
  then show ?thesis
    using n by (auto simp: decode_var_u64_eq_spec decode_var_spec_def var_prefix_var_bytes
        var_value_var_bytes Let_def)
qed

lemma bit_zigzag:
  "bit (zigzag v) k \<longleftrightarrow> k < 64 \<and> (if sint v < 0 then k = 0 \<or> \<not> bit v (k - 1) else k \<noteq> 0 \<and> bit v (k - 1))"
proof (cases "sint v < 0")
  case True
  then show ?thesis
    by (simp only: zigzag_def if_True bit_not_iff bit_push_bit_iff) (auto simp: possible_bit_word)
next
  case False
  then show ?thesis
    by (simp only: zigzag_def if_False bit_push_bit_iff) (auto simp: possible_bit_word)
qed

lemma zigzag_sign: "zigzag v AND 1 = 0 \<longleftrightarrow> \<not> sint v < 0"
proof -
  have "zigzag v AND 1 = 0 \<longleftrightarrow> \<not> bit (zigzag v) 0"
    by (simp add: and_one_eq bit_0 mod_2_eq_odd)
  then show ?thesis by (simp only: bit_zigzag) simp
qed

lemma zigzag_inverse:
  "(if sint v < 0 then NOT (drop_bit 1 (zigzag v)) else drop_bit 1 (zigzag v)) = v"
proof (rule bit_word_eqI)
  have neg: "sint v < 0 \<longleftrightarrow> bit v 63" using bit_last_iff [of v] by simp
  fix n
  assume "n < LENGTH(64)"
  then have n: "n < 63 \<or> n = 63" by auto
  then show "bit (if sint v < 0 then NOT (drop_bit 1 (zigzag v)) else drop_bit 1 (zigzag v)) n = bit v n"
    by (cases "sint v < 0")
      ((simp only: if_True if_False bit_not_iff bit_drop_bit_eq bit_zigzag o_apply possible_bit_word,
        auto simp: neg)+)
qed

lemma decode_var_i64_zigzag: "decode_var_i64 (var_bytes (zigzag v) @ r) = Ok (v, r)"
  using zigzag_inverse [of v]
  by (auto simp: decode_var_i64_def decode_var_u64_var_bytes zigzag_sign Let_def split: if_splits)

section \<open>The encoders over the byteorder contract\<close>

context byteorder
begin

lemma encode_var_u64_eq: "encode_var_u64 bo self v = self @ var_bytes v"
proof (induction v arbitrary: self rule: var_bytes.induct)
  case (1 v)
  then show ?case
    by (simp add: encode_var_u64.simps [of bo self v] var_bytes.simps [of v] write_u8)
qed

lemma encode_var_i64_eq: "encode_var_i64 bo self v = self @ var_bytes (zigzag v)"
  by (simp add: encode_var_i64_def encode_var_u64_eq zigzag_def Let_def)

lemma decode_u64_written [simp]: "decode_u64 bo (bo_be_write_u64 bo v @ r) = Ok (v, r)"
  by (simp add: decode_u64_def read_num_bytes_append)

lemma decode_u64_desc_written [simp]: "decode_u64_desc bo (bo_be_write_u64 bo v @ r) = Ok (NOT v, r)"
  by (simp add: decode_u64_desc_def)

lemma encode_u64_less: "encode_u64 bo self a < encode_u64 bo self b \<longleftrightarrow> a < b"
  by (simp add: encode_u64_def lex_simps be64.wr_less_iff)

lemma encode_u64_desc_less: "encode_u64_desc bo self a < encode_u64_desc bo self b \<longleftrightarrow> b < a"
  by (simp add: encode_u64_desc_def lex_simps be64.wr_less_iff)

end

section \<open>Properties\<close>

text \<open>
  (C34) A variable-length unsigned integer takes one to ten bytes, and decoding what
  \<open>encode_var_u64\<close> appended gives the integer back and leaves the slice at the byte after it,
  whatever follows.
\<close>

theorem var_u64_roundtrip:
  assumes "byteorder bo"
  shows "\<exists>w. encode_var_u64 bo self v = self @ w \<and> 1 \<le> length w \<and> length w \<le> MAX_VAR_U64_LEN
    \<and> decode_var_u64 (w @ rest) = Ok (v, rest)"
proof (intro exI conjI)
  show "encode_var_u64 bo self v = self @ var_bytes v"
    by (rule byteorder.encode_var_u64_eq [OF assms])
  show "length (var_bytes v) \<le> MAX_VAR_U64_LEN"
    using var_bytes_length_10 [of v] by auto
  show "1 \<le> length (var_bytes v)" by (simp add: Suc_le_eq)
qed (rule decode_var_u64_var_bytes)

theorem var_u64_roundtrip_witness:
  "\<exists>w. encode_var_u64 std_byteorder [] 300 = [] @ w \<and> 1 \<le> length w \<and> length w \<le> MAX_VAR_U64_LEN
    \<and> decode_var_u64 (w @ [1]) = Ok (300, [1])"
  by (rule var_u64_roundtrip [OF byteorder_std])

text \<open>
  The same for signed integers: the zigzag step of \<open>encode_var_i64\<close> is undone by
  \<open>decode_var_i64\<close> for every 64-bit value, the most negative one included.
\<close>

theorem var_i64_roundtrip:
  assumes "byteorder bo"
  shows "\<exists>w. encode_var_i64 bo self v = self @ w \<and> 1 \<le> length w \<and> length w \<le> MAX_VAR_I64_LEN
    \<and> decode_var_i64 (w @ rest) = Ok (v, rest)"
proof (intro exI conjI)
  show "encode_var_i64 bo self v = self @ var_bytes (zigzag v)"
    by (rule byteorder.encode_var_i64_eq [OF assms])
  show "length (var_bytes (zigzag v)) \<le> MAX_VAR_I64_LEN"
    using var_bytes_length_10 [of "zigzag v"] by auto
  show "1 \<le> length (var_bytes (zigzag v))" by (simp add: Suc_le_eq)
qed (rule decode_var_i64_zigzag)

theorem var_i64_roundtrip_witness:
  "\<exists>w. encode_var_i64 std_byteorder [9] (-1) = [9] @ w \<and> 1 \<le> length w \<and> length w \<le> MAX_VAR_I64_LEN
    \<and> decode_var_i64 (w @ []) = Ok (-1, [])"
  by (rule var_i64_roundtrip [OF byteorder_std])

text \<open>
  (C35) What \<open>decode_var_u64\<close> does on any slice: with \<open>n\<close> continuation bytes in front it
  returns the value of the first \<open>n + 1\<close> bytes and the rest if there is a terminating byte and it
  is within the ten bytes of 64 bits; otherwise it reports the end of input when fewer than ten bytes
  are there and an overflow when not. None of its unchecked reads leaves the slice.
\<close>

theorem decode_var_u64_total:
  "decode_var_u64 data = decode_var_spec data \<and> decode_var_u64 data \<noteq> Undef"
  by (auto simp: decode_var_u64_eq_spec decode_var_spec_def Let_def)

text \<open>
  (C33) The fixed-width encodings are memory-comparable: appended to the same prefix, the bytes of two
  integers compare as the integers do (in reverse for the descending encodings), signed integers as
  signed.
\<close>

theorem fixed_ints_memcomparable:
  assumes "byteorder bo"
  shows "(encode_u64 bo self u < encode_u64 bo self v \<longleftrightarrow> u < v) \<and>
    (encode_u64_desc bo self u < encode_u64_desc bo self v \<longleftrightarrow> v < u) \<and>
    (encode_i64 bo self a < encode_i64 bo self b \<longleftrightarrow> sint a < sint b) \<and>
    (encode_i64_desc bo self a < encode_i64_desc bo self b \<longleftrightarrow> sint b < sint a)"
  using byteorder.encode_u64_less [OF assms] byteorder.encode_u64_desc_less [OF assms]
  by (simp add: encode_i64_def encode_i64_desc_def order_encode_i64_less)

theorem fixed_ints_memcomparable_witness:
  "sint (-5 :: i64) < sint (3 :: i64) \<and>
   encode_i64 std_byteorder [7] (-5) < encode_i64 std_byteorder [7] 3 \<and>
   encode_i64_desc std_byteorder [7] 3 < encode_i64_desc std_byteorder [7] (-5)"
  using fixed_ints_memcomparable [OF byteorder_std, of "[7]" 0 0 "-5" 3]
    fixed_ints_memcomparable [OF byteorder_std, of "[7]" 0 0 3 "-5"] by simp

text \<open>
  The float encoding is memory-comparable: the codes of two floats compare as the numbers do
  (finite floats by value, infinities beyond them), and of the two zeros, which are one number, the
  negative one comes first; the descending code reverses this.
\<close>

theorem floats_memcomparable:
  assumes "byteorder bo"
  shows "(encode_f64 bo self a < encode_f64 bo self b \<longleftrightarrow>
      f64_units a < f64_units b \<or> (a = SIGN_MARK \<and> b = 0)) \<and>
    (encode_f64_desc bo self a < encode_f64_desc bo self b \<longleftrightarrow>
      f64_units b < f64_units a \<or> (b = SIGN_MARK \<and> a = 0))"
  using byteorder.encode_u64_less [OF assms] byteorder.encode_u64_desc_less [OF assms]
  by (simp add: encode_f64_def encode_f64_desc_def order_encode_f64_less_iff)

theorem floats_memcomparable_witness:
  "encode_f64 std_byteorder [] 0xBFF0000000000000 < encode_f64 std_byteorder [] 0x3FF0000000000000
    \<longleftrightarrow> f64_units 0xBFF0000000000000 < f64_units 0x3FF0000000000000"
  using floats_memcomparable [OF byteorder_std, of "[]" "0xBFF0000000000000" "0x3FF0000000000000"]
  by (simp add: SIGN_MARK_def)

text \<open>
  Each fixed-width decoder undoes its encoder, on the bytes appended by it and whatever follows.
\<close>

theorem fixed_width_roundtrip:
  assumes "byteorder bo"
  shows "decode_u64 bo (drop (length self) (encode_u64 bo self u) @ r) = Ok (u, r) \<and>
    decode_u64_desc bo (drop (length self) (encode_u64_desc bo self u) @ r) = Ok (u, r) \<and>
    decode_i64 bo (drop (length self) (encode_i64 bo self i) @ r) = Ok (i, r) \<and>
    decode_i64_desc bo (drop (length self) (encode_i64_desc bo self i) @ r) = Ok (i, r) \<and>
    decode_f64 bo (drop (length self) (encode_f64 bo self f) @ r) = Ok (f, r) \<and>
    decode_f64_desc bo (drop (length self) (encode_f64_desc bo self f) @ r) = Ok (f, r)"
  using byteorder.decode_u64_written [OF assms] byteorder.decode_u64_desc_written [OF assms]
  by (simp add: encode_u64_def encode_u64_desc_def encode_i64_def encode_i64_desc_def
      encode_f64_def encode_f64_desc_def decode_i64_def decode_i64_desc_def decode_f64_def
      decode_f64_desc_def)

theorem fixed_width_roundtrip_witness:
  "decode_i64 std_byteorder (drop (length [1 :: byte, 2]) (encode_i64 std_byteorder [1, 2] (-7)) @ [3])
    = Ok (-7, [3])"
  using fixed_width_roundtrip [OF byteorder_std, of "[1, 2]" 0 "[3]" "-7"] by blast

end
