(* ===== verification/Bytes_Codec.thy ===== *)
theory Bytes_Codec
  imports Number_Codec
begin

text \<open>
  The byte-string codec of \<open>edb/edbn/einsteindb_util/src/codec/bytes.rs\<close>: the
  memory-comparable encoding in groups of eight bytes with a marker, ascending and descending, its
  decoders (allocating and in place), the comparison of an encoding with a raw key, and the compact
  (length-prefixed) encoding. Writers and readers are as in \<open>Number_Codec\<close>; the
  \<open>BufRead\<close> receiver of \<open>CompactBytesFromFileDecoder\<close> is the list of bytes it has left.
\<close>

section \<open>The code\<close>

definition ENC_GROUP_SIZE :: usize where [simp]: "ENC_GROUP_SIZE = 8"
definition ENC_MARKER :: byte where [simp]: "ENC_MARKER = 0xff"
definition ENC_ASC_PADDING :: bytes where [simp]: "ENC_ASC_PADDING = replicate ENC_GROUP_SIZE 0"
definition ENC_DESC_PADDING :: bytes where [simp]: "ENC_DESC_PADDING = replicate ENC_GROUP_SIZE (NOT 0)"

definition max_encoded_bytes_size :: "nat \<Rightarrow> nat" where
  "max_encoded_bytes_size n = (n div ENC_GROUP_SIZE + 1) * (ENC_GROUP_SIZE + 1)"

definition adjust_bytes_order :: "bytes \<Rightarrow> bool \<Rightarrow> bytes" where
  "adjust_bytes_order bs desc = (if desc then map (\<lambda>b. NOT b) bs else bs)"

function encode_bytes_loop :: "bytes \<Rightarrow> bytes \<Rightarrow> bool \<Rightarrow> nat \<Rightarrow> bytes" where
  "encode_bytes_loop self key desc index =
    (if index \<le> length key then
       let remain = length key - index;
           pad = (if remain > ENC_GROUP_SIZE then 0 else ENC_GROUP_SIZE - remain);
           self = (if remain > ENC_GROUP_SIZE
             then self @ adjust_bytes_order (slice_of key index (index + ENC_GROUP_SIZE)) desc
             else self @ adjust_bytes_order (drop index key) desc
               @ (if desc then take pad ENC_DESC_PADDING else take pad ENC_ASC_PADDING));
           self = self @ adjust_bytes_order [ENC_MARKER - of_nat pad] desc
       in encode_bytes_loop self key desc (index + ENC_GROUP_SIZE)
     else self)"
  by pat_completeness auto
termination by (relation "measure (\<lambda>(self, key, desc, index). Suc (length key) - index)") auto

declare encode_bytes_loop.simps [simp del]

definition encode_bytes_to :: "bytes \<Rightarrow> bytes \<Rightarrow> bool \<Rightarrow> bytes" where
  "encode_bytes_to self key desc = encode_bytes_loop self key desc 0"

definition encode_order_bytes :: "bytes \<Rightarrow> bool \<Rightarrow> bytes" where
  "encode_order_bytes bs desc = encode_bytes_to [] bs desc"

function encoded_bytes_len_loop :: "bytes \<Rightarrow> bool \<Rightarrow> nat \<Rightarrow> nat" where
  "encoded_bytes_len_loop encoded desc idx =
    (if length encoded < idx + 1 then length encoded
     else let marker = encoded ! idx in
       if (desc \<and> marker \<noteq> 0) \<or> (\<not> desc \<and> marker \<noteq> ENC_MARKER) then idx + 1
       else encoded_bytes_len_loop encoded desc (idx + (ENC_GROUP_SIZE + 1)))"
  by pat_completeness auto
termination by (relation "measure (\<lambda>(encoded, desc, idx). length encoded - idx)") auto

declare encoded_bytes_len_loop.simps [simp del]

definition encoded_bytes_len :: "bytes \<Rightarrow> bool \<Rightarrow> nat" where
  "encoded_bytes_len encoded desc = encoded_bytes_len_loop encoded desc ENC_GROUP_SIZE"

function decode_bytes_loop :: "bytes \<Rightarrow> bool \<Rightarrow> bytes \<Rightarrow> nat \<Rightarrow> (codec_error, bytes \<times> bytes) result" where
  "decode_bytes_loop data desc key offset =
    (let Soliton_len = ENC_GROUP_SIZE + 1; next_offset = offset + Soliton_len in
     if next_offset \<le> length data then
       let Soliton = slice_of data offset next_offset;
           offset = next_offset;
           marker = last Soliton; bytes = butlast Soliton;
           pad_size = (if desc then unat marker else unat (ENC_MARKER - marker)) in
       if pad_size = 0 then decode_bytes_loop data desc (key @ bytes) offset
       else if pad_size > ENC_GROUP_SIZE then Err KeyPadding
       else let padding = drop (ENC_GROUP_SIZE - pad_size) bytes;
                bytes = take (ENC_GROUP_SIZE - pad_size) bytes;
                key = key @ bytes;
                pad_byte = (if desc then NOT 0 else 0) in
         if list_ex (\<lambda>x. x \<noteq> pad_byte) padding then Err KeyPadding
         else Ok (if desc then map (\<lambda>k. NOT k) key else key, drop offset data)
     else Err unexpected_eof)"
  by pat_completeness auto
termination by (relation "measure (\<lambda>(data, desc, key, offset). length data - offset)") auto

declare decode_bytes_loop.simps [simp del]

definition decode_bytes :: "bytes \<Rightarrow> bool \<Rightarrow> (codec_error, bytes \<times> bytes) result" where
  "decode_bytes data desc = decode_bytes_loop data desc [] 0"

definition encode_bytes :: "bytes \<Rightarrow> bytes" where
  "encode_bytes bs = encode_order_bytes bs False"

definition encode_bytes_desc :: "bytes \<Rightarrow> bytes" where
  "encode_bytes_desc bs = encode_order_bytes bs True"

text \<open>
  \<open>decode_bytes_in_place\<close> moves each group to \<open>write_offset\<close> inside the vector
  (\<open>ptr::copy\<close> of eight bytes, source and destination may overlap) and returns the vector with the
  outcome: on an error the vector has been partly overwritten.
\<close>

definition ptr_copy :: "bytes \<Rightarrow> nat \<Rightarrow> nat \<Rightarrow> nat \<Rightarrow> bytes" where
  "ptr_copy data src dst n = take dst data @ slice_of data src (src + n) @ drop (dst + n) data"

function decode_bytes_in_place_loop ::
  "bytes \<Rightarrow> bool \<Rightarrow> nat \<Rightarrow> nat \<Rightarrow> bytes \<times> (codec_error, unit) result" where
  "decode_bytes_in_place_loop data desc write_offset read_offset =
    (let marker_offset = read_offset + ENC_GROUP_SIZE in
     if marker_offset \<ge> length data then (data, Err unexpected_eof)
     else if write_offset + ENC_GROUP_SIZE > length data then (data, Undef)
     else
       let data' = ptr_copy data read_offset write_offset ENC_GROUP_SIZE;
           write_offset' = write_offset + ENC_GROUP_SIZE;
           read_offset' = read_offset + (ENC_GROUP_SIZE + 1);
           marker = data' ! marker_offset;
           pad_size = (if desc then unat marker else unat (ENC_MARKER - marker)) in
       if pad_size > 0 then
         if pad_size > ENC_GROUP_SIZE then (data', Err KeyPadding)
         else
           let padding_slice =
             (if desc then take pad_size ENC_DESC_PADDING else take pad_size ENC_ASC_PADDING) in
           if slice_of data' (write_offset' - pad_size) write_offset' \<noteq> padding_slice
           then (data', Err KeyPadding)
           else
             let data'' = take (write_offset' - pad_size) data' in
             (if desc then map (\<lambda>k. NOT k) data'' else data'', Ok ())
       else decode_bytes_in_place_loop data' desc write_offset' read_offset')"
  by pat_completeness auto
termination
  by (relation "measure (\<lambda>(data, desc, w, r). length data - r)") (auto simp: ptr_copy_def)

declare decode_bytes_in_place_loop.simps [simp del]

definition decode_bytes_in_place :: "bytes \<Rightarrow> bool \<Rightarrow> bytes \<times> (codec_error, unit) result" where
  "decode_bytes_in_place data desc = decode_bytes_in_place_loop data desc 0 0"

text \<open>
  The chunk iterators of \<open>std\<close> that \<open>is_encoded_from\<close> walks: \<open>chunks_exact\<close> from the
  front with the remainder at the end, \<open>rchunks_exact\<close> from the end with the remainder in front.
\<close>

definition chunks_exact :: "nat \<Rightarrow> 'a list \<Rightarrow> 'a list list" where
  "chunks_exact n xs = map (\<lambda>i. slice_of xs (i * n) (i * n + n)) [0..<length xs div n]"

definition chunks_remainder :: "nat \<Rightarrow> 'a list \<Rightarrow> 'a list" where
  "chunks_remainder n xs = drop (length xs div n * n) xs"

definition rchunks_exact :: "nat \<Rightarrow> 'a list \<Rightarrow> 'a list list" where
  "rchunks_exact n xs = rev (chunks_exact n (drop (length xs mod n) xs))"

definition rchunks_remainder :: "nat \<Rightarrow> 'a list \<Rightarrow> 'a list" where
  "rchunks_remainder n xs = take (length xs mod n) xs"

definition check_single_Soliton :: "bool \<Rightarrow> bytes \<Rightarrow> bytes \<Rightarrow> bool" where
  "check_single_Soliton desc encoded raw =
    (let len = length raw; pad = of_nat (ENC_GROUP_SIZE - len) in
     if desc then
       encoded ! ENC_GROUP_SIZE = NOT (ENC_MARKER - pad)
       \<and> list_all (\<lambda>(enc, raw). enc = NOT raw) (zip (take len encoded) raw)
       \<and> list_all (\<lambda>v. v = ENC_MARKER) (slice_of encoded len (length encoded - 1))
     else
       encoded ! ENC_GROUP_SIZE = ENC_MARKER - pad
       \<and> take len encoded = raw
       \<and> list_all (\<lambda>v. v = NOT ENC_MARKER) (slice_of encoded len (length encoded - 1)))"

definition is_encoded_from :: "bytes \<Rightarrow> bytes \<Rightarrow> bool \<Rightarrow> bool" where
  "is_encoded_from encoded raw desc =
    (if rchunks_remainder (ENC_GROUP_SIZE + 1) encoded \<noteq> [] then False
     else let raw_Solitons = chunks_exact ENC_GROUP_SIZE raw in
       case rchunks_exact (ENC_GROUP_SIZE + 1) encoded of
         [] \<Rightarrow> False
       | encoded_Soliton # rev_encoded_Solitons \<Rightarrow>
           if check_single_Soliton desc encoded_Soliton (chunks_remainder ENC_GROUP_SIZE raw) then
             if length rev_encoded_Solitons \<noteq> length raw_Solitons then False
             else list_all (\<lambda>(e, r). check_single_Soliton desc e r)
               (zip rev_encoded_Solitons (rev raw_Solitons))
           else False)"

subsection \<open>The compact encoding\<close>

definition encode_compact_bytes :: "byteorder_api \<Rightarrow> bytes \<Rightarrow> bytes \<Rightarrow> bytes" where
  "encode_compact_bytes bo self data = encode_var_i64 bo self (of_nat (length data)) @ data"

text \<open>
  \<open>vn as usize\<close> reads the 64 bits of the decoded \<open>i64\<close> as unsigned; the sum is taken at
  the width of \<open>usize\<close>, as the release profile does.
\<close>

definition encoded_compact_len :: "bytes \<Rightarrow> nat" where
  "encoded_compact_len encoded =
    (case decode_var_i64 encoded of
       Ok (vn, rest) \<Rightarrow> unat (vn + of_nat (length encoded - length rest) :: u64)
     | _ \<Rightarrow> length encoded)"

definition decode_compact_bytes :: "bytes \<Rightarrow> (codec_error, bytes \<times> bytes) result" where
  "decode_compact_bytes data =
    bind_result (decode_var_i64 data) (\<lambda>(v, data). let vn = unat v in
      if length data \<ge> vn then Ok (slice_of data 0 vn, drop vn data) else Err unexpected_eof)"

text \<open>
  The file variant reads the length byte by byte. \<open>vec![0; vn]\<close> panics (capacity overflow) when
  \<open>vn\<close> exceeds \<open>isize::MAX\<close>; \<open>read_exact\<close> fails when the reader has fewer bytes.
\<close>

function read_var_bytes :: "byteorder_api \<Rightarrow> bytes \<Rightarrow> bytes \<Rightarrow> (codec_error, bytes \<times> bytes) result" where
  "read_var_bytes bo self var_data =
    (if length var_data < MAX_VAR_U64_LEN then
       bind_result (result_map_err Io (bo_read_u8 bo self)) (\<lambda>(b, self).
         let var_data' = var_data @ [b] in
         if b < 0x80 then Ok (var_data', self) else read_var_bytes bo self var_data')
     else Ok (var_data, self))"
  by pat_completeness auto
termination
  by (relation "measure (\<lambda>(bo, self, var_data). MAX_VAR_U64_LEN - length var_data)") auto

declare read_var_bytes.simps [simp del]

definition decode_compact_bytes_from_file :: "byteorder_api \<Rightarrow> bytes \<Rightarrow> (codec_error, bytes \<times> bytes) result" where
  "decode_compact_bytes_from_file bo self =
    bind_result (read_var_bytes bo self []) (\<lambda>(var_data, self).
    bind_result (decode_var_i64 var_data) (\<lambda>(v, _). let vn = unat v in
      if vn \<ge> 2 ^ 63 then Panic
      else if length self \<ge> vn then Ok (take vn self, drop vn self)
      else Err (Io UnexpectedEof)))"

section \<open>Reference encoding\<close>

text \<open>
  The format: groups of eight key bytes, each followed by the byte \<open>0xff\<close>, and a last group of
  fewer than eight bytes filled up with zeros whose marker is \<open>0xff\<close> less the number of filler
  bytes. The descending encoding complements every byte.
\<close>

definition mc_group :: "bytes \<Rightarrow> bytes" where
  "mc_group key = take 8 key @ replicate (8 - length key) 0 @ [0xff - of_nat (8 - length key)]"

function mc_encode :: "bytes \<Rightarrow> bytes" where
  "mc_encode key = mc_group key @ (if 8 \<le> length key then mc_encode (drop 8 key) else [])"
  by pat_completeness auto
termination by (relation "measure length") auto

declare mc_encode.simps [simp del]

definition order_bytes :: "bool \<Rightarrow> bytes \<Rightarrow> bytes" where
  "order_bytes desc bs = (if desc then map (\<lambda>b. NOT b) bs else bs)"

lemma order_bytes_simps [simp]:
  "order_bytes desc [] = []"
  "order_bytes desc (xs @ ys) = order_bytes desc xs @ order_bytes desc ys"
  "order_bytes desc (order_bytes desc xs) = xs"
  "length (order_bytes desc xs) = length xs"
  by (auto simp: order_bytes_def comp_def)

lemma order_bytes_take: "take n (order_bytes desc xs) = order_bytes desc (take n xs)"
  by (simp add: order_bytes_def take_map)

lemma order_bytes_drop: "drop n (order_bytes desc xs) = order_bytes desc (drop n xs)"
  by (simp add: order_bytes_def drop_map)

lemma order_bytes_eq_iff [simp]: "order_bytes desc xs = order_bytes desc ys \<longleftrightarrow> xs = ys"
  by (metis order_bytes_simps(3))

lemma adjust_bytes_order_eq: "adjust_bytes_order bs desc = order_bytes desc bs"
  by (simp add: adjust_bytes_order_def order_bytes_def)

lemma length_mc_group [simp]: "length (mc_group key) = 9"
  by (simp add: mc_group_def)

lemma order_mc_group:
  "order_bytes desc (mc_group key) = adjust_bytes_order (take 8 key) desc @
    (if desc then take (8 - length key) ENC_DESC_PADDING else take (8 - length key) ENC_ASC_PADDING) @
    adjust_bytes_order [ENC_MARKER - of_nat (8 - length key)] desc"
  by (auto simp: mc_group_def adjust_bytes_order_eq order_bytes_def)

lemma encode_bytes_loop_step:
  "index \<le> length key \<Longrightarrow> encode_bytes_loop self key desc index =
    encode_bytes_loop (self @ order_bytes desc (mc_group (drop index key))) key desc (index + 8)"
  by (subst encode_bytes_loop.simps) (auto simp: Let_def order_mc_group slice_of_def)

lemma encode_bytes_loop_eq:
  "encode_bytes_loop self key desc index =
    (if index \<le> length key then self @ order_bytes desc (mc_encode (drop index key)) else self)"
proof (induction "Suc (length key) - index" arbitrary: self index rule: less_induct)
  case less
  show ?case
  proof (cases "index \<le> length key")
    case True
    then have "encode_bytes_loop self key desc index =
        (if index + 8 \<le> length key
         then (self @ order_bytes desc (mc_group (drop index key))) @ order_bytes desc (mc_encode (drop (index + 8) key))
         else self @ order_bytes desc (mc_group (drop index key)))"
      using less.hyps [of "index + 8" "self @ order_bytes desc (mc_group (drop index key))"]
      by (subst encode_bytes_loop_step) auto
    then show ?thesis
      using True by (subst mc_encode.simps) (auto simp: add.commute)
  qed (simp add: encode_bytes_loop.simps)
qed

lemma encode_bytes_to_eq: "encode_bytes_to self key desc = self @ order_bytes desc (mc_encode key)"
  by (simp add: encode_bytes_to_def encode_bytes_loop_eq)

lemma encode_order_bytes_eq: "encode_order_bytes key desc = order_bytes desc (mc_encode key)"
  by (simp add: encode_order_bytes_def encode_bytes_to_eq)

lemma length_mc_encode: "length (mc_encode key) = max_encoded_bytes_size (length key)"
proof (induction key rule: mc_encode.induct)
  case (1 key)
  then show ?case
    by (subst mc_encode.simps) (auto simp: max_encoded_bytes_size_def le_div_geq)
qed

subsection \<open>The order of encodings\<close>

definition pad_to :: "nat \<Rightarrow> bytes \<Rightarrow> bytes" where
  "pad_to n xs = xs @ replicate (n - length xs) 0"

lemma pad_to_simps:
  "pad_to (Suc n) [] = 0 # pad_to n []"
  "pad_to (Suc n) (x # xs) = x # pad_to n xs"
  by (simp_all add: pad_to_def)

lemma pad_to_order:
  "length a \<le> n \<Longrightarrow> length b \<le> n \<Longrightarrow>
    (pad_to n a < pad_to n b \<or> (pad_to n a = pad_to n b \<and> length a < length b)) = (a < b)"
proof (induction n arbitrary: a b)
  case 0
  then show ?case by simp
next
  case (Suc n)
  have z: "0 < y \<or> y = 0" for y :: byte by (simp add: word_gt_0)
  show ?case
  proof (cases a)
    case Nil
    show ?thesis
    proof (cases b)
      case (Cons y ys)
      then have *: "(pad_to n [] < pad_to n ys \<or> (pad_to n [] = pad_to n ys \<and> 0 < length ys)) = ([] < ys)"
        using Suc.IH [of "[]" ys] Suc.prems by simp
      show ?thesis using Nil Cons z [of y] * by (cases ys) (auto simp: pad_to_simps)
    qed (simp add: Nil)
  next
    case (Cons x xs)
    note a = Cons
    show ?thesis
    proof (cases b)
      case Nil
      have "(pad_to n xs < pad_to n [] \<or> (pad_to n xs = pad_to n [] \<and> length xs < 0)) = (xs < [])"
        using Suc.IH [of xs "[]"] Suc.prems a by simp
      then show ?thesis using Nil a by (auto simp: pad_to_simps)
    next
      case (Cons y ys)
      then show ?thesis using Suc.IH [of xs ys] Suc.prems a by (auto simp: pad_to_simps)
    qed
  qed
qed

lemma mc_group_pad: "mc_group key = pad_to 8 (take 8 key) @ [0xf7 + of_nat (min 8 (length key))]"
proof -
  have "(0xff :: byte) - of_nat (8 - length key) = 0xf7 + of_nat (min 8 (length key))"
    by (cases "8 \<le> length key") (auto simp: min_def)
  moreover have "8 - min 8 (length key) = 8 - length key" by simp
  ultimately show ?thesis by (simp add: mc_group_def pad_to_def min.commute)
qed

lemma marker_less: "i \<le> 8 \<Longrightarrow> j \<le> 8 \<Longrightarrow> ((0xf7 + of_nat i :: byte) < 0xf7 + of_nat j) = (i < j)"
  by (simp add: word_less_nat_alt unat_word_ariths unat_of_nat)

lemma mc_group_less: "mc_group a < mc_group b \<longleftrightarrow> take 8 a < take 8 b"
  unfolding mc_group_pad
  using pad_to_order [of "take 8 a" 8 "take 8 b"]
  by (subst lex_append_equal_length) (auto simp: pad_to_def marker_less)

lemma mc_group_eq: "mc_group a = mc_group b \<longleftrightarrow> take 8 a = take 8 b"
proof
  assume "mc_group a = mc_group b"
  then have "\<not> mc_group a < mc_group b" "\<not> mc_group b < mc_group a" by simp_all
  then show "take 8 a = take 8 b" unfolding mc_group_less by auto
next
  assume "take 8 a = take 8 b"
  moreover from this have "min 8 (length a) = min 8 (length b)" by (metis length_take min.commute)
  ultimately show "mc_group a = mc_group b" by (simp only: mc_group_pad)
qed

lemma take_drop_less:
  fixes a b :: "'a::linorder list"
  shows "a < b \<longleftrightarrow> take n a < take n b \<or> (take n a = take n b \<and> drop n a < drop n b)"
proof (induction n arbitrary: a b)
  case (Suc n)
  show ?case
  proof (cases "a = [] \<or> b = []")
    case False
    then obtain x xs y ys where "a = x # xs" "b = y # ys" by (meson list.exhaust)
    then show ?thesis using Suc.IH [of xs ys] by auto
  qed (cases a; cases b; auto)
qed simp

lemma mc_encode_order:
  "mc_encode a @ s < mc_encode b @ t \<longleftrightarrow> a < b \<or> (a = b \<and> s < t)"
proof (induction a arbitrary: b rule: mc_encode.induct)
  case (1 a)
  have *: "mc_encode a @ s < mc_encode b @ t \<longleftrightarrow> take 8 a < take 8 b \<or> (take 8 a = take 8 b \<and>
     (if 8 \<le> length a then mc_encode (drop 8 a) else []) @ s < (if 8 \<le> length b then mc_encode (drop 8 b) else []) @ t)"
    by (subst (1 2) mc_encode.simps)
       (simp only: append_assoc lex_append_equal_length length_mc_group mc_group_less mc_group_eq)
  show ?case
  proof (cases "take 8 a = take 8 b")
    case True
    then have len: "8 \<le> length a \<longleftrightarrow> 8 \<le> length b" by (metis length_take min.absorb_iff2)
    show ?thesis
    proof (cases "8 \<le> length a")
      case l: True
      have "a = b \<longleftrightarrow> drop 8 a = drop 8 b" using True by (metis append_take_drop_id)
      then show ?thesis using * True l len "1.IH" [OF l, of "drop 8 b"] take_drop_less [of a b 8] by auto
    next
      case False
      then have "a = b" using True len by simp
      then show ?thesis using * False by simp
    qed
  next
    case False
    then show ?thesis using * take_drop_less [of a b 8] by auto
  qed
qed


lemma mc_encode_not_prefix_split:
  assumes "a < b"
  obtains p c d x y where "mc_encode a = p @ c # x" "mc_encode b = p @ d # y" "c < d"
proof -
  have *: "\<exists>p c d xs' ys'. xs = p @ c # xs' \<and> ys = p @ d # ys' \<and> c < d"
    if "\<And>s t. xs @ s < ys @ t" for xs ys :: bytes
    using that
  proof (induction xs arbitrary: ys)
    case Nil
    from Nil [of "ys" "[]"] show ?case by simp
  next
    case (Cons x xs)
    show ?case
    proof (cases ys)
      case Nil
      then show ?thesis using Cons.prems [of "[]" "[]"] by simp
    next
      case (Cons y ys')
      show ?thesis
      proof (cases "x = y")
        case True
        then have "xs @ s < ys' @ t" for s t using Cons.prems [of s t] Cons by simp
        from Cons.IH [OF this] show ?thesis using True Cons by (metis append_Cons)
      next
        case False
        then have "x < y" using Cons.prems [of "[]" "[]"] Cons by auto
        then show ?thesis using Cons by (metis append_Nil)
      qed
    qed
  qed
  have "mc_encode a @ s < mc_encode b @ t" for s t
    using assms by (simp add: mc_encode_order)
  from * [OF this] show thesis using that by blast
qed

lemma mc_encode_order_desc:
  "map (\<lambda>b. NOT b) (mc_encode a) @ s < map (\<lambda>b. NOT b) (mc_encode b) @ t \<longleftrightarrow> b < a \<or> (a = b \<and> s < t)"
proof -
  have *: "map (\<lambda>b. NOT b) (mc_encode b) @ t < map (\<lambda>b. NOT b) (mc_encode a) @ s" if "a < b" for a b s t
    by (rule mc_encode_not_prefix_split [OF that]) (simp add: lex_simps)
  show ?thesis
    using * [of a b t s] * [of b a s t] by (cases a b rule: linorder_cases) (auto simp: lex_simps dest: less_asym)
qed

lemma order_mc_encode_order:
  "order_bytes desc (mc_encode a) @ s < order_bytes desc (mc_encode b) @ t \<longleftrightarrow>
    (if desc then b < a else a < b) \<or> (a = b \<and> s < t)"
  by (simp add: order_bytes_def mc_encode_order mc_encode_order_desc)

section \<open>Decoding\<close>

function mc_decode :: "bytes \<Rightarrow> (codec_error, bytes \<times> bytes) result" where
  "mc_decode d = (if length d < 9 then Err unexpected_eof
    else let pad = unat (0xff - d ! 8) in
      if pad = 0 then result_map (\<lambda>(k, r). (take 8 d @ k, r)) (mc_decode (drop 9 d))
      else if pad > 8 then Err KeyPadding
      else if drop (8 - pad) (take 8 d) = replicate pad 0 then Ok (take (8 - pad) d, drop 9 d)
      else Err KeyPadding)"
  by pat_completeness auto
termination by (relation "measure length") auto

declare mc_decode.simps [simp del]

definition pad_of :: "bool \<Rightarrow> byte \<Rightarrow> nat" where
  "pad_of desc marker = (if desc then unat marker else unat (0xff - marker))"

lemma ff_minus: "(0xff :: byte) - m = NOT m"
proof -
  have "(0xff :: byte) = - 1" by simp
  then show ?thesis by (simp only: not_eq_complement) simp
qed

lemma pad_of_order: "pad_of desc m = unat (0xff - (if desc then NOT m else m))"
  by (simp add: pad_of_def ff_minus)

lemma nth_order_bytes: "i < length xs \<Longrightarrow> order_bytes desc xs ! i = (if desc then NOT (xs ! i) else xs ! i)"
  by (simp add: order_bytes_def)

lemma order_bytes_replicate: "order_bytes desc (replicate n 0) = replicate n (if desc then NOT 0 else 0)"
  by (simp add: order_bytes_def)

lemma list_ex_neq_replicate: "list_ex (\<lambda>x. x \<noteq> c) xs \<longleftrightarrow> xs \<noteq> replicate (length xs) c"
  by (induction xs) auto

lemma order_eq_replicate:
  "order_bytes desc xs = replicate n 0 \<longleftrightarrow> xs = replicate n (if desc then NOT 0 else 0)"
  by (metis order_bytes_replicate order_bytes_simps(3))

lemma slice_group:
  assumes "offset + 9 \<le> length data"
  shows "last (slice_of data offset (offset + 9)) = data ! (offset + 8)"
    "butlast (slice_of data offset (offset + 9)) = take 8 (drop offset data)"
proof -
  have "slice_of data offset (offset + 9) = take (Suc 8) (drop offset data)"
    by (simp add: slice_of_def)
  also have "\<dots> = take 8 (drop offset data) @ [data ! (offset + 8)]"
    using assms by (subst take_Suc_conv_app_nth) auto
  finally show "last (slice_of data offset (offset + 9)) = data ! (offset + 8)"
    "butlast (slice_of data offset (offset + 9)) = take 8 (drop offset data)" by simp_all
qed

lemma decode_bytes_loop_step:
  "decode_bytes_loop data desc key offset =
    (if offset + 9 \<le> length data then
       let g = take 8 (drop offset data); pad = pad_of desc (data ! (offset + 8)) in
       if pad = 0 then decode_bytes_loop data desc (key @ g) (offset + 9)
       else if pad > 8 then Err KeyPadding
       else if order_bytes desc (drop (8 - pad) g) = replicate pad 0
       then Ok (order_bytes desc (key @ take (8 - pad) g), drop (offset + 9) data)
       else Err KeyPadding
     else Err unexpected_eof)"
proof (cases "offset + 9 \<le> length data")
  case True
  let ?g = "take 8 (drop offset data)" and ?p = "pad_of desc (data ! (offset + 8))"
  have 9: "offset + (ENC_GROUP_SIZE + 1) = offset + 9" by simp
  have ex: "list_ex (\<lambda>x. x \<noteq> (if desc then NOT 0 else 0)) (drop (8 - ?p) ?g) \<longleftrightarrow>
      order_bytes desc (drop (8 - ?p) ?g) \<noteq> replicate ?p 0" if "?p \<le> 8"
  proof -
    have "length (drop (8 - ?p) ?g) = ?p" using that True by simp
    then show ?thesis by (simp only: list_ex_neq_replicate order_eq_replicate)
  qed
  show ?thesis
    unfolding decode_bytes_loop.simps [of data desc key offset] Let_def 9
    unfolding slice_group [OF True] ENC_MARKER_def ENC_GROUP_SIZE_def
    unfolding pad_of_def [symmetric] order_bytes_def [symmetric]
    using True ex by (cases "?p \<le> 8") (simp_all only: if_True linorder_not_less [symmetric] simp_thms if_False split: if_split, blast)
qed (simp add: decode_bytes_loop.simps)

lemma decode_bytes_loop_eq:
  "decode_bytes_loop data desc key offset =
    result_map (\<lambda>(k, r). (order_bytes desc key @ k, order_bytes desc r))
      (mc_decode (order_bytes desc (drop offset data)))"
proof (induction "length data - offset" arbitrary: key offset rule: less_induct)
  case less
  show ?case
  proof (cases "offset + 9 \<le> length data")
    case True
    define d where "d = order_bytes desc (drop offset data)"
    have d8: "unat (0xff - d ! 8) = pad_of desc (data ! (offset + 8))"
      using True by (simp add: d_def nth_order_bytes pad_of_order)
    have len: "\<not> length d < 9" using True by (simp add: d_def)
    have dd: "drop 9 d = order_bytes desc (drop (offset + 9) data)"
      by (simp add: d_def order_bytes_drop add.commute)
    have IH: "decode_bytes_loop data desc (key @ take 8 (drop offset data)) (offset + 9) =
        result_map (\<lambda>(k, r). (order_bytes desc key @ take 8 d @ k, order_bytes desc r)) (mc_decode (drop 9 d))"
      using less.hyps [of "offset + 9" "key @ take 8 (drop offset data)"] True
      unfolding dd by (simp add: d_def order_bytes_take)
    let ?pad = "pad_of desc (data ! (offset + 8))"
    have tk: "order_bytes desc (take n (take 8 (drop offset data))) = take n (take 8 d)"
      "order_bytes desc (drop n (take 8 (drop offset data))) = drop n (take 8 d)" for n
      by (simp_all add: d_def order_bytes_take order_bytes_drop)
    have step: "decode_bytes_loop data desc key offset =
        (if ?pad = 0 then decode_bytes_loop data desc (key @ take 8 (drop offset data)) (offset + 9)
         else if ?pad > 8 then Err KeyPadding
         else if drop (8 - ?pad) (take 8 d) = replicate ?pad 0
         then Ok (order_bytes desc key @ take (8 - ?pad) d, order_bytes desc (drop 9 d))
         else Err KeyPadding)"
      using True
      by (subst decode_bytes_loop_step) (auto simp: Let_def tk dd take_take [of _ 8 d] min_def simp del: take_take drop_take)
    show ?thesis
      unfolding d_def [symmetric] step IH mc_decode.simps [of d] d8 Let_def
      using len by (cases "mc_decode (drop 9 d)") (simp_all add: case_prod_beta)
  next
    case False
    then have "length (order_bytes desc (drop offset data)) < 9" by simp
    with False show ?thesis
      unfolding mc_decode.simps [of "order_bytes desc (drop offset data)"]
      by (subst decode_bytes_loop_step) simp
  qed
qed

lemma decode_bytes_eq:
  "decode_bytes data desc = result_map (\<lambda>(k, r). (k, order_bytes desc r)) (mc_decode (order_bytes desc data))"
  by (simp add: decode_bytes_def decode_bytes_loop_eq)

lemma pad_of_marker: "n \<le> 8 \<Longrightarrow> unat (0xff - (0xff - of_nat n :: byte)) = n"
  by (simp add: unat_of_nat)

lemma mc_decode_encode: "mc_decode (mc_encode key @ rest) = Ok (key, rest)"
proof (induction key rule: mc_encode.induct)
  case (1 key)
  let ?t = "(if 8 \<le> length key then mc_encode (drop 8 key) else []) @ rest"
  have e: "mc_encode key @ rest = mc_group key @ ?t" by (subst mc_encode.simps) simp
  have m: "unat (0xff - (mc_group key @ ?t) ! 8) = 8 - length key"
    using pad_of_marker [of "8 - length key"]
    by (simp add: mc_group_def nth_append min_def del: of_nat_diff of_nat_diff_if)
  have g: "take 8 (mc_group key @ ?t) = take 8 key @ replicate (8 - length key) 0"
    by (simp add: mc_group_def)
  show ?case
  proof (cases "8 \<le> length key")
    case True
    then show ?thesis unfolding e using m g "1.IH" by (subst mc_decode.simps) simp
  next
    case False
    have t: "take (length key) (mc_group key @ ?t) = key" using False by (simp add: mc_group_def)
    show ?thesis unfolding e using m g False t by (subst mc_decode.simps) (auto simp: Let_def)
  qed
qed

lemma mc_decode_canonical: "mc_decode d = Ok (key, rest) \<Longrightarrow> d = mc_encode key @ rest"
proof (induction d arbitrary: key rule: mc_decode.induct)
  case (1 d)
  define pad where "pad = unat (0xff - d ! 8)"
  have len: "\<not> length d < 9" using "1.prems" by (subst (asm) mc_decode.simps) (auto split: if_splits)
  have mk: "d ! 8 = 0xff - of_nat pad" by (simp add: pad_def)
  have split: "d = take 8 d @ d ! 8 # drop 9 d"
    using len id_take_nth_drop [of 8 d] by simp
  show ?case
  proof (cases "pad = 0")
    case True
    then obtain k where k: "mc_decode (drop 9 d) = Ok (k, rest)" "key = take 8 d @ k"
      using "1.prems" len by (subst (asm) mc_decode.simps) (auto simp: Let_def pad_def result_map_Ok_iff)
    have "drop 9 d = mc_encode k @ rest"
      using "1.IH" [OF len refl True [unfolded pad_def] k(1)] .
    then show ?thesis
      using split mk len k(2) True by (subst mc_encode.simps) (simp add: mc_group_def)
  next
    case False
    then have p: "pad \<le> 8" "drop (8 - pad) (take 8 d) = replicate pad 0" "key = take (8 - pad) d" "rest = drop 9 d"
      using "1.prems" len by (subst (asm) mc_decode.simps; auto simp: Let_def pad_def [symmetric] split: if_splits)+
    have "take 8 d = key @ replicate pad 0"
      using p append_take_drop_id [of "8 - pad" "take 8 d"] by (simp add: min_def)
    moreover have "length key = 8 - pad" using p len by simp
    ultimately show ?thesis
      using split mk p False by (subst mc_encode.simps) (auto simp: mc_group_def)
  qed
qed

subsection \<open>Decoding in place\<close>

lemma ptr_copy_facts:
  assumes "w \<le> r" "r + 8 < length data"
  shows "length (ptr_copy data r w 8) = length data"
    "ptr_copy data r w 8 ! (r + 8) = data ! (r + 8)"
    "take (w + 8) (ptr_copy data r w 8) = take w data @ take 8 (drop r data)"
    "drop (r + 9) (ptr_copy data r w 8) = drop (r + 9) data"
  using assms by (auto simp: ptr_copy_def slice_of_def nth_append add.commute min_def)

lemma mc_decode_outcome: "mc_decode d \<noteq> Panic \<and> mc_decode d \<noteq> Undef"
proof (induction d rule: mc_decode.induct)
  case (1 d)
  then show ?case
    by (subst (1 2) mc_decode.simps) (cases "mc_decode (drop 9 d)"; auto simp: Let_def)
qed

lemma decode_in_place_step:
  assumes "w \<le> r" "r + 8 < length data"
  shows "decode_bytes_in_place_loop data desc w r =
    (let data' = ptr_copy data r w 8; g = take 8 (drop r data); pad = pad_of desc (data ! (r + 8)) in
     if pad > 0 then
       if pad > 8 then (data', Err KeyPadding)
       else if order_bytes desc (drop (8 - pad) g) \<noteq> replicate pad 0 then (data', Err KeyPadding)
       else (order_bytes desc (take w data @ take (8 - pad) g), Ok ())
     else decode_bytes_in_place_loop data' desc (w + 8) (r + 9))"
proof -
  let ?p = "pad_of desc (data ! (r + 8))" and ?d = "ptr_copy data r w 8"
  have facts: "length ?d = length data" "?d ! (r + 8) = data ! (r + 8)"
    "take (w + 8) ?d = take w data @ take 8 (drop r data)"
    using ptr_copy_facts [OF assms] by simp_all
  have sl: "slice_of ?d (w + 8 - ?p) (w + 8) = drop (8 - ?p) (take 8 (drop r data))" if "?p \<le> 8"
  proof -
    have "slice_of ?d (w + 8 - ?p) (w + 8) = drop (w + 8 - ?p) (take (w + 8) ?d)"
      by (simp add: slice_of_def drop_take)
    also have "\<dots> = drop (8 - ?p) (take 8 (drop r data))"
      using that assms by (simp add: facts min_def)
    finally show ?thesis .
  qed
  have tk: "take (w + 8 - ?p) ?d = take w data @ take (8 - ?p) (take 8 (drop r data))" if "?p \<le> 8"
  proof -
    have "take (w + 8 - ?p) ?d = take (w + (8 - ?p)) (take (w + 8) ?d)" using that by simp
    also have "\<dots> = take w data @ take (8 - ?p) (take 8 (drop r data))"
      using assms unfolding facts by simp
    finally show ?thesis .
  qed
  have pad: "(if desc then take ?p ENC_DESC_PADDING else take ?p ENC_ASC_PADDING) =
      replicate ?p (if desc then NOT 0 else 0)" if "?p \<le> 8"
    using that by (cases desc) (simp_all add: min_def)
  have 9: "r + (8 + 1) = r + 9" by simp
  have g: "\<not> r + 8 \<ge> length data" "\<not> w + 8 > length data" using assms by simp_all
  show ?thesis
    unfolding decode_bytes_in_place_loop.simps [of data desc w r] Let_def ENC_GROUP_SIZE_def 9
    unfolding facts ENC_MARKER_def
    unfolding pad_of_def [symmetric] order_bytes_def [symmetric]
    using g sl tk pad order_eq_replicate [of desc "drop (8 - ?p) (take 8 (drop r data))" ?p]
    by (cases "?p \<le> 8") (simp_all only: if_False linorder_not_less [symmetric] simp_thms split: if_split, blast)
qed

lemma decode_in_place_loop_eq:
  assumes "w \<le> r"
  shows "snd (decode_bytes_in_place_loop data desc w r) =
      result_map (\<lambda>_. ()) (mc_decode (order_bytes desc (drop r data)))
    \<and> (\<forall>k s. mc_decode (order_bytes desc (drop r data)) = Ok (k, s) \<longrightarrow>
      fst (decode_bytes_in_place_loop data desc w r) = order_bytes desc (take w data) @ k)"
  using assms
proof (induction "length data - r" arbitrary: data w r rule: less_induct)
  case less
  show ?case
  proof (cases "r + 8 < length data")
    case True
    define d where "d = order_bytes desc (drop r data)"
    let ?p = "pad_of desc (data ! (r + 8))" and ?d = "ptr_copy data r w 8"
    note facts = ptr_copy_facts [OF less.prems True]
    have d8: "unat (0xff - d ! 8) = ?p"
      using True by (simp add: d_def nth_order_bytes pad_of_order)
    have len: "\<not> length d < 9" using True by (simp add: d_def)
    have dd: "drop 9 d = order_bytes desc (drop (r + 9) ?d)"
      unfolding facts by (simp add: d_def order_bytes_drop add.commute)
    have tk: "order_bytes desc (take n (take 8 (drop r data))) = take n (take 8 d)"
      "order_bytes desc (drop n (take 8 (drop r data))) = drop n (take 8 d)" for n
      by (simp_all add: d_def order_bytes_take order_bytes_drop)
    have IH: "snd (decode_bytes_in_place_loop ?d desc (w + 8) (r + 9)) = result_map (\<lambda>_. ()) (mc_decode (drop 9 d))
      \<and> (\<forall>k s. mc_decode (drop 9 d) = Ok (k, s) \<longrightarrow>
        fst (decode_bytes_in_place_loop ?d desc (w + 8) (r + 9)) = order_bytes desc (take w data) @ take 8 d @ k)"
      using less.hyps [of ?d "r + 9" "w + 8"] less.prems True facts unfolding dd
      by (simp add: d_def order_bytes_take)
    have t8: "take (8 - ?p) (take 8 d) = take (8 - ?p) d" by (simp add: min_def)
    show ?thesis
      unfolding d_def [symmetric] decode_in_place_step [OF less.prems True] mc_decode.simps [of d]
        Let_def tk order_bytes_simps t8 d8
      using len IH
      by (cases "mc_decode (drop 9 d)") (simp_all only: if_False split: if_split, auto simp: result_map_Ok_iff)
  next
    case False
    then have "length (order_bytes desc (drop r data)) < 9" by simp
    with False show ?thesis
      unfolding mc_decode.simps [of "order_bytes desc (drop r data)"]
      by (subst (1 2) decode_bytes_in_place_loop.simps) simp
  qed
qed

subsection \<open>Length of the first encoding\<close>

lemma encoded_bytes_len_loop_step:
  assumes "idx < length enc" "enc ! idx = (if desc then NOT m else m)"
  shows "encoded_bytes_len_loop enc desc idx =
    (if m = 0xff then encoded_bytes_len_loop enc desc (idx + 9) else idx + 1)"
proof -
  have "NOT m = 0 \<longleftrightarrow> m = 0xff" by (metis ff_minus right_minus_eq)
  then show ?thesis using assms by (subst encoded_bytes_len_loop.simps) (simp add: Let_def)
qed

lemma encoded_bytes_len_loop_eq:
  "encoded_bytes_len_loop (p @ order_bytes desc (mc_encode key) @ s) desc (length p + 8) =
    length p + length (mc_encode key)"
proof (induction key arbitrary: p rule: mc_encode.induct)
  case (1 key)
  let ?t = "if 8 \<le> length key then mc_encode (drop 8 key) else []"
  let ?e = "p @ order_bytes desc (mc_group key) @ order_bytes desc ?t @ s"
  have e: "p @ order_bytes desc (mc_encode key) @ s = ?e"
    by (subst mc_encode.simps) simp
  have "?e ! (length p + 8) = order_bytes desc (mc_group key) ! 8"
    by (simp add: nth_append)
  also have "\<dots> = (if desc then NOT (0xff - of_nat (8 - length key)) else 0xff - of_nat (8 - length key))"
    by (simp add: nth_order_bytes mc_group_def nth_append min_def del: of_nat_diff of_nat_diff_if)
  finally have m: "?e ! (length p + 8) = \<dots>" .
  have z: "of_nat (8 - length key) = (0 :: byte) \<longleftrightarrow> 8 \<le> length key"
    by (subst word_unat_eq_iff) (simp add: unat_of_nat)
  have step: "encoded_bytes_len_loop ?e desc (length p + 8) =
      (if 8 \<le> length key then encoded_bytes_len_loop ?e desc (length p + 8 + 9) else length p + 8 + 1)"
    using encoded_bytes_len_loop_step [of "length p + 8" ?e, OF _ m] z
    by (simp del: of_nat_diff of_nat_diff_if)
  show ?case
  proof (cases "8 \<le> length key")
    case True
    show ?thesis
      using "1.IH" [OF True, of "p @ order_bytes desc (mc_group key)"] True
      unfolding e step by (subst mc_encode.simps) (simp add: add.commute)
  next
    case False
    then show ?thesis unfolding e step by (subst mc_encode.simps) simp
  qed
qed

lemma encoded_bytes_len_eq:
  "encoded_bytes_len (order_bytes desc (mc_encode key) @ s) desc = length (mc_encode key)"
  using encoded_bytes_len_loop_eq [of "[]"] by (simp add: encoded_bytes_len_def)

subsection \<open>Comparison with a raw key\<close>

lemma chunks_exact_rec:
  assumes "0 < n"
  shows "chunks_exact n xs = (if length xs < n then [] else take n xs # chunks_exact n (drop n xs))"
    "chunks_remainder n xs = (if length xs < n then xs else chunks_remainder n (drop n xs))"
proof -
  have "chunks_exact n xs = take n xs # chunks_exact n (drop n xs)" if "n \<le> length xs"
  proof -
    have "[0..<length xs div n] = 0 # map Suc [0..<(length xs - n) div n]"
      using that assms by (simp add: le_div_geq map_Suc_upt upt_conv_Cons)
    then show ?thesis by (simp add: chunks_exact_def slice_of_def comp_def add.commute)
  qed
  then show "chunks_exact n xs = (if length xs < n then [] else take n xs # chunks_exact n (drop n xs))"
    by (simp add: chunks_exact_def)
  show "chunks_remainder n xs = (if length xs < n then xs else chunks_remainder n (drop n xs))"
    using assms by (simp add: chunks_remainder_def le_div_geq add.commute)
qed

lemma chunks_exact_concat:
  assumes "0 < n" "\<And>g. g \<in> set gs \<Longrightarrow> length g = n"
  shows "chunks_exact n (concat gs) = gs"
  using assms(2)
proof (induction gs)
  case Nil
  then show ?case using assms(1) by (simp add: chunks_exact_rec(1))
next
  case (Cons g gs)
  then show ?case using assms(1) by (subst chunks_exact_rec(1)) auto
qed

lemma concat_chunks_exact:
  "0 < n \<Longrightarrow> length xs mod n = 0 \<Longrightarrow> concat (chunks_exact n xs) = xs"
proof (induction "length xs" arbitrary: xs rule: less_induct)
  case less
  show ?case
  proof (cases "length xs < n")
    case True
    then show ?thesis using less.prems by (simp add: chunks_exact_rec(1))
  next
    case False
    then have "concat (chunks_exact n (drop n xs)) = drop n xs"
      using less by (auto simp: le_mod_geq)
    then show ?thesis using False less.prems by (subst chunks_exact_rec(1)) simp_all
  qed
qed

lemma length_chunks_exact:
  assumes "c \<in> set (chunks_exact n xs)"
  shows "length c = n"
proof -
  obtain i where i: "i < length xs div n" "c = slice_of xs (i * n) (i * n + n)"
    using assms by (auto simp: chunks_exact_def)
  have "Suc i * n \<le> length xs div n * n" using i(1) by (intro mult_right_mono) auto
  also have "\<dots> \<le> length xs" by simp
  finally show ?thesis using i(2) by simp
qed

lemma length_chunks_remainder: "length (chunks_remainder n xs) = length xs mod n"
  by (simp add: chunks_remainder_def minus_div_mult_eq_mod)

lemma mc_encode_chunks:
  "mc_encode raw = concat (map mc_group (chunks_exact 8 raw)) @ mc_group (chunks_remainder 8 raw)"
proof (induction raw rule: mc_encode.induct)
  case (1 raw)
  show ?case
  proof (cases "8 \<le> length raw")
    case True
    have "mc_group (take 8 raw) = mc_group raw" using True by (simp add: mc_group_def)
    then show ?thesis
      using 1 [OF True] True by (subst mc_encode.simps) (simp add: chunks_exact_rec [of 8 raw])
  next
    case False
    then show ?thesis by (subst mc_encode.simps) (simp add: chunks_exact_rec [of 8 raw])
  qed
qed

lemma list_all_replicate: "list_all (\<lambda>v. v = c) xs \<longleftrightarrow> xs = replicate (length xs) c"
  by (induction xs) auto

lemma list_all_zip_map:
  "length xs = length ys \<Longrightarrow> list_all (\<lambda>(x, y). x = f y) (zip xs ys) \<longleftrightarrow> xs = map f ys"
  by (induction xs ys rule: list_induct2) auto

lemma check_single_Soliton_eq:
  assumes "length e = 9" "length r \<le> 8"
  shows "check_single_Soliton desc e r \<longleftrightarrow> e = order_bytes desc (mc_group r)"
proof -
  let ?a = "take (length r) e" and ?b = "slice_of e (length r) 8"
  have "e = take 8 e @ [e ! 8]"
    using assms take_Suc_conv_app_nth [of 8 e] by simp
  moreover have "take 8 e = ?a @ ?b"
    using assms take_add [of "length r" "8 - length r" e] by (simp add: slice_of_def)
  ultimately have e: "e = ?a @ ?b @ [e ! 8]" by simp
  have len: "length ?a = length r" "length ?b = 8 - length r" using assms by simp_all
  let ?m = "0xff - of_nat (8 - length r) :: byte"
  have "e = order_bytes desc (mc_group r) \<longleftrightarrow> ?a @ ?b @ [e ! 8] =
      order_bytes desc r @ order_bytes desc (replicate (8 - length r) 0) @ order_bytes desc [?m]"
    using e assms(2) by (simp add: mc_group_def)
  also have "\<dots> \<longleftrightarrow> ?a = order_bytes desc r \<and> ?b = order_bytes desc (replicate (8 - length r) 0) \<and>
      [e ! 8] = order_bytes desc [?m]"
    using len by (simp add: append_eq_append_conv)
  finally show ?thesis
    using assms len list_all_zip_map [OF len(1), of "\<lambda>b. NOT b"]
    by (auto simp: check_single_Soliton_def Let_def list_all_replicate order_bytes_def)
qed

lemma check_Solitons_eq:
  assumes "length es = length rs" "\<And>e. e \<in> set es \<Longrightarrow> length e = 9" "\<And>r. r \<in> set rs \<Longrightarrow> length r \<le> 8"
  shows "list_all (\<lambda>(e, r). check_single_Soliton desc e r) (zip es rs) \<longleftrightarrow>
    es = map (\<lambda>r. order_bytes desc (mc_group r)) rs"
  using assms
  by (induction es rs rule: list_induct2) (simp_all add: check_single_Soliton_eq)

lemma is_encoded_from_chunks:
  assumes "length encoded mod 9 = 0"
  shows "is_encoded_from encoded raw desc \<longleftrightarrow>
    chunks_exact 9 encoded = map (\<lambda>r. order_bytes desc (mc_group r)) (chunks_exact 8 raw)
      @ [order_bytes desc (mc_group (chunks_remainder 8 raw))]"
proof (cases "chunks_exact 9 encoded" rule: rev_cases)
  case Nil
  then show ?thesis using assms by (simp add: is_encoded_from_def rchunks_remainder_def rchunks_exact_def)
next
  case (snoc init c)
  have l9: "length c = 9" "\<And>e. e \<in> set (rev init) \<Longrightarrow> length e = 9"
    using length_chunks_exact [of _ 9 encoded] snoc by auto
  have r8: "length (chunks_remainder 8 raw) \<le> 8" "\<And>r. r \<in> set (rev (chunks_exact 8 raw)) \<Longrightarrow> length r \<le> 8"
    using length_chunks_exact [of _ 8 raw] by (auto simp: length_chunks_remainder)
  have "list_all (\<lambda>(e, r). check_single_Soliton desc e r) (zip (rev init) (rev (chunks_exact 8 raw))) \<longleftrightarrow>
      init = map (\<lambda>r. order_bytes desc (mc_group r)) (chunks_exact 8 raw)"
    if "length init = length (chunks_exact 8 raw)"
    using that check_Solitons_eq [of "rev init" "rev (chunks_exact 8 raw)" desc, OF _ l9(2) r8(2)]
    by (simp add: rev_map [symmetric])
  then show ?thesis
    using assms snoc r8(1) l9(1)
    by (auto simp: is_encoded_from_def rchunks_remainder_def rchunks_exact_def Let_def
        check_single_Soliton_eq)
qed

lemma is_encoded_from_eq: "is_encoded_from encoded raw desc \<longleftrightarrow> encoded = order_bytes desc (mc_encode raw)"
proof (cases "length encoded mod 9 = 0")
  case False
  have "length (mc_encode raw) mod 9 = 0"
    by (simp add: length_mc_encode max_encoded_bytes_size_def)
  then have "encoded \<noteq> order_bytes desc (mc_encode raw)" using False by (metis order_bytes_simps(4))
  moreover have "rchunks_remainder 9 encoded \<noteq> []" using False by (auto simp: rchunks_remainder_def)
  ultimately show ?thesis by (simp add: is_encoded_from_def)
next
  case True
  let ?gs = "map (\<lambda>r. order_bytes desc (mc_group r)) (chunks_exact 8 raw)
    @ [order_bytes desc (mc_group (chunks_remainder 8 raw))]"
  have "order_bytes desc (mc_encode raw) = concat ?gs"
    by (simp add: mc_encode_chunks order_bytes_def map_concat comp_def)
  moreover have "chunks_exact 9 (concat ?gs) = ?gs"
    by (rule chunks_exact_concat) auto
  moreover have "concat (chunks_exact 9 encoded) = encoded"
    using True by (simp add: concat_chunks_exact)
  ultimately have "chunks_exact 9 encoded = ?gs \<longleftrightarrow> encoded = order_bytes desc (mc_encode raw)"
    by (auto simp del: concat_append concat.simps map_append)
  then show ?thesis by (simp only: is_encoded_from_chunks [OF True])
qed

section \<open>The compact encoding\<close>

context byteorder
begin

lemma read_var_bytes_prefix:
  "w \<noteq> [] \<Longrightarrow> var_prefix w = length w - 1 \<Longrightarrow> length acc + length w \<le> 10 \<Longrightarrow>
    read_var_bytes bo (w @ rest) acc = Ok (acc @ w, rest)"
proof (induction w arbitrary: acc)
  case (Cons b w)
  have "b < 0x80 \<longleftrightarrow> w = []"
    using Cons.prems(2) by (cases w) (auto simp: var_prefix_Cons split: if_splits)
  moreover have "var_prefix w = length w - 1" if "w \<noteq> []"
    using Cons.prems(2) that by (auto simp: var_prefix_Cons split: if_splits)
  ultimately show ?case
    using Cons.prems Cons.IH [of "acc @ [b]"]
    by (subst read_var_bytes.simps) (auto simp: read_u8)
qed simp

lemma read_var_bytes_var_bytes: "read_var_bytes bo (var_bytes v @ rest) [] = Ok (var_bytes v, rest)"
  using read_var_bytes_prefix [of "var_bytes v" "[]" rest] var_prefix_var_bytes [of v "[]"]
    var_bytes_length_10 [of v] by auto

lemma encode_compact_bytes_eq:
  "encode_compact_bytes bo self data = self @ var_bytes (zigzag (of_nat (length data))) @ data"
  by (simp add: encode_compact_bytes_def encode_var_i64_eq)

lemma decode_compact_written:
  assumes "length data < 2 ^ 63"
  shows "decode_compact_bytes (encode_compact_bytes bo [] data @ rest) = Ok (data, rest)"
    "decode_compact_bytes_from_file bo (encode_compact_bytes bo [] data @ rest) = Ok (data, rest)"
    "encoded_compact_len (encode_compact_bytes bo [] data @ rest) = length (encode_compact_bytes bo [] data)"
proof -
  let ?w = "var_bytes (zigzag (of_nat (length data)))"
  have vn: "unat (of_nat (length data) :: u64) = length data"
    using assms by (simp add: unat_of_nat)
  show "decode_compact_bytes (encode_compact_bytes bo [] data @ rest) = Ok (data, rest)"
    using vn by (simp add: encode_compact_bytes_eq decode_compact_bytes_def decode_var_i64_zigzag slice_of_def)
  show "decode_compact_bytes_from_file bo (encode_compact_bytes bo [] data @ rest) = Ok (data, rest)"
    using vn assms decode_var_i64_zigzag [of "of_nat (length data)" "[]"]
    by (simp add: encode_compact_bytes_eq decode_compact_bytes_from_file_def read_var_bytes_var_bytes Let_def)
  have "length ?w \<le> 10" using var_bytes_length_10 [of "zigzag (of_nat (length data))"] by auto
  then have "unat (of_nat (length data + length ?w) :: u64) = length data + length ?w"
    using assms by (simp add: unat_of_nat del: of_nat_add)
  then show "encoded_compact_len (encode_compact_bytes bo [] data @ rest) = length (encode_compact_bytes bo [] data)"
    by (simp add: encode_compact_bytes_eq encoded_compact_len_def decode_var_i64_zigzag add.commute)
qed

lemma decode_compact_negative:
  assumes "sint v < 0" "length rest < 2 ^ 63"
  shows "decode_compact_bytes_from_file bo (encode_var_i64 bo [] v @ rest) = Panic"
    "decode_compact_bytes (encode_var_i64 bo [] v @ rest) = Err unexpected_eof"
proof -
  have v: "unat v \<ge> 2 ^ 63"
  proof (rule ccontr)
    assume "\<not> 2 ^ 63 \<le> unat v"
    then have "int (unat v) < int (2 ^ 63)" by (simp only: of_nat_less_iff not_le)
    then have "uint v < 2 ^ 63" by simp
    moreover have "- (2 ^ 63) \<le> uint v" by (rule order_trans [OF _ uint_ge_0]) simp
    ultimately have "sint v = uint v" using signed_take_bit_int_eq_self [of 63 "uint v"] by (simp add: sint_uint)
    then show False using assms(1) by simp
  qed
  show "decode_compact_bytes_from_file bo (encode_var_i64 bo [] v @ rest) = Panic"
    using v decode_var_i64_zigzag [of v "[]"]
    by (simp add: encode_var_i64_eq decode_compact_bytes_from_file_def read_var_bytes_var_bytes Let_def)
  show "decode_compact_bytes (encode_var_i64 bo [] v @ rest) = Err unexpected_eof"
    using v assms(2) by (simp add: encode_var_i64_eq decode_compact_bytes_def decode_var_i64_zigzag Let_def)
qed

end

section \<open>The interface of a memory-comparable code\<close>

text \<open>
  What a client of such a code relies on: with anything appended, encodings compare as the keys do in
  the order \<open>before\<close>; the decoder finds the end of an encoding by itself, and accepts nothing
  else than an encoding. It follows that a code is prefix-free and \<open>before\<close> is a linear order, and
  that all strings that extend the code of a key lie in one interval.
\<close>

locale memcomparable =
  fixes enc :: "'k \<Rightarrow> bytes" and dec :: "bytes \<Rightarrow> ('e, 'k \<times> bytes) result"
    and before :: "'k \<Rightarrow> 'k \<Rightarrow> bool"
  assumes enc_order: "enc a @ s < enc b @ t \<longleftrightarrow> before a b \<or> (a = b \<and> s < t)"
    and dec_enc: "dec (enc a @ s) = Ok (a, s)"
    and dec_canonical: "dec d = Ok (a, s) \<Longrightarrow> d = enc a @ s"
begin

lemma dec_iff: "dec d = Ok (a, s) \<longleftrightarrow> d = enc a @ s"
  using dec_enc dec_canonical by blast

lemma enc_append_eq: "enc a @ s = enc b @ t \<longleftrightarrow> a = b \<and> s = t"
  by (metis dec_enc prod.inject result.inject(1))

lemma enc_less: "enc a < enc b \<longleftrightarrow> before a b"
  using enc_order [of a "[]" b "[]"] by simp

lemma before_linear: "before a b \<or> a = b \<or> before b a"
  using enc_less enc_append_eq [of a "[]" b "[]"] by (metis append_Nil2 linorder_less_linear)

lemma before_irrefl: "\<not> before a a"
  using enc_less by blast

lemma enc_le_append: "enc a \<le> enc b @ t \<longleftrightarrow> before a b \<or> a = b"
  using enc_order [of b t a "[]"] before_linear [of a b] enc_order [of a "[]" b t]
  by (auto simp: linorder_not_less [symmetric] before_irrefl) 

end

interpretation asc_bytes: memcomparable encode_bytes "\<lambda>d. decode_bytes d False" "(<)"
proof
  show "encode_bytes a @ s < encode_bytes b @ t \<longleftrightarrow> a < b \<or> (a = b \<and> s < t)" for a s b t
    using order_mc_encode_order [of False] by (simp add: encode_bytes_def encode_order_bytes_eq)
  show "decode_bytes (encode_bytes a @ s) False = Ok (a, s)" for a s
    by (simp add: encode_bytes_def encode_order_bytes_eq decode_bytes_eq order_bytes_def mc_decode_encode)
  show "d = encode_bytes a @ s" if "decode_bytes d False = Ok (a, s)" for d a s
    using that mc_decode_canonical
    by (auto simp: encode_bytes_def encode_order_bytes_eq decode_bytes_eq order_bytes_def result_map_Ok_iff)
qed

interpretation desc_bytes: memcomparable encode_bytes_desc "\<lambda>d. decode_bytes d True" "(>)"
proof
  show "encode_bytes_desc a @ s < encode_bytes_desc b @ t \<longleftrightarrow> a > b \<or> (a = b \<and> s < t)" for a s b t
    using order_mc_encode_order [of True] by (simp add: encode_bytes_desc_def encode_order_bytes_eq)
  show "decode_bytes (encode_bytes_desc a @ s) True = Ok (a, s)" for a s
    by (simp add: encode_bytes_desc_def encode_order_bytes_eq decode_bytes_eq mc_decode_encode)
  show "d = encode_bytes_desc a @ s" if "decode_bytes d True = Ok (a, s)" for d a s
  proof -
    from that obtain r where "mc_decode (order_bytes True d) = Ok (a, r)" "s = order_bytes True r"
      by (auto simp: decode_bytes_eq result_map_Ok_iff)
    with mc_decode_canonical have "order_bytes True d = mc_encode a @ order_bytes True s" by simp
    then have "order_bytes True (order_bytes True d) = order_bytes True (mc_encode a @ order_bytes True s)" by simp
    then show ?thesis by (simp add: encode_bytes_desc_def encode_order_bytes_eq)
  qed
qed

lemma decode_bytes_iff: "decode_bytes data desc = Ok (key, rest) \<longleftrightarrow> data = encode_order_bytes key desc @ rest"
  using asc_bytes.dec_iff desc_bytes.dec_iff
  by (cases desc) (simp_all add: encode_bytes_def encode_bytes_desc_def)

section \<open>Properties\<close>

text \<open>
  (C9) \<open>decode_bytes\<close> accepts exactly the encodings: it returns a key and leaves a rest if and only
  if the slice is the encoding of that key, in the order asked for, followed by that rest. So every key
  round-trips with any suffix, and no second byte string decodes to a key.
\<close>

theorem bytes_code_exact:
  "decode_bytes data desc = Ok (key, rest) \<longleftrightarrow> data = encode_order_bytes key desc @ rest"
  by (rule decode_bytes_iff)

text \<open>
  (C10) The encoding is memory-comparable, whatever is appended: encodings of different keys compare
  as the keys (in reverse for the descending one), and for the same key the suffixes decide.
\<close>

theorem bytes_memcomparable:
  "encode_order_bytes a desc @ s < encode_order_bytes b desc @ t \<longleftrightarrow>
    (if desc then b < a else a < b) \<or> (a = b \<and> s < t)"
  using order_mc_encode_order by (simp add: encode_order_bytes_eq)

text \<open>
  \<open>decode_bytes_in_place\<close> agrees with \<open>decode_bytes\<close> on every vector: it fails with the
  same error, and on success the vector holds the decoded key. Its unchecked copies stay inside the
  vector.
\<close>

theorem decode_bytes_in_place_agrees:
  "snd (decode_bytes_in_place data desc) = result_map (\<lambda>_. ()) (decode_bytes data desc) \<and>
    (case decode_bytes data desc of Ok (key, _) \<Rightarrow> fst (decode_bytes_in_place data desc) = key | _ \<Rightarrow> True) \<and>
    snd (decode_bytes_in_place data desc) \<noteq> Undef"
proof -
  note eq = decode_in_place_loop_eq [of 0 0 data desc]
  show ?thesis
    using eq mc_decode_outcome [of "order_bytes desc data"]
    by (cases "mc_decode (order_bytes desc data)") (auto simp: decode_bytes_in_place_def decode_bytes_eq)
qed

text \<open>
  (C36) \<open>is_encoded_from\<close>, which compares group by group from the end without decoding, decides
  whether the slice is the encoding of the raw key.
\<close>

theorem is_encoded_from_exact:
  "is_encoded_from encoded raw desc \<longleftrightarrow> encoded = encode_order_bytes raw desc"
  by (simp add: is_encoded_from_eq encode_order_bytes_eq)

text \<open>
  \<open>encoded_bytes_len\<close> finds the length of the first of several encodings, and
  \<open>max_encoded_bytes_size\<close>, the capacity reserved for an encoding, is its exact length.
\<close>

theorem encoded_bytes_len_first:
  "encoded_bytes_len (encode_order_bytes key desc @ rest) desc = length (encode_order_bytes key desc) \<and>
    length (encode_order_bytes key desc) = max_encoded_bytes_size (length key)"
  by (simp add: encode_order_bytes_eq encoded_bytes_len_eq length_mc_encode)

text \<open>
  The compact encoding round-trips through both of its decoders, on a slice and on a reader, and
  \<open>encoded_compact_len\<close> is its length.
\<close>

theorem compact_bytes_roundtrip:
  assumes "byteorder bo" "length data < 2 ^ 63"
  shows "decode_compact_bytes (encode_compact_bytes bo [] data @ rest) = Ok (data, rest) \<and>
    decode_compact_bytes_from_file bo (encode_compact_bytes bo [] data @ rest) = Ok (data, rest) \<and>
    encoded_compact_len (encode_compact_bytes bo [] data @ rest) = length (encode_compact_bytes bo [] data)"
  using byteorder.decode_compact_written [OF assms] by simp

theorem compact_bytes_roundtrip_witness:
  "decode_compact_bytes (encode_compact_bytes std_byteorder [] [1 :: byte, 2, 3] @ [9]) = Ok ([1, 2, 3], [9]) \<and>
    length [1 :: byte, 2, 3] < 2 ^ 63"
  using compact_bytes_roundtrip [OF byteorder_std, of "[1 :: byte, 2, 3]" "[9]"] by simp

text \<open>
  A negative length in front of compact bytes: the slice decoder reports the end of input, the
  reader's decoder panics, since it allocates before it reads.
\<close>

theorem compact_bytes_negative_length:
  assumes "byteorder bo" "sint v < 0" "length rest < 2 ^ 63"
  shows "decode_compact_bytes (encode_var_i64 bo [] v @ rest) = Err unexpected_eof \<and>
    decode_compact_bytes_from_file bo (encode_var_i64 bo [] v @ rest) = Panic"
  using byteorder.decode_compact_negative [OF assms] by simp

theorem compact_bytes_negative_length_witness:
  "decode_compact_bytes_from_file std_byteorder (encode_var_i64 std_byteorder [] (- 1) @ [7 :: byte]) = Panic \<and>
    sint (- 1 :: i64) < 0"
  using compact_bytes_negative_length [OF byteorder_std, of "- 1" "[7 :: byte]"] by simp

end
