(* ===== verification/Fact_Buffer.thy ===== *)
theory Fact_Buffer
  imports Bytes_Codec
begin

text \<open>
  The buffers of the crate \<open>codec\<close> (\<open>sentry/einst_util/data_types/language_fact/src\<close>):
  \<open>error.rs\<close> and \<open>buffer.rs\<close>. The traits \<open>BufferReader\<close> and
  \<open>BufferWriter\<close> are records of operations over a state type, one record per \<open>impl\<close>; generic
  code takes the record as its argument. What generic code may rely on is stated by the locales
  \<open>buffer_reader\<close> and \<open>buffer_writer\<close>, interpreted for every \<open>impl\<close>.
\<close>

section \<open>Errors (error.rs)\<close>

datatype ErrorInner = IoError io_error | BadPadding

definition eof :: ErrorInner where
  "eof = IoError UnexpectedEof"

definition bad_padding :: ErrorInner where
  "bad_padding = BadPadding"

section \<open>Readers (buffer.rs)\<close>

text \<open>
  \<open>br_bytes\<close> is the slice at the current position, \<open>br_advance\<close> the moved reader,
  \<open>br_read_bytes\<close> the slice read with the moved reader. An operation that fails has not changed
  the reader.
\<close>

record 's buffer_reader_ops =
  br_bytes :: "'s \<Rightarrow> bytes"
  br_advance :: "'s \<Rightarrow> nat \<Rightarrow> (ErrorInner, 's) result"
  br_read_bytes :: "'s \<Rightarrow> nat \<Rightarrow> (ErrorInner, bytes \<times> 's) result"

text \<open>
  \<open>std::io::Cursor\<close>: a slice and a 64-bit position, which may lie behind the slice. Sums of
  positions are taken modulo \<open>2 ^ 64\<close>, as in the release profile; a range whose end lies before
  its start, and \<open>copy_from_slice\<close> between slices of different lengths, panic.
\<close>

record cursor =
  cur_slice :: bytes
  cur_pos :: u64

definition Cursor_bytes :: "cursor \<Rightarrow> bytes" where
  "Cursor_bytes self = (let pos = unat (cur_pos self); slice = cur_slice self in
    if pos \<le> length slice then drop pos slice else [])"

definition Cursor_advance :: "cursor \<Rightarrow> nat \<Rightarrow> (ErrorInner, cursor) result" where
  "Cursor_advance self count = (let pos = cur_pos self; pos = pos + of_nat count in
    Ok (self\<lparr>cur_pos := pos\<rparr>))"

definition Cursor_read_bytes :: "cursor \<Rightarrow> nat \<Rightarrow> (ErrorInner, bytes \<times> cursor) result" where
  "Cursor_read_bytes self count =
    (if count = 0 then Ok ([], self)
     else let pos = unat (cur_pos self); slice = cur_slice self;
              new_pos = (pos + count) mod 2 ^ 64 in
       if new_pos \<ge> length slice then Err eof
       else if pos \<le> new_pos then Ok (slice_of slice pos new_pos, self\<lparr>cur_pos := of_nat new_pos\<rparr>)
       else Panic)"

definition Cursor_reader :: "cursor buffer_reader_ops" where
  "Cursor_reader = \<lparr> br_bytes = Cursor_bytes, br_advance = Cursor_advance,
    br_read_bytes = Cursor_read_bytes \<rparr>"

text \<open>A slice reader is the slice it has left.\<close>

definition slice_advance :: "bytes \<Rightarrow> nat \<Rightarrow> (ErrorInner, bytes) result" where
  "slice_advance self count = (if count \<le> length self then Ok (drop count self) else Panic)"

definition slice_read_bytes :: "bytes \<Rightarrow> nat \<Rightarrow> (ErrorInner, bytes \<times> bytes) result" where
  "slice_read_bytes self count =
    (if length self < count then Err eof else Ok (take count self, drop count self))"

definition slice_reader :: "bytes buffer_reader_ops" where
  "slice_reader = \<lparr> br_bytes = (\<lambda>self. self), br_advance = slice_advance,
    br_read_bytes = slice_read_bytes \<rparr>"

text \<open>\<open>&mut T\<close> and \<open>Box<T>\<close> delegate to \<open>T\<close>.\<close>

definition mut_ref_reader :: "'s buffer_reader_ops \<Rightarrow> 's buffer_reader_ops" where
  "mut_ref_reader T = \<lparr> br_bytes = (\<lambda>self. br_bytes T self),
    br_advance = (\<lambda>self count. br_advance T self count),
    br_read_bytes = (\<lambda>self count. br_read_bytes T self count) \<rparr>"

definition Box_reader :: "'s buffer_reader_ops \<Rightarrow> 's buffer_reader_ops" where
  "Box_reader T = \<lparr> br_bytes = (\<lambda>self. br_bytes T self),
    br_advance = (\<lambda>self count. br_advance T self count),
    br_read_bytes = (\<lambda>self count. br_read_bytes T self count) \<rparr>"

section \<open>Writers (buffer.rs)\<close>

text \<open>
  \<open>bytes_mut\<close> hands out a mutable slice of the free space: \<open>bw_bytes_mut\<close> is its effect on
  the writer, \<open>bw_slice\<close> the contents of the slice, and \<open>bw_store\<close> the writer after the borrower
  has overwritten the slice.
\<close>

record 's buffer_writer_ops =
  bw_bytes_mut :: "'s \<Rightarrow> nat \<Rightarrow> 's"
  bw_slice :: "'s \<Rightarrow> bytes"
  bw_store :: "'s \<Rightarrow> bytes \<Rightarrow> 's"
  bw_advance_mut :: "'s \<Rightarrow> nat \<Rightarrow> (ErrorInner, 's) result"
  bw_write_bytes :: "'s \<Rightarrow> bytes \<Rightarrow> (ErrorInner, 's) result"

definition Cursor_store :: "cursor \<Rightarrow> bytes \<Rightarrow> cursor" where
  "Cursor_store self buf = (let pos = unat (cur_pos self) in
    if pos \<le> length (cur_slice self) then self\<lparr>cur_slice := take pos (cur_slice self) @ buf\<rparr> else self)"

definition Cursor_advance_mut :: "cursor \<Rightarrow> nat \<Rightarrow> (ErrorInner, cursor) result" where
  "Cursor_advance_mut self count = (let pos = cur_pos self; pos = pos + of_nat count in
    Ok (self\<lparr>cur_pos := pos\<rparr>))"

definition Cursor_write_bytes :: "cursor \<Rightarrow> bytes \<Rightarrow> (ErrorInner, cursor) result" where
  "Cursor_write_bytes self vals = (let write_len = length vals in
    if write_len = 0 then Ok self
    else let pos = unat (cur_pos self); slice = cur_slice self;
             new_pos = (pos + write_len) mod 2 ^ 64 in
      if new_pos \<ge> length slice then Err eof
      else if pos \<le> new_pos \<and> new_pos - pos = write_len
      then Ok (self\<lparr>cur_slice := take pos slice @ vals @ drop new_pos slice,
                    cur_pos := of_nat new_pos\<rparr>)
      else Panic)"

definition Cursor_writer :: "cursor buffer_writer_ops" where
  "Cursor_writer = \<lparr> bw_bytes_mut = (\<lambda>self _. self), bw_slice = Cursor_bytes, bw_store = Cursor_store,
    bw_advance_mut = Cursor_advance_mut, bw_write_bytes = Cursor_write_bytes \<rparr>"

text \<open>
  A slice writer is what is left of the caller's slice, together with the part of that slice it has
  moved past (which the caller reads afterwards).
\<close>

record slice_mut =
  sm_done :: bytes
  sm_rest :: bytes

definition slice_advance_mut :: "slice_mut \<Rightarrow> nat \<Rightarrow> (ErrorInner, slice_mut) result" where
  "slice_advance_mut self count =
    (if count \<le> length (sm_rest self)
     then Ok \<lparr> sm_done = sm_done self @ take count (sm_rest self), sm_rest = drop count (sm_rest self) \<rparr>
     else Panic)"

definition slice_write_bytes :: "slice_mut \<Rightarrow> bytes \<Rightarrow> (ErrorInner, slice_mut) result" where
  "slice_write_bytes self vals = (let write_len = length vals in
    if length (sm_rest self) < write_len then Err eof
    else Ok \<lparr> sm_done = sm_done self @ vals, sm_rest = drop write_len (sm_rest self) \<rparr>)"

definition slice_writer :: "slice_mut buffer_writer_ops" where
  "slice_writer = \<lparr> bw_bytes_mut = (\<lambda>self _. self), bw_slice = sm_rest,
    bw_store = (\<lambda>self buf. self\<lparr>sm_rest := buf\<rparr>),
    bw_advance_mut = slice_advance_mut, bw_write_bytes = slice_write_bytes \<rparr>"

text \<open>
  A \<open>Vec<u8>\<close> is its elements and the bytes between its length and its capacity. What
  \<open>reserve\<close> allocates is only bounded from below: \<open>grow v n\<close> is the spare memory of
  \<open>v\<close> after a reallocation for \<open>n\<close> more bytes. \<open>set_len\<close> beyond the capacity is undefined.
\<close>

record vec =
  vec_data :: bytes
  vec_spare :: bytes

type_synonym vec_grow = "vec \<Rightarrow> nat \<Rightarrow> bytes"

definition vec_reserve :: "vec_grow \<Rightarrow> vec \<Rightarrow> nat \<Rightarrow> vec" where
  "vec_reserve grow self additional =
    (if additional \<le> length (vec_spare self) then self
     else self\<lparr>vec_spare := grow self additional\<rparr>)"

definition Vec_advance_mut :: "vec \<Rightarrow> nat \<Rightarrow> (ErrorInner, vec) result" where
  "Vec_advance_mut self count =
    (if count \<le> length (vec_spare self)
     then Ok \<lparr> vec_data = vec_data self @ take count (vec_spare self),
               vec_spare = drop count (vec_spare self) \<rparr>
     else Undef)"

definition Vec_write_bytes :: "vec_grow \<Rightarrow> vec \<Rightarrow> bytes \<Rightarrow> (ErrorInner, vec) result" where
  "Vec_write_bytes grow self vals = (let self = vec_reserve grow self (length vals) in
    Ok \<lparr> vec_data = vec_data self @ vals, vec_spare = drop (length vals) (vec_spare self) \<rparr>)"

definition Vec_writer :: "vec_grow \<Rightarrow> vec buffer_writer_ops" where
  "Vec_writer grow = \<lparr> bw_bytes_mut = vec_reserve grow, bw_slice = vec_spare,
    bw_store = (\<lambda>self buf. self\<lparr>vec_spare := buf\<rparr>),
    bw_advance_mut = Vec_advance_mut, bw_write_bytes = Vec_write_bytes grow \<rparr>"

definition mut_ref_writer :: "'s buffer_writer_ops \<Rightarrow> 's buffer_writer_ops" where
  "mut_ref_writer T = \<lparr> bw_bytes_mut = (\<lambda>self sz. bw_bytes_mut T self sz), bw_slice = bw_slice T,
    bw_store = bw_store T, bw_advance_mut = (\<lambda>self count. bw_advance_mut T self count),
    bw_write_bytes = (\<lambda>self vals. bw_write_bytes T self vals) \<rparr>"

definition Box_writer :: "'s buffer_writer_ops \<Rightarrow> 's buffer_writer_ops" where
  "Box_writer T = \<lparr> bw_bytes_mut = (\<lambda>self sz. bw_bytes_mut T self sz), bw_slice = bw_slice T,
    bw_store = bw_store T, bw_advance_mut = (\<lambda>self count. bw_advance_mut T self count),
    bw_write_bytes = (\<lambda>self vals. bw_write_bytes T self vals) \<rparr>"

section \<open>What generic code relies on\<close>

locale buffer_reader =
  fixes R :: "'s buffer_reader_ops" and inv :: "'s \<Rightarrow> bool"
  assumes advance: "inv s \<Longrightarrow> k \<le> length (br_bytes R s) \<Longrightarrow>
      \<exists>s'. br_advance R s k = Ok s' \<and> inv s' \<and> br_bytes R s' = drop k (br_bytes R s)"
    and read_bytes: "inv s \<Longrightarrow> k < 2 ^ 64 \<Longrightarrow> br_read_bytes R s k = Ok (bs, s') \<Longrightarrow>
      k \<le> length (br_bytes R s) \<and> bs = take k (br_bytes R s) \<and> inv s' \<and>
      br_bytes R s' = drop k (br_bytes R s)"

locale buffer_writer =
  fixes W :: "'s buffer_writer_ops" and inv :: "'s \<Rightarrow> bool" and written :: "'s \<Rightarrow> bytes"
  assumes bytes_mut: "inv s \<Longrightarrow> inv (bw_bytes_mut W s n) \<and> written (bw_bytes_mut W s n) = written s"
    and store: "inv s \<Longrightarrow> length buf = length (bw_slice W s) \<Longrightarrow>
      inv (bw_store W s buf) \<and> bw_slice W (bw_store W s buf) = buf \<and> written (bw_store W s buf) = written s"
    and advance_mut: "inv s \<Longrightarrow> k \<le> length (bw_slice W s) \<Longrightarrow>
      \<exists>s'. bw_advance_mut W s k = Ok s' \<and> inv s' \<and> written s' = written s @ take k (bw_slice W s)"
    and write_bytes: "inv s \<Longrightarrow> bw_write_bytes W s vals = Ok s' \<Longrightarrow>
      inv s' \<and> written s' = written s @ vals"
begin

text \<open>Filling the front of the slice handed out and advancing over it appends what was stored.\<close>

lemma fill_and_advance:
  assumes "inv s" "length ws + length ts = length (bw_slice W (bw_bytes_mut W s n))"
  shows "\<exists>s'. bw_advance_mut W (bw_store W (bw_bytes_mut W s n) (ws @ ts)) (length ws) = Ok s' \<and>
    inv s' \<and> written s' = written s @ ws"
proof -
  let ?s = "bw_store W (bw_bytes_mut W s n) (ws @ ts)"
  have s: "inv ?s" "bw_slice W ?s = ws @ ts" "written ?s = written s"
    using store [of "bw_bytes_mut W s n" "ws @ ts"] bytes_mut [OF assms(1), of n] assms(2) by auto
  show ?thesis using advance_mut [OF s(1), of "length ws"] s by simp
qed

end

subsection \<open>The implementations\<close>

interpretation slice_rd: buffer_reader slice_reader "\<lambda>_. True"
  by unfold_locales (auto simp: slice_reader_def slice_advance_def slice_read_bytes_def split: if_splits)

text \<open>A slice in memory is shorter than \<open>isize::MAX\<close> bytes.\<close>

definition cursor_ok :: "cursor \<Rightarrow> bool" where
  "cursor_ok c \<longleftrightarrow> length (cur_slice c) < 2 ^ 63"

lemma unat_pos_add:
  assumes "unat (p :: u64) + k < 2 ^ 64"
  shows "unat (p + of_nat k) = unat p + k"
  using assms by (simp add: unat_word_ariths unat_of_nat)

lemma Cursor_advance_bytes:
  assumes "cursor_ok s" "k \<le> length (Cursor_bytes s)"
  shows "Cursor_bytes (s\<lparr>cur_pos := cur_pos s + of_nat k\<rparr>) = drop k (Cursor_bytes s)"
proof (cases "unat (cur_pos s) \<le> length (cur_slice s)")
  case True
  then have "unat (cur_pos s + of_nat k) = unat (cur_pos s) + k"
    using assms by (intro unat_pos_add) (simp add: Cursor_bytes_def cursor_ok_def)
  then show ?thesis using True assms by (auto simp: Cursor_bytes_def Let_def add.commute)
next
  case False
  then show ?thesis using assms by (simp add: Cursor_bytes_def)
qed

interpretation Cursor_rd: buffer_reader Cursor_reader cursor_ok
proof
  fix s k
  assume "cursor_ok s" "k \<le> length (br_bytes Cursor_reader s)"
  then show "\<exists>s'. br_advance Cursor_reader s k = Ok s' \<and> cursor_ok s' \<and>
      br_bytes Cursor_reader s' = drop k (br_bytes Cursor_reader s)"
    using Cursor_advance_bytes [of s k] by (simp add: Cursor_reader_def Cursor_advance_def cursor_ok_def)
next
  fix s s' k bs
  assume *: "cursor_ok s" "k < 2 ^ 64" "br_read_bytes Cursor_reader s k = Ok (bs, s')"
  let ?pos = "unat (cur_pos s)"
  show "k \<le> length (br_bytes Cursor_reader s) \<and> bs = take k (br_bytes Cursor_reader s) \<and>
      cursor_ok s' \<and> br_bytes Cursor_reader s' = drop k (br_bytes Cursor_reader s)"
  proof (cases "k = 0")
    case True
    then show ?thesis using * by (simp add: Cursor_reader_def Cursor_read_bytes_def)
  next
    case False
    have rb: "Cursor_read_bytes s k = Ok (bs, s')" using *(3) by (simp add: Cursor_reader_def)
    have p: "?pos < 2 ^ 64" using unsigned_less [of "cur_pos s", where ?'a = nat] by simp
    from * False have new: "(?pos + k) mod 2 ^ 64 < length (cur_slice s)" "?pos \<le> (?pos + k) mod 2 ^ 64"
      by (auto simp: Cursor_reader_def Cursor_read_bytes_def Let_def split: if_splits)
    have mod: "(?pos + k) mod 2 ^ 64 = ?pos + k"
    proof (cases "?pos + k < 2 ^ 64")
      case f: False
      then have "(?pos + k) mod 2 ^ 64 = ?pos + k - 2 ^ 64"
        using p *(2) by (simp add: le_mod_geq)
      then show ?thesis using new(2) *(2) False f by linarith
    qed simp
    have s': "bs = slice_of (cur_slice s) ?pos (?pos + k)" "s' = s\<lparr>cur_pos := of_nat (?pos + k)\<rparr>"
      using rb False new unfolding Cursor_read_bytes_def Let_def mod by auto
    have "unat (of_nat (?pos + k) :: u64) = ?pos + k"
      using new(1) *(1) unfolding mod by (simp add: unat_of_nat cursor_ok_def del: of_nat_add)
    then show ?thesis
      using s' new(1) *(1) unfolding mod
      by (simp add: Cursor_reader_def Cursor_bytes_def cursor_ok_def slice_of_def add.commute del: of_nat_add)
  qed
qed

text \<open>References and boxes are readers when what they point to is one.\<close>

lemma delegating_readers:
  assumes "buffer_reader R ok"
  shows "buffer_reader (mut_ref_reader R) ok" "buffer_reader (Box_reader R) ok"
  using assms unfolding buffer_reader_def mut_ref_reader_def Box_reader_def by simp_all

interpretation slice_wr: buffer_writer slice_writer "\<lambda>_. True" sm_done
  by unfold_locales (auto simp: slice_writer_def slice_advance_mut_def slice_write_bytes_def
      Let_def split: if_splits)

definition cursor_inside :: "cursor \<Rightarrow> bool" where
  "cursor_inside c \<longleftrightarrow> cursor_ok c \<and> unat (cur_pos c) \<le> length (cur_slice c)"

definition cursor_written :: "cursor \<Rightarrow> bytes" where
  "cursor_written c = take (unat (cur_pos c)) (cur_slice c)"

interpretation Cursor_wr: buffer_writer Cursor_writer cursor_inside cursor_written
proof
  fix s n
  assume "cursor_inside s"
  then show "cursor_inside (bw_bytes_mut Cursor_writer s n) \<and>
      cursor_written (bw_bytes_mut Cursor_writer s n) = cursor_written s"
    by (simp add: Cursor_writer_def)
next
  fix s and buf :: bytes
  assume "cursor_inside s" "length buf = length (bw_slice Cursor_writer s)"
  then show "cursor_inside (bw_store Cursor_writer s buf) \<and>
      bw_slice Cursor_writer (bw_store Cursor_writer s buf) = buf \<and>
      cursor_written (bw_store Cursor_writer s buf) = cursor_written s"
    by (auto simp: Cursor_writer_def Cursor_store_def Cursor_bytes_def cursor_inside_def cursor_ok_def
        cursor_written_def Let_def)
next
  fix s k
  assume *: "cursor_inside s" "k \<le> length (bw_slice Cursor_writer s)"
  then have "unat (cur_pos s + of_nat k) = unat (cur_pos s) + k"
    by (intro unat_pos_add) (auto simp: Cursor_writer_def Cursor_bytes_def cursor_inside_def cursor_ok_def)
  then show "\<exists>s'. bw_advance_mut Cursor_writer s k = Ok s' \<and> cursor_inside s' \<and>
      cursor_written s' = cursor_written s @ take k (bw_slice Cursor_writer s)"
    using * by (auto simp: Cursor_writer_def Cursor_advance_mut_def cursor_inside_def cursor_written_def
        Cursor_bytes_def cursor_ok_def take_add)
next
  fix s s' and vals :: bytes
  assume *: "cursor_inside s" "bw_write_bytes Cursor_writer s vals = Ok s'"
  show "cursor_inside s' \<and> cursor_written s' = cursor_written s @ vals"
  proof (cases "vals = []")
    case False
    let ?pos = "unat (cur_pos s)" and ?len = "length (cur_slice s)"
    have wb: "Cursor_write_bytes s vals = Ok s'" using *(2) by (simp add: Cursor_writer_def)
    define new where "new = (?pos + length vals) mod 2 ^ 64"
    have w: "new < ?len" "?pos \<le> new" "new - ?pos = length vals"
      "s' = s\<lparr>cur_slice := take ?pos (cur_slice s) @ vals @ drop new (cur_slice s), cur_pos := of_nat new\<rparr>"
      using wb False unfolding Cursor_write_bytes_def Let_def new_def [symmetric]
      by (auto split: if_splits)
    have "unat (of_nat new :: u64) = new"
      using w(1) *(1) by (simp add: unat_of_nat cursor_inside_def cursor_ok_def)
    then show ?thesis
      using w *(1) by (auto simp: cursor_inside_def cursor_ok_def cursor_written_def)
  qed (use * in \<open>simp add: Cursor_writer_def Cursor_write_bytes_def\<close>)
qed

text \<open>What \<open>Vec::reserve\<close> guarantees: room for the bytes asked for.\<close>

locale vec_alloc =
  fixes grow :: vec_grow
  assumes grow_room: "n \<le> length (grow v n)"

sublocale vec_alloc \<subseteq> buffer_writer "Vec_writer grow" "\<lambda>_. True" vec_data
  by unfold_locales (auto simp: Vec_writer_def vec_reserve_def Vec_advance_mut_def Vec_write_bytes_def
      Let_def)

lemma delegating_writers:
  assumes "buffer_writer W ok written"
  shows "buffer_writer (mut_ref_writer W) ok written" "buffer_writer (Box_writer W) ok written"
  using assms unfolding buffer_writer_def mut_ref_writer_def Box_writer_def by simp_all

context vec_alloc
begin

lemma vec_room: "n \<le> length (bw_slice (Vec_writer grow) (bw_bytes_mut (Vec_writer grow) s n))"
  using grow_room by (auto simp: Vec_writer_def vec_reserve_def)

end

text \<open>An allocator with the guarantee: it zeroes the memory it hands out.\<close>

definition zero_grow :: vec_grow where
  "zero_grow v n = replicate n 0"

interpretation zero_alloc: vec_alloc zero_grow
  by unfold_locales (simp add: zero_grow_def)

section \<open>Properties\<close>

text \<open>
  Reading all that is left: a slice reader returns it, a cursor over the same bytes reports the end
  of input, and so it does when the bytes to write fill the rest of its slice exactly.
\<close>

theorem cursor_exact_fit_fails:
  assumes "bs \<noteq> []" "length bs < 2 ^ 63" "length vals = length bs"
  shows "slice_read_bytes bs (length bs) = Ok (bs, []) \<and>
    Cursor_read_bytes \<lparr> cur_slice = bs, cur_pos = 0 \<rparr> (length bs) = Err eof \<and>
    slice_write_bytes \<lparr> sm_done = [], sm_rest = bs \<rparr> vals = Ok \<lparr> sm_done = vals, sm_rest = [] \<rparr> \<and>
    Cursor_write_bytes \<lparr> cur_slice = bs, cur_pos = 0 \<rparr> vals = Err eof"
  using assms by (simp add: slice_read_bytes_def Cursor_read_bytes_def slice_write_bytes_def
      Cursor_write_bytes_def Let_def)

theorem cursor_exact_fit_fails_witness:
  "Cursor_read_bytes \<lparr> cur_slice = [1, 2], cur_pos = 0 \<rparr> (length [1 :: byte, 2]) = Err eof \<and> length [1 :: byte, 2] < 2 ^ 63"
  using cursor_exact_fit_fails [of "[1 :: byte, 2]" "[3, 4]"] by simp

end
