(* ===== verification/Fact_Number.thy ===== *)
theory Fact_Number
  imports Fact_Buffer
begin

text \<open>
  The number codec of the crate \<open>codec\<close> (\<open>language_fact/src/convert.rs\<close> and
  \<open>number.rs\<close>): \<open>NumberCodec\<close> on slices, and the traits \<open>NumberDecoder\<close> and
  \<open>NumberEncoder\<close> over any reader and writer. A function on \<open>&mut [u8]\<close> returns the slice it
  leaves; the functions of \<open>byteorder\<close> panic on a slice that is too short.
\<close>

section \<open>Conversions (convert.rs)\<close>

definition CONVERT_SIGN_MARK :: u64 where
  "CONVERT_SIGN_MARK = push_bit 63 1"

definition encode_i64_to_comparable_u64 :: "i64 \<Rightarrow> u64" where
  "encode_i64_to_comparable_u64 v = v XOR CONVERT_SIGN_MARK"

definition decode_comparable_u64_to_i64 :: "u64 \<Rightarrow> i64" where
  "decode_comparable_u64_to_i64 u = u XOR CONVERT_SIGN_MARK"

definition encode_f64_to_comparable_u64 :: "f64 \<Rightarrow> u64" where
  "encode_f64_to_comparable_u64 v =
    (let u = v in if is_sign_positive v then u OR CONVERT_SIGN_MARK else NOT u)"

definition decode_comparable_u64_to_f64 :: "u64 \<Rightarrow> f64" where
  "decode_comparable_u64_to_f64 u =
    (if u AND CONVERT_SIGN_MARK > 0 then u AND NOT CONVERT_SIGN_MARK else NOT u)"

section \<open>Fixed-width numbers on slices\<close>

definition MAX_VARINT64_LENGTH :: usize where [simp]: "MAX_VARINT64_LENGTH = 10"

text \<open>\<open>ByteOrder::write_*(buf, v)\<close> and \<open>ByteOrder::read_*(buf)\<close>, with \<open>sz\<close> the width.\<close>

definition slice_put :: "nat \<Rightarrow> bytes \<Rightarrow> bytes \<Rightarrow> (ErrorInner, bytes) result" where
  "slice_put sz ws buf = (if length buf < sz then Panic else Ok (ws @ drop sz buf))"

definition slice_get :: "nat \<Rightarrow> (bytes \<Rightarrow> 'a) \<Rightarrow> bytes \<Rightarrow> (ErrorInner, 'a) result" where
  "slice_get sz rd buf = (if length buf < sz then Panic else Ok (rd buf))"

definition NumberCodec_encode_u8 :: "bytes \<Rightarrow> byte \<Rightarrow> (ErrorInner, bytes) result" where
  "NumberCodec_encode_u8 buf v = (if buf = [] then Panic else Ok (buf[0 := v]))"

definition NumberCodec_decode_u8 :: "bytes \<Rightarrow> (ErrorInner, byte) result" where
  "NumberCodec_decode_u8 buf = (if buf = [] then Panic else Ok (buf ! 0))"

definition NumberCodec_encode_u16 :: "byteorder_api \<Rightarrow> bytes \<Rightarrow> u16 \<Rightarrow> (ErrorInner, bytes) result" where
  "NumberCodec_encode_u16 bo buf v = slice_put 2 (bo_be_write_u16 bo v) buf"

definition NumberCodec_decode_u16 :: "byteorder_api \<Rightarrow> bytes \<Rightarrow> (ErrorInner, u16) result" where
  "NumberCodec_decode_u16 bo buf = slice_get 2 (bo_be_read_u16 bo) buf"

definition NumberCodec_encode_u32 :: "byteorder_api \<Rightarrow> bytes \<Rightarrow> u32 \<Rightarrow> (ErrorInner, bytes) result" where
  "NumberCodec_encode_u32 bo buf v = slice_put 4 (bo_be_write_u32 bo v) buf"

definition NumberCodec_decode_u32 :: "byteorder_api \<Rightarrow> bytes \<Rightarrow> (ErrorInner, u32) result" where
  "NumberCodec_decode_u32 bo buf = slice_get 4 (bo_be_read_u32 bo) buf"

definition NumberCodec_encode_u64 :: "byteorder_api \<Rightarrow> bytes \<Rightarrow> u64 \<Rightarrow> (ErrorInner, bytes) result" where
  "NumberCodec_encode_u64 bo buf v = slice_put 8 (bo_be_write_u64 bo v) buf"

definition NumberCodec_decode_u64 :: "byteorder_api \<Rightarrow> bytes \<Rightarrow> (ErrorInner, u64) result" where
  "NumberCodec_decode_u64 bo buf = slice_get 8 (bo_be_read_u64 bo) buf"

definition NumberCodec_encode_u64_desc :: "byteorder_api \<Rightarrow> bytes \<Rightarrow> u64 \<Rightarrow> (ErrorInner, bytes) result" where
  "NumberCodec_encode_u64_desc bo buf v = NumberCodec_encode_u64 bo buf (NOT v)"

definition NumberCodec_decode_u64_desc :: "byteorder_api \<Rightarrow> bytes \<Rightarrow> (ErrorInner, u64) result" where
  "NumberCodec_decode_u64_desc bo buf = result_map (\<lambda>u. NOT u) (NumberCodec_decode_u64 bo buf)"

definition NumberCodec_encode_i64 :: "byteorder_api \<Rightarrow> bytes \<Rightarrow> i64 \<Rightarrow> (ErrorInner, bytes) result" where
  "NumberCodec_encode_i64 bo buf v = (let u = encode_i64_to_comparable_u64 v in NumberCodec_encode_u64 bo buf u)"

definition NumberCodec_decode_i64 :: "byteorder_api \<Rightarrow> bytes \<Rightarrow> (ErrorInner, i64) result" where
  "NumberCodec_decode_i64 bo buf = 
    bind_result (NumberCodec_decode_u64 bo buf) (\<lambda>u. Ok (decode_comparable_u64_to_i64 u))"

definition NumberCodec_encode_i64_desc :: "byteorder_api \<Rightarrow> bytes \<Rightarrow> i64 \<Rightarrow> (ErrorInner, bytes) result" where
  "NumberCodec_encode_i64_desc bo buf v = (let u = encode_i64_to_comparable_u64 v in NumberCodec_encode_u64_desc bo buf u)"

definition NumberCodec_decode_i64_desc :: "byteorder_api \<Rightarrow> bytes \<Rightarrow> (ErrorInner, i64) result" where
  "NumberCodec_decode_i64_desc bo buf = 
    bind_result (NumberCodec_decode_u64_desc bo buf) (\<lambda>u. Ok (decode_comparable_u64_to_i64 u))"

definition NumberCodec_encode_f64 :: "byteorder_api \<Rightarrow> bytes \<Rightarrow> f64 \<Rightarrow> (ErrorInner, bytes) result" where
  "NumberCodec_encode_f64 bo buf v = (let u = encode_f64_to_comparable_u64 v in NumberCodec_encode_u64 bo buf u)"

definition NumberCodec_decode_f64 :: "byteorder_api \<Rightarrow> bytes \<Rightarrow> (ErrorInner, f64) result" where
  "NumberCodec_decode_f64 bo buf = 
    bind_result (NumberCodec_decode_u64 bo buf) (\<lambda>u. Ok (decode_comparable_u64_to_f64 u))"

definition NumberCodec_encode_f64_desc :: "byteorder_api \<Rightarrow> bytes \<Rightarrow> f64 \<Rightarrow> (ErrorInner, bytes) result" where
  "NumberCodec_encode_f64_desc bo buf v = (let u = encode_f64_to_comparable_u64 v in NumberCodec_encode_u64_desc bo buf u)"

definition NumberCodec_decode_f64_desc :: "byteorder_api \<Rightarrow> bytes \<Rightarrow> (ErrorInner, f64) result" where
  "NumberCodec_decode_f64_desc bo buf = 
    bind_result (NumberCodec_decode_u64_desc bo buf) (\<lambda>u. Ok (decode_comparable_u64_to_f64 u))"

definition NumberCodec_encode_u16_le :: "byteorder_api \<Rightarrow> bytes \<Rightarrow> u16 \<Rightarrow> (ErrorInner, bytes) result" where
  "NumberCodec_encode_u16_le bo buf v = slice_put 2 (bo_le_write_u16 bo v) buf"

definition NumberCodec_decode_u16_le :: "byteorder_api \<Rightarrow> bytes \<Rightarrow> (ErrorInner, u16) result" where
  "NumberCodec_decode_u16_le bo buf = slice_get 2 (bo_le_read_u16 bo) buf"

definition NumberCodec_encode_i16_le :: "byteorder_api \<Rightarrow> bytes \<Rightarrow> u16 \<Rightarrow> (ErrorInner, bytes) result" where
  "NumberCodec_encode_i16_le bo buf v = slice_put 2 (bo_le_write_i16 bo v) buf"

definition NumberCodec_decode_i16_le :: "byteorder_api \<Rightarrow> bytes \<Rightarrow> (ErrorInner, u16) result" where
  "NumberCodec_decode_i16_le bo buf = slice_get 2 (bo_le_read_i16 bo) buf"

definition NumberCodec_encode_f32_le :: "byteorder_api \<Rightarrow> bytes \<Rightarrow> u32 \<Rightarrow> (ErrorInner, bytes) result" where
  "NumberCodec_encode_f32_le bo buf v = slice_put 4 (bo_le_write_f32 bo v) buf"

definition NumberCodec_decode_f32_le :: "byteorder_api \<Rightarrow> bytes \<Rightarrow> (ErrorInner, u32) result" where
  "NumberCodec_decode_f32_le bo buf = slice_get 4 (bo_le_read_f32 bo) buf"

definition NumberCodec_encode_u32_le :: "byteorder_api \<Rightarrow> bytes \<Rightarrow> u32 \<Rightarrow> (ErrorInner, bytes) result" where
  "NumberCodec_encode_u32_le bo buf v = slice_put 4 (bo_le_write_u32 bo v) buf"

definition NumberCodec_decode_u32_le :: "byteorder_api \<Rightarrow> bytes \<Rightarrow> (ErrorInner, u32) result" where
  "NumberCodec_decode_u32_le bo buf = slice_get 4 (bo_le_read_u32 bo) buf"

definition NumberCodec_encode_i32_le :: "byteorder_api \<Rightarrow> bytes \<Rightarrow> u32 \<Rightarrow> (ErrorInner, bytes) result" where
  "NumberCodec_encode_i32_le bo buf v = slice_put 4 (bo_le_write_i32 bo v) buf"

definition NumberCodec_decode_i32_le :: "byteorder_api \<Rightarrow> bytes \<Rightarrow> (ErrorInner, u32) result" where
  "NumberCodec_decode_i32_le bo buf = slice_get 4 (bo_le_read_i32 bo) buf"

definition NumberCodec_encode_u64_le :: "byteorder_api \<Rightarrow> bytes \<Rightarrow> u64 \<Rightarrow> (ErrorInner, bytes) result" where
  "NumberCodec_encode_u64_le bo buf v = slice_put 8 (bo_le_write_u64 bo v) buf"

definition NumberCodec_decode_u64_le :: "byteorder_api \<Rightarrow> bytes \<Rightarrow> (ErrorInner, u64) result" where
  "NumberCodec_decode_u64_le bo buf = slice_get 8 (bo_le_read_u64 bo) buf"

definition NumberCodec_encode_i64_le :: "byteorder_api \<Rightarrow> bytes \<Rightarrow> i64 \<Rightarrow> (ErrorInner, bytes) result" where
  "NumberCodec_encode_i64_le bo buf v = slice_put 8 (bo_le_write_i64 bo v) buf"

definition NumberCodec_decode_i64_le :: "byteorder_api \<Rightarrow> bytes \<Rightarrow> (ErrorInner, i64) result" where
  "NumberCodec_decode_i64_le bo buf = slice_get 8 (bo_le_read_i64 bo) buf"

definition NumberCodec_encode_f64_le :: "byteorder_api \<Rightarrow> bytes \<Rightarrow> f64 \<Rightarrow> (ErrorInner, bytes) result" where
  "NumberCodec_encode_f64_le bo buf v = slice_put 8 (bo_le_write_f64 bo v) buf"

definition NumberCodec_decode_f64_le :: "byteorder_api \<Rightarrow> bytes \<Rightarrow> (ErrorInner, f64) result" where
  "NumberCodec_decode_f64_le bo buf = slice_get 8 (bo_le_read_f64 bo) buf"

section \<open>Variable-length integers on slices\<close>

text \<open>
  The writes through \<open>ptr\<close>: \<open>i\<close> is its distance from the start of \<open>buf\<close>; a write outside
  the slice is undefined.
\<close>

function encode_var_u64_ptr :: "bytes \<Rightarrow> nat \<Rightarrow> u64 \<Rightarrow> (ErrorInner, bytes \<times> nat) result" where
  "encode_var_u64_ptr buf i v =
    (if \<not> i < length buf then Undef
     else if v \<ge> 0x80
     then encode_var_u64_ptr (buf[i := 0x80 OR ucast (v AND 0x7f)]) (i + 1) (drop_bit 7 v)
     else Ok (buf[i := ucast v], i + 1))"
  by pat_completeness auto
termination by (relation "measure (\<lambda>(buf, i, v). length buf - i)") auto

declare encode_var_u64_ptr.simps [simp del]

definition NumberCodec_encode_var_u64 :: "bytes \<Rightarrow> u64 \<Rightarrow> (ErrorInner, bytes \<times> nat) result" where
  "NumberCodec_encode_var_u64 buf v =
    (if length buf \<ge> MAX_VARINT64_LENGTH then encode_var_u64_ptr buf 0 v else Panic)"

text \<open>The fast path: \<open>for i in 1..=9\<close>, with \<open>ptr\<close> at distance \<open>i - 1\<close>, then the tenth byte.\<close>

function try_decode_var_u64_fast ::
  "bytes \<Rightarrow> nat \<Rightarrow> nat \<Rightarrow> u64 \<Rightarrow> (ErrorInner, u64 \<times> nat) result" where
  "try_decode_var_u64_fast buf i shift val =
    (if i \<le> 9
     then bind_result (get_unchecked buf (i - 1)) (\<lambda>b.
       let val = val OR push_bit shift (ucast b AND 0x7f) in
       if b < 0x80 then Ok (val, i)
       else try_decode_var_u64_fast buf (i + 1) (shift + 7) val)
     else bind_result (get_unchecked buf (i - 1)) (\<lambda>b.
       Ok (val OR push_bit shift (ucast b AND 0x01), 10)))"
  by pat_completeness auto
termination by (relation "measure (\<lambda>(buf, i, shift, val). 10 - i)") auto

declare try_decode_var_u64_fast.simps [simp del]

text \<open>The slow path: \<open>i\<close> is the distance of \<open>ptr\<close>, which stops at the end of the slice.\<close>

function try_decode_var_u64_slow ::
  "bytes \<Rightarrow> nat \<Rightarrow> nat \<Rightarrow> u64 \<Rightarrow> (ErrorInner, u64 \<times> nat) result" where
  "try_decode_var_u64_slow buf i shift val =
    (if i < length buf \<and> buf ! i \<ge> 0x80
     then try_decode_var_u64_slow buf (i + 1) (shift + 7)
       (val OR push_bit shift (ucast (buf ! i AND 0x7f)))
     else if i \<ge> length buf then Err eof
     else Ok (val OR push_bit shift (ucast (buf ! i)), i + 1))"
  by pat_completeness auto
termination by (relation "measure (\<lambda>(buf, i, shift, val). length buf - i)") auto

declare try_decode_var_u64_slow.simps [simp del]

definition NumberCodec_try_decode_var_u64 :: "bytes \<Rightarrow> (ErrorInner, u64 \<times> nat) result" where
  "NumberCodec_try_decode_var_u64 buf =
    (if length buf \<ge> MAX_VARINT64_LENGTH then try_decode_var_u64_fast buf 1 0 0
     else try_decode_var_u64_slow buf 0 0 0)"

definition NumberCodec_encode_var_i64 :: "bytes \<Rightarrow> i64 \<Rightarrow> (ErrorInner, bytes \<times> nat) result" where
  "NumberCodec_encode_var_i64 buf v =
    (let uv = push_bit 1 v; uv = (if sint v < 0 then NOT uv else uv) in
     NumberCodec_encode_var_u64 buf uv)"

definition NumberCodec_try_decode_var_i64 :: "bytes \<Rightarrow> (ErrorInner, i64 \<times> nat) result" where
  "NumberCodec_try_decode_var_i64 buf =
    bind_result (NumberCodec_try_decode_var_u64 buf) (\<lambda>(uv, decoded_bytes).
      let v = drop_bit 1 uv in
      if uv AND 1 = 0 then Ok (v, decoded_bytes) else Ok (NOT v, decoded_bytes))"

text \<open>\<open>first_var_int_len_fast\<close> is the loop \<open>for i in 1..=9\<close>, with the unchecked reads.\<close>

function first_var_int_len_fast :: "bytes \<Rightarrow> nat \<Rightarrow> (ErrorInner, nat) result" where
  "first_var_int_len_fast buf i =
    (if i \<le> 9
     then bind_result (get_unchecked buf (i - 1)) (\<lambda>b.
       if b < 0x80 then Ok i else first_var_int_len_fast buf (i + 1))
     else Ok 10)"
  by pat_completeness auto
termination by (relation "measure (\<lambda>(buf, i). 10 - i)") auto

declare first_var_int_len_fast.simps [simp del]

function first_var_int_len_slow :: "bytes \<Rightarrow> nat \<Rightarrow> nat" where
  "first_var_int_len_slow buf i =
    (if i < length buf \<and> buf ! i \<ge> 0x80 then first_var_int_len_slow buf (i + 1)
     else if i \<ge> length buf then length buf
     else i + 1)"
  by pat_completeness auto
termination by (relation "measure (\<lambda>(buf, i). length buf - i)") auto

declare first_var_int_len_slow.simps [simp del]

definition NumberCodec_get_first_encoded_var_int_len :: "bytes \<Rightarrow> (ErrorInner, nat) result" where
  "NumberCodec_get_first_encoded_var_int_len buf =
    (if length buf \<ge> MAX_VARINT64_LENGTH then first_var_int_len_fast buf 1
     else Ok (first_var_int_len_slow buf 0))"

section \<open>NumberDecoder\<close>

text \<open>The macro \<open>read!\<close>.\<close>

definition read_macro ::
  "'s buffer_reader_ops \<Rightarrow> nat \<Rightarrow> (bytes \<Rightarrow> (ErrorInner, 'a) result) \<Rightarrow> 's \<Rightarrow> (ErrorInner, 'a \<times> 's) result" where
  "read_macro R sz f s = (let buf = br_bytes R s in
    if length buf < sz then Err eof
    else bind_result (f buf) (\<lambda>ret. bind_result (br_advance R s sz) (\<lambda>s. Ok (ret, s))))"

definition NumberDecoder_read_u8 :: "'s buffer_reader_ops \<Rightarrow> 's \<Rightarrow> (ErrorInner, byte \<times> 's) result" where
  "NumberDecoder_read_u8 R s = read_macro R 1 NumberCodec_decode_u8 s"

definition NumberDecoder_read_u16 :: "byteorder_api \<Rightarrow> 's buffer_reader_ops \<Rightarrow> 's \<Rightarrow> (ErrorInner, u16 \<times> 's) result" where
  "NumberDecoder_read_u16 bo R s = read_macro R 2 (NumberCodec_decode_u16 bo) s"

definition NumberDecoder_read_u32 :: "byteorder_api \<Rightarrow> 's buffer_reader_ops \<Rightarrow> 's \<Rightarrow> (ErrorInner, u32 \<times> 's) result" where
  "NumberDecoder_read_u32 bo R s = read_macro R 4 (NumberCodec_decode_u32 bo) s"

definition NumberDecoder_read_u64 :: "byteorder_api \<Rightarrow> 's buffer_reader_ops \<Rightarrow> 's \<Rightarrow> (ErrorInner, u64 \<times> 's) result" where
  "NumberDecoder_read_u64 bo R s = read_macro R 8 (NumberCodec_decode_u64 bo) s"

definition NumberDecoder_read_u64_desc :: "byteorder_api \<Rightarrow> 's buffer_reader_ops \<Rightarrow> 's \<Rightarrow> (ErrorInner, u64 \<times> 's) result" where
  "NumberDecoder_read_u64_desc bo R s = read_macro R 8 (NumberCodec_decode_u64_desc bo) s"

definition NumberDecoder_read_i64 :: "byteorder_api \<Rightarrow> 's buffer_reader_ops \<Rightarrow> 's \<Rightarrow> (ErrorInner, i64 \<times> 's) result" where
  "NumberDecoder_read_i64 bo R s = read_macro R 8 (NumberCodec_decode_i64 bo) s"

definition NumberDecoder_read_i64_desc :: "byteorder_api \<Rightarrow> 's buffer_reader_ops \<Rightarrow> 's \<Rightarrow> (ErrorInner, i64 \<times> 's) result" where
  "NumberDecoder_read_i64_desc bo R s = read_macro R 8 (NumberCodec_decode_i64_desc bo) s"

definition NumberDecoder_read_f64 :: "byteorder_api \<Rightarrow> 's buffer_reader_ops \<Rightarrow> 's \<Rightarrow> (ErrorInner, f64 \<times> 's) result" where
  "NumberDecoder_read_f64 bo R s = read_macro R 8 (NumberCodec_decode_f64 bo) s"

definition NumberDecoder_read_f64_desc :: "byteorder_api \<Rightarrow> 's buffer_reader_ops \<Rightarrow> 's \<Rightarrow> (ErrorInner, f64 \<times> 's) result" where
  "NumberDecoder_read_f64_desc bo R s = read_macro R 8 (NumberCodec_decode_f64_desc bo) s"

definition NumberDecoder_read_u16_le :: "byteorder_api \<Rightarrow> 's buffer_reader_ops \<Rightarrow> 's \<Rightarrow> (ErrorInner, u16 \<times> 's) result" where
  "NumberDecoder_read_u16_le bo R s = read_macro R 2 (NumberCodec_decode_u16_le bo) s"

definition NumberDecoder_read_i16_le :: "byteorder_api \<Rightarrow> 's buffer_reader_ops \<Rightarrow> 's \<Rightarrow> (ErrorInner, u16 \<times> 's) result" where
  "NumberDecoder_read_i16_le bo R s = read_macro R 2 (NumberCodec_decode_i16_le bo) s"

definition NumberDecoder_read_u32_le :: "byteorder_api \<Rightarrow> 's buffer_reader_ops \<Rightarrow> 's \<Rightarrow> (ErrorInner, u32 \<times> 's) result" where
  "NumberDecoder_read_u32_le bo R s = read_macro R 4 (NumberCodec_decode_u32_le bo) s"

definition NumberDecoder_read_i32_le :: "byteorder_api \<Rightarrow> 's buffer_reader_ops \<Rightarrow> 's \<Rightarrow> (ErrorInner, u32 \<times> 's) result" where
  "NumberDecoder_read_i32_le bo R s = read_macro R 4 (NumberCodec_decode_i32_le bo) s"

definition NumberDecoder_read_f32_le :: "byteorder_api \<Rightarrow> 's buffer_reader_ops \<Rightarrow> 's \<Rightarrow> (ErrorInner, u32 \<times> 's) result" where
  "NumberDecoder_read_f32_le bo R s = read_macro R 4 (NumberCodec_decode_f32_le bo) s"

definition NumberDecoder_read_u64_le :: "byteorder_api \<Rightarrow> 's buffer_reader_ops \<Rightarrow> 's \<Rightarrow> (ErrorInner, u64 \<times> 's) result" where
  "NumberDecoder_read_u64_le bo R s = read_macro R 8 (NumberCodec_decode_u64_le bo) s"

definition NumberDecoder_read_i64_le :: "byteorder_api \<Rightarrow> 's buffer_reader_ops \<Rightarrow> 's \<Rightarrow> (ErrorInner, i64 \<times> 's) result" where
  "NumberDecoder_read_i64_le bo R s = read_macro R 8 (NumberCodec_decode_i64_le bo) s"

definition NumberDecoder_read_f64_le :: "byteorder_api \<Rightarrow> 's buffer_reader_ops \<Rightarrow> 's \<Rightarrow> (ErrorInner, f64 \<times> 's) result" where
  "NumberDecoder_read_f64_le bo R s = read_macro R 8 (NumberCodec_decode_f64_le bo) s"

definition NumberDecoder_read_var_u64 :: "'s buffer_reader_ops \<Rightarrow> 's \<Rightarrow> (ErrorInner, u64 \<times> 's) result" where
  "NumberDecoder_read_var_u64 R s =
    bind_result (NumberCodec_try_decode_var_u64 (br_bytes R s)) (\<lambda>(v, decoded_bytes).
    bind_result (br_advance R s decoded_bytes) (\<lambda>s. Ok (v, s)))"

definition NumberDecoder_read_var_i64 :: "'s buffer_reader_ops \<Rightarrow> 's \<Rightarrow> (ErrorInner, i64 \<times> 's) result" where
  "NumberDecoder_read_var_i64 R s =
    bind_result (NumberCodec_try_decode_var_i64 (br_bytes R s)) (\<lambda>(v, decoded_bytes).
    bind_result (br_advance R s decoded_bytes) (\<lambda>s. Ok (v, s)))"

section \<open>NumberEncoder\<close>

text \<open>The macro \<open>write!\<close>.\<close>

definition write_macro ::
  "'s buffer_writer_ops \<Rightarrow> nat \<Rightarrow> (bytes \<Rightarrow> 'a \<Rightarrow> (ErrorInner, bytes) result) \<Rightarrow> 's \<Rightarrow> 'a \<Rightarrow> (ErrorInner, 's) result" where
  "write_macro W sz f s v = (let s = bw_bytes_mut W s sz; buf = bw_slice W s in
    if length buf < sz then Err eof
    else bind_result (f buf v) (\<lambda>buf. bw_advance_mut W (bw_store W s buf) sz))"

definition NumberEncoder_write_u8 :: "'s buffer_writer_ops \<Rightarrow> 's \<Rightarrow> byte \<Rightarrow> (ErrorInner, 's) result" where
  "NumberEncoder_write_u8 W s v = write_macro W 1 NumberCodec_encode_u8 s v"

definition NumberEncoder_write_u16 :: "byteorder_api \<Rightarrow> 's buffer_writer_ops \<Rightarrow> 's \<Rightarrow> u16 \<Rightarrow> (ErrorInner, 's) result" where
  "NumberEncoder_write_u16 bo W s v = write_macro W 2 (NumberCodec_encode_u16 bo) s v"

definition NumberEncoder_write_u32 :: "byteorder_api \<Rightarrow> 's buffer_writer_ops \<Rightarrow> 's \<Rightarrow> u32 \<Rightarrow> (ErrorInner, 's) result" where
  "NumberEncoder_write_u32 bo W s v = write_macro W 4 (NumberCodec_encode_u32 bo) s v"

definition NumberEncoder_write_u64 :: "byteorder_api \<Rightarrow> 's buffer_writer_ops \<Rightarrow> 's \<Rightarrow> u64 \<Rightarrow> (ErrorInner, 's) result" where
  "NumberEncoder_write_u64 bo W s v = write_macro W 8 (NumberCodec_encode_u64 bo) s v"

definition NumberEncoder_write_u64_desc :: "byteorder_api \<Rightarrow> 's buffer_writer_ops \<Rightarrow> 's \<Rightarrow> u64 \<Rightarrow> (ErrorInner, 's) result" where
  "NumberEncoder_write_u64_desc bo W s v = write_macro W 8 (NumberCodec_encode_u64_desc bo) s v"

definition NumberEncoder_write_i64 :: "byteorder_api \<Rightarrow> 's buffer_writer_ops \<Rightarrow> 's \<Rightarrow> i64 \<Rightarrow> (ErrorInner, 's) result" where
  "NumberEncoder_write_i64 bo W s v = write_macro W 8 (NumberCodec_encode_i64 bo) s v"

definition NumberEncoder_write_i64_desc :: "byteorder_api \<Rightarrow> 's buffer_writer_ops \<Rightarrow> 's \<Rightarrow> i64 \<Rightarrow> (ErrorInner, 's) result" where
  "NumberEncoder_write_i64_desc bo W s v = write_macro W 8 (NumberCodec_encode_i64_desc bo) s v"

definition NumberEncoder_write_f64 :: "byteorder_api \<Rightarrow> 's buffer_writer_ops \<Rightarrow> 's \<Rightarrow> f64 \<Rightarrow> (ErrorInner, 's) result" where
  "NumberEncoder_write_f64 bo W s v = write_macro W 8 (NumberCodec_encode_f64 bo) s v"

definition NumberEncoder_write_f64_desc :: "byteorder_api \<Rightarrow> 's buffer_writer_ops \<Rightarrow> 's \<Rightarrow> f64 \<Rightarrow> (ErrorInner, 's) result" where
  "NumberEncoder_write_f64_desc bo W s v = write_macro W 8 (NumberCodec_encode_f64_desc bo) s v"

definition NumberEncoder_write_u16_le :: "byteorder_api \<Rightarrow> 's buffer_writer_ops \<Rightarrow> 's \<Rightarrow> u16 \<Rightarrow> (ErrorInner, 's) result" where
  "NumberEncoder_write_u16_le bo W s v = write_macro W 2 (NumberCodec_encode_u16_le bo) s v"

definition NumberEncoder_write_u16_be :: "byteorder_api \<Rightarrow> 's buffer_writer_ops \<Rightarrow> 's \<Rightarrow> u16 \<Rightarrow> (ErrorInner, 's) result" where
  "NumberEncoder_write_u16_be bo W s v = NumberEncoder_write_u16 bo W s v"

definition NumberEncoder_write_i16_le :: "byteorder_api \<Rightarrow> 's buffer_writer_ops \<Rightarrow> 's \<Rightarrow> u16 \<Rightarrow> (ErrorInner, 's) result" where
  "NumberEncoder_write_i16_le bo W s v = write_macro W 2 (NumberCodec_encode_i16_le bo) s v"

definition NumberEncoder_write_u32_le :: "byteorder_api \<Rightarrow> 's buffer_writer_ops \<Rightarrow> 's \<Rightarrow> u32 \<Rightarrow> (ErrorInner, 's) result" where
  "NumberEncoder_write_u32_le bo W s v = write_macro W 4 (NumberCodec_encode_u32_le bo) s v"

definition NumberEncoder_write_u32_be :: "byteorder_api \<Rightarrow> 's buffer_writer_ops \<Rightarrow> 's \<Rightarrow> u32 \<Rightarrow> (ErrorInner, 's) result" where
  "NumberEncoder_write_u32_be bo W s v = NumberEncoder_write_u32 bo W s v"

definition NumberEncoder_write_i32_le :: "byteorder_api \<Rightarrow> 's buffer_writer_ops \<Rightarrow> 's \<Rightarrow> u32 \<Rightarrow> (ErrorInner, 's) result" where
  "NumberEncoder_write_i32_le bo W s v = write_macro W 4 (NumberCodec_encode_i32_le bo) s v"

definition NumberEncoder_write_f32_le :: "byteorder_api \<Rightarrow> 's buffer_writer_ops \<Rightarrow> 's \<Rightarrow> u32 \<Rightarrow> (ErrorInner, 's) result" where
  "NumberEncoder_write_f32_le bo W s v = write_macro W 4 (NumberCodec_encode_f32_le bo) s v"

definition NumberEncoder_write_u64_le :: "byteorder_api \<Rightarrow> 's buffer_writer_ops \<Rightarrow> 's \<Rightarrow> u64 \<Rightarrow> (ErrorInner, 's) result" where
  "NumberEncoder_write_u64_le bo W s v = write_macro W 8 (NumberCodec_encode_u64_le bo) s v"

definition NumberEncoder_write_i64_le :: "byteorder_api \<Rightarrow> 's buffer_writer_ops \<Rightarrow> 's \<Rightarrow> i64 \<Rightarrow> (ErrorInner, 's) result" where
  "NumberEncoder_write_i64_le bo W s v = write_macro W 8 (NumberCodec_encode_i64_le bo) s v"

definition NumberEncoder_write_f64_le :: "byteorder_api \<Rightarrow> 's buffer_writer_ops \<Rightarrow> 's \<Rightarrow> f64 \<Rightarrow> (ErrorInner, 's) result" where
  "NumberEncoder_write_f64_le bo W s v = write_macro W 8 (NumberCodec_encode_f64_le bo) s v"

definition NumberEncoder_write_var_u64 :: "'s buffer_writer_ops \<Rightarrow> 's \<Rightarrow> u64 \<Rightarrow> (ErrorInner, nat \<times> 's) result" where
  "NumberEncoder_write_var_u64 W s v = (let s = bw_bytes_mut W s MAX_VARINT64_LENGTH; buf = bw_slice W s in
    if length buf < MAX_VARINT64_LENGTH then Err eof
    else bind_result (NumberCodec_encode_var_u64 buf v) (\<lambda>(buf, encoded_bytes).
      bind_result (bw_advance_mut W (bw_store W s buf) encoded_bytes) (\<lambda>s. Ok (encoded_bytes, s))))"

definition NumberEncoder_write_var_i64 :: "'s buffer_writer_ops \<Rightarrow> 's \<Rightarrow> i64 \<Rightarrow> (ErrorInner, nat \<times> 's) result" where
  "NumberEncoder_write_var_i64 W s v = (let s = bw_bytes_mut W s MAX_VARINT64_LENGTH; buf = bw_slice W s in
    if length buf < MAX_VARINT64_LENGTH then Err eof
    else bind_result (NumberCodec_encode_var_i64 buf v) (\<lambda>(buf, encoded_bytes).
      bind_result (bw_advance_mut W (bw_store W s buf) encoded_bytes) (\<lambda>s. Ok (encoded_bytes, s))))"

section \<open>Variable-length integers\<close>

lemma var_byte_eq: "0x80 OR ucast (v AND 0x7f) = (ucast (v :: u64) OR 0x80 :: byte)"
  unfolding and_7f
  by (rule bit_word_eqI) (simp only: bit_or_iff bit_take_bit_iff bit_unsigned_iff bit_0x80, auto)

lemma encode_var_u64_ptr_eq:
  "i + length (var_bytes v) \<le> length buf \<Longrightarrow>
    encode_var_u64_ptr buf i v =
      Ok (take i buf @ var_bytes v @ drop (i + length (var_bytes v)) buf, i + length (var_bytes v))"
proof (induction v arbitrary: buf i rule: var_bytes.induct)
  case (1 v)
  show ?case
  proof (cases "v \<ge> 0x80")
    case True
    note vb = var_bytes.simps [of v]
    have i: "i < length buf" using "1.prems" True by (simp add: vb)
    let ?b = "ucast v OR 0x80 :: byte"
    have "encode_var_u64_ptr buf i v = encode_var_u64_ptr (buf[i := ?b]) (i + 1) (drop_bit 7 v)"
      using True i by (simp add: encode_var_u64_ptr.simps [of buf i v] var_byte_eq)
    also have "\<dots> = Ok (take (i + 1) (buf[i := ?b]) @ var_bytes (drop_bit 7 v) @
        drop (i + 1 + length (var_bytes (drop_bit 7 v))) (buf[i := ?b]),
        i + 1 + length (var_bytes (drop_bit 7 v)))"
      using "1.IH" [OF True, of "i + 1" "buf[i := ?b]"] "1.prems" True by (simp add: vb)
    finally show ?thesis
      using True i by (simp add: vb take_Suc_conv_app_nth)
  next
    case False
    then show ?thesis
      using "1.prems" by (simp add: var_bytes.simps [of v] encode_var_u64_ptr.simps [of buf i v]
        upd_conv_take_nth_drop)
  qed
qed

lemma encode_var_u64_slice:
  "10 \<le> length buf \<Longrightarrow> NumberCodec_encode_var_u64 buf v =
    Ok (var_bytes v @ drop (length (var_bytes v)) buf, length (var_bytes v))"
  using encode_var_u64_ptr_eq [of 0 v buf] var_bytes_length_10 [of v]
  by (auto simp: NumberCodec_encode_var_u64_def)

lemma encode_var_i64_slice:
  "10 \<le> length buf \<Longrightarrow> NumberCodec_encode_var_i64 buf v =
    Ok (var_bytes (zigzag v) @ drop (length (var_bytes (zigzag v))) buf, length (var_bytes (zigzag v)))"
  by (simp add: NumberCodec_encode_var_i64_def encode_var_u64_slice zigzag_def Let_def)

text \<open>What the decoder returns on any slice.\<close>

definition try_decode_var_spec :: "bytes \<Rightarrow> (ErrorInner, u64 \<times> nat) result" where
  "try_decode_var_spec buf =
    (let n = var_prefix buf in
     if length buf \<ge> 10 \<and> n \<ge> 9
     then Ok (var_value (take 9 buf) OR push_bit 63 (ucast (buf ! 9) AND 1), 10)
     else if n < length buf then Ok (var_value (take (Suc n) buf), Suc n)
     else Err eof)"

lemma ucast_low7:
  assumes "b < 0x80"
  shows "ucast (b :: byte) AND 0x7f = (ucast b :: u64)"
proof -
  have "unat (ucast b :: u64) = unat b"
    using unat_byte_less [of b] by (simp add: unsigned_ucast_eq take_bit_eq_mod)
  moreover have "unat b < 2 ^ 7" using assms by (simp add: word_less_nat_alt)
  ultimately have "unat (take_bit 7 (ucast b :: u64)) = unat (ucast b :: u64)"
    by (simp add: unsigned_take_bit_eq take_bit_nat_eq_self)
  then show ?thesis unfolding and_7f by (rule unsigned_word_eqI)
qed

lemma ucast_and_7f: "ucast ((b :: byte) AND 0x7f) = (ucast b AND 0x7f :: u64)"
  by (rule bit_word_eqI) (auto simp: bit_and_iff bit_ucast_iff dest: bit_imp_le_length)

lemma try_decode_slow_eq:
  assumes "i \<le> length buf"
  shows "try_decode_var_u64_slow buf i (i * 7) val =
    (let n = i + var_prefix (drop i buf) in
     if n < length buf then Ok (val OR push_bit (i * 7) (var_value (slice_of buf i (Suc n))), Suc n)
     else Err eof)"
  using assms
proof (induction "length buf - i" arbitrary: i val rule: less_induct)
  case less
  show ?case
  proof (cases "i < length buf")
    case True
    note sl = slice_of_step [OF True] and pf = var_prefix_step [OF True]
    show ?thesis
    proof (cases "buf ! i < 0x80")
      case b: True
      then have "\<not> 0x80 \<le> buf ! i" by simp
      then show ?thesis
        using True b by (simp add: try_decode_var_u64_slow.simps [of buf i] pf sl Let_def ucast_low7)
    next
      case b: False
      let ?val = "val OR push_bit (i * 7) (ucast (buf ! i) AND 0x7f)"
      have IH: "try_decode_var_u64_slow buf (i + 1) ((i + 1) * 7) ?val =
        (let n = i + 1 + var_prefix (drop (i + 1) buf) in
         if n < length buf then Ok (?val OR push_bit ((i + 1) * 7) (var_value (slice_of buf (i + 1) (Suc n))), Suc n)
         else Err eof)"
        using less.hyps [of "i + 1" ?val] True by simp
      have "try_decode_var_u64_slow buf i (i * 7) val = try_decode_var_u64_slow buf (i + 1) ((i + 1) * 7) ?val"
        using True b [unfolded not_less]
        by (simp add: try_decode_var_u64_slow.simps [of buf i] ucast_and_7f add.commute)
      then show ?thesis
        using IH push_bit_var_step [of val "i * 7" "buf ! i"] b
        by (simp add: pf sl Let_def add.commute)
    qed
  next
    case False
    with less.prems have "i = length buf" by simp
    then show ?thesis by (simp add: try_decode_var_u64_slow.simps [of buf "length buf"] var_prefix_def)
  qed
qed

lemma try_decode_fast_eq:
  assumes "i \<le> 9" "10 \<le> length buf"
  shows "try_decode_var_u64_fast buf (Suc i) (i * 7) val =
    (let n = i + var_prefix (drop i buf) in
     if n < 9 then Ok (val OR push_bit (i * 7) (var_value (slice_of buf i (Suc n))), Suc n)
     else Ok (val OR push_bit (i * 7) (var_value (slice_of buf i 9)) OR push_bit 63 (ucast (buf ! 9) AND 1), 10))"
  using assms(1)
proof (induction "9 - i" arbitrary: i val rule: less_induct)
  case less
  have len: "i < length buf" using less.prems assms(2) by simp
  note sl = slice_of_step [OF len] and pf = var_prefix_step [OF len]
  show ?case
  proof (cases "i < 9")
    case True
    show ?thesis
    proof (cases "buf ! i < 0x80")
      case b: True
      then show ?thesis
        using True len by (simp add: try_decode_var_u64_fast.simps [of buf "Suc i"] get_unchecked_def pf sl Let_def)
    next
      case b: False
      let ?val = "val OR push_bit (i * 7) (ucast (buf ! i) AND 0x7f)"
      let ?n = "i + 1 + var_prefix (drop (i + 1) buf)"
      have IH: "try_decode_var_u64_fast buf (Suc (i + 1)) ((i + 1) * 7) ?val =
         (if ?n < 9 then Ok (?val OR push_bit ((i + 1) * 7) (var_value (slice_of buf (i + 1) (Suc ?n))), Suc ?n)
          else Ok (?val OR push_bit ((i + 1) * 7) (var_value (slice_of buf (i + 1) 9)) OR push_bit 63 (ucast (buf ! 9) AND 1), 10))"
        using less.hyps [of "i + 1" ?val] True by (simp add: Let_def)
      have step: "try_decode_var_u64_fast buf (Suc i) (i * 7) val = try_decode_var_u64_fast buf (Suc (i + 1)) ((i + 1) * 7) ?val"
        using True b len by (simp add: try_decode_var_u64_fast.simps [of buf "Suc i"] get_unchecked_def Let_def add.commute)
      have sl9: "slice_of buf i 9 = buf ! i # slice_of buf (Suc i) 9" using sl [of 8] True by simp
      show ?thesis
        unfolding step IH using push_bit_var_step [of val "i * 7" "buf ! i"] b
        by (simp add: pf sl sl9 Let_def add.commute or.assoc)
    qed
  next
    case False
    with less.prems have "i = 9" by simp
    then show ?thesis
      using assms(2) by (simp add: try_decode_var_u64_fast.simps [of buf 10] get_unchecked_def slice_of_def Let_def)
  qed
qed

lemma try_decode_var_u64_eq_spec: "NumberCodec_try_decode_var_u64 buf = try_decode_var_spec buf"
  using try_decode_fast_eq [of 0 buf 0] try_decode_slow_eq [of 0 buf 0]
  by (auto simp: NumberCodec_try_decode_var_u64_def try_decode_var_spec_def slice_of_def Let_def not_less)

lemma var_value_append: "var_value (xs @ ys) = var_value xs OR push_bit (7 * length xs) (var_value ys)"
  by (induction xs) (simp_all add: push_bit_or or.assoc del: push_bit_and)

lemma and_7f_small: "b \<le> 1 \<Longrightarrow> ucast b AND (0x7f :: u64) = ucast (b :: byte) AND 1"
proof -
  assume "b \<le> 1"
  then have "b = 0 \<or> b = 1" by (simp add: word_le_nat_alt) (metis le_Suc_eq le_zero_eq One_nat_def unsigned_1 unsigned_0 unsigned_word_eqI)
  then show ?thesis by auto
qed

text \<open>The decoder against the one of \<open>einsteindb_util\<close>.\<close>

lemma try_decode_var_u64_vs_decode:
  "case decode_var_u64 buf of
     Ok (v, rest) \<Rightarrow> NumberCodec_try_decode_var_u64 buf = Ok (v, length buf - length rest)
   | Err (Io UnexpectedEof) \<Rightarrow> NumberCodec_try_decode_var_u64 buf = Err eof
   | Err (Io InvalidData) \<Rightarrow> (\<exists>v. NumberCodec_try_decode_var_u64 buf = Ok (v, 10))
   | _ \<Rightarrow> False"
proof -
  let ?n = "var_prefix buf"
  consider (short) "?n < length buf" "?n < 9" | (ten) "?n < length buf" "?n = 9" "buf ! 9 \<le> 1"
    | (eof) "length buf < 10" "\<not> ?n < length buf"
    | (over) "10 \<le> length buf" "9 \<le> ?n" "\<not> (?n < length buf \<and> ?n = 9 \<and> buf ! 9 \<le> 1)"
    by linarith
  then show ?thesis
  proof cases
    case short
    then show ?thesis
      by (simp add: decode_var_u64_eq_spec decode_var_spec_def try_decode_var_u64_eq_spec try_decode_var_spec_def Let_def)
  next
    case ten
    then have "take 10 buf = take 9 buf @ [buf ! 9]" using take_Suc_conv_app_nth [of 9 buf] by simp
    then have "var_value (take 10 buf) = var_value (take 9 buf) OR push_bit 63 (ucast (buf ! 9) AND 1)"
      using ten by (simp only: var_value_append and_7f_small) (simp add: and_7f_small)
    then show ?thesis using ten
      by (simp add: decode_var_u64_eq_spec decode_var_spec_def try_decode_var_u64_eq_spec try_decode_var_spec_def Let_def)
  next
    case eof
    then show ?thesis using var_prefix_le [of buf]
      by (simp add: decode_var_u64_eq_spec decode_var_spec_def try_decode_var_u64_eq_spec try_decode_var_spec_def Let_def)
  next
    case over
    then show ?thesis
      by (auto simp: decode_var_u64_eq_spec decode_var_spec_def try_decode_var_u64_eq_spec try_decode_var_spec_def Let_def)
  qed
qed

lemma try_decode_var_u64_var_bytes: "NumberCodec_try_decode_var_u64 (var_bytes v @ r) = Ok (v, length (var_bytes v))"
  using try_decode_var_u64_vs_decode [of "var_bytes v @ r"] by (simp add: decode_var_u64_var_bytes)

lemma try_decode_var_i64_vs_u64:
  "NumberCodec_try_decode_var_i64 buf =
    result_map (\<lambda>(uv, n). (if uv AND 1 = 0 then drop_bit 1 uv else NOT (drop_bit 1 uv), n))
      (NumberCodec_try_decode_var_u64 buf)"
  by (cases "NumberCodec_try_decode_var_u64 buf") (auto simp: NumberCodec_try_decode_var_i64_def Let_def)

lemma try_decode_var_i64_zigzag:
  "NumberCodec_try_decode_var_i64 (var_bytes (zigzag v) @ r) = Ok (v, length (var_bytes (zigzag v)))"
proof -
  have "decode_var_i64 (var_bytes (zigzag v) @ r) = Ok (v, r)" by (rule decode_var_i64_zigzag)
  then show ?thesis
    by (simp add: decode_var_i64_def decode_var_u64_var_bytes try_decode_var_i64_vs_u64
        try_decode_var_u64_var_bytes Let_def split: if_splits)
qed

lemma first_len_fast_eq:
  assumes "i \<le> 9" "10 \<le> length buf"
  shows "first_var_int_len_fast buf (Suc i) = Ok (min 10 (Suc (i + var_prefix (drop i buf))))"
  using assms(1)
proof (induction "9 - i" arbitrary: i rule: less_induct)
  case less
  have len: "i < length buf" using less.prems assms(2) by simp
  note pf = var_prefix_step [OF len]
  show ?case
  proof (cases "i < 9")
    case True
    then show ?thesis
      using less.hyps [of "Suc i"] len
      by (simp add: first_var_int_len_fast.simps [of buf "Suc i"] get_unchecked_def pf)
  next
    case False
    with less.prems have "i = 9" by simp
    then show ?thesis by (simp add: first_var_int_len_fast.simps [of buf 10])
  qed
qed

lemma first_len_slow_eq:
  "i \<le> length buf \<Longrightarrow> first_var_int_len_slow buf i = min (length buf) (Suc (i + var_prefix (drop i buf)))"
proof (induction "length buf - i" arbitrary: i rule: less_induct)
  case less
  show ?case
  proof (cases "i < length buf")
    case True
    note pf = var_prefix_step [OF True]
    show ?thesis
      using less.hyps [of "Suc i"] True pf
      by (cases "buf ! i < 0x80") (auto simp: first_var_int_len_slow.simps [of buf i] not_less not_le)
  next
    case False
    with less.prems have "i = length buf" by simp
    then show ?thesis by (simp add: first_var_int_len_slow.simps [of buf "length buf"] var_prefix_def)
  qed
qed

lemma first_encoded_var_int_len_eq:
  "NumberCodec_get_first_encoded_var_int_len buf =
    Ok (min (if length buf \<ge> 10 then 10 else length buf) (Suc (var_prefix buf)))"
  using first_len_fast_eq [of 0 buf] first_len_slow_eq [of 0 buf]
  by (simp add: NumberCodec_get_first_encoded_var_int_len_def)

section \<open>Fixed-width numbers\<close>

lemma convert_eq:
  "encode_i64_to_comparable_u64 = order_encode_i64" "decode_comparable_u64_to_i64 = order_decode_i64"
  "encode_f64_to_comparable_u64 = order_encode_f64" "decode_comparable_u64_to_f64 = order_decode_f64"
  by (simp_all add: fun_eq_iff CONVERT_SIGN_MARK_def SIGN_MARK_def encode_i64_to_comparable_u64_def
      order_encode_i64_def decode_comparable_u64_to_i64_def order_decode_i64_def
      encode_f64_to_comparable_u64_def order_encode_f64_def decode_comparable_u64_to_f64_def
      order_decode_f64_def)

text \<open>
  What the traits rely on for each type: the encoder stores a code of fixed width at the front of the
  slice, and panics if there is no room; the decoder reads it back whatever follows.
\<close>

locale slice_code =
  fixes sz :: nat and enc :: "bytes \<Rightarrow> 'a \<Rightarrow> (ErrorInner, bytes) result"
    and dec :: "bytes \<Rightarrow> (ErrorInner, 'a) result" and code :: "'a \<Rightarrow> bytes"
  assumes length_code: "length (code v) = sz"
    and enc_room: "sz \<le> length buf \<Longrightarrow> enc buf v = Ok (code v @ drop sz buf)"
    and enc_short: "length buf < sz \<Longrightarrow> enc buf v = Panic"
    and dec_code: "dec (code v @ r) = Ok v"
    and dec_short: "length buf < sz \<Longrightarrow> dec buf = Panic"

interpretation u8_code: slice_code 1 NumberCodec_encode_u8 NumberCodec_decode_u8 "\<lambda>v. [v]"
  by unfold_locales (auto simp: NumberCodec_encode_u8_def NumberCodec_decode_u8_def neq_Nil_conv Suc_le_length_iff)

text \<open>Every type of \<open>NumberCodec\<close> has such a code.\<close>

lemma slice_code_put_get:
  assumes "\<And>v. length (wr v) = sz" "\<And>v r. rd (wr v @ r) = v"
  shows "slice_code sz (\<lambda>buf v. slice_put sz (wr v) buf) (slice_get sz rd) wr"
  using assms by unfold_locales (auto simp: slice_put_def slice_get_def)

lemma slice_code_via:
  assumes "slice_code sz enc dec code" "\<And>v. back (conv v) = v"
  shows "slice_code sz (\<lambda>buf v. enc buf (conv v)) (\<lambda>buf. result_map back (dec buf)) (\<lambda>v. code (conv v))"
  using assms unfolding slice_code_def by simp

lemma little_endian_slice_code:
  "little_endian n wr rd \<Longrightarrow> slice_code n (\<lambda>buf v. slice_put n (wr v) buf) (slice_get n rd) wr"
  by (rule slice_code_put_get) (simp_all add: little_endian.le_length_wr little_endian.le_rd_wr)

lemma big_endian_slice_code:
  "big_endian n wr rd \<Longrightarrow> slice_code n (\<lambda>buf v. slice_put n (wr v) buf) (slice_get n rd) wr"
  by (rule slice_code_put_get) (simp_all add: big_endian.length_wr big_endian.rd_wr)

lemma bind_result_as_map: "bind_result r (\<lambda>x. Ok (f x)) = result_map f r"
  by (cases r) simp_all

context byteorder
begin

lemma u16_code: "slice_code 2 (NumberCodec_encode_u16 bo) (NumberCodec_decode_u16 bo) (bo_be_write_u16 bo)"
  unfolding NumberCodec_encode_u16_def [abs_def] NumberCodec_decode_u16_def [abs_def]
  by (rule big_endian_slice_code [OF be_u16])

lemma u32_code: "slice_code 4 (NumberCodec_encode_u32 bo) (NumberCodec_decode_u32 bo) (bo_be_write_u32 bo)"
  unfolding NumberCodec_encode_u32_def [abs_def] NumberCodec_decode_u32_def [abs_def]
  by (rule big_endian_slice_code [OF be_u32])

lemma u64_code: "slice_code 8 (NumberCodec_encode_u64 bo) (NumberCodec_decode_u64 bo) (bo_be_write_u64 bo)"
  unfolding NumberCodec_encode_u64_def [abs_def] NumberCodec_decode_u64_def [abs_def]
  by (rule big_endian_slice_code [OF be_u64])

lemma u16_le_code: "slice_code 2 (NumberCodec_encode_u16_le bo) (NumberCodec_decode_u16_le bo) (bo_le_write_u16 bo)"
  unfolding NumberCodec_encode_u16_le_def [abs_def] NumberCodec_decode_u16_le_def [abs_def]
  by (rule little_endian_slice_code [OF le_u16])

lemma i16_le_code: "slice_code 2 (NumberCodec_encode_i16_le bo) (NumberCodec_decode_i16_le bo) (bo_le_write_i16 bo)"
  unfolding NumberCodec_encode_i16_le_def [abs_def] NumberCodec_decode_i16_le_def [abs_def]
  by (rule little_endian_slice_code [OF le_i16])

lemma f32_le_code: "slice_code 4 (NumberCodec_encode_f32_le bo) (NumberCodec_decode_f32_le bo) (bo_le_write_f32 bo)"
  unfolding NumberCodec_encode_f32_le_def [abs_def] NumberCodec_decode_f32_le_def [abs_def]
  by (rule little_endian_slice_code [OF le_f32])

lemma u32_le_code: "slice_code 4 (NumberCodec_encode_u32_le bo) (NumberCodec_decode_u32_le bo) (bo_le_write_u32 bo)"
  unfolding NumberCodec_encode_u32_le_def [abs_def] NumberCodec_decode_u32_le_def [abs_def]
  by (rule little_endian_slice_code [OF le_u32])

lemma i32_le_code: "slice_code 4 (NumberCodec_encode_i32_le bo) (NumberCodec_decode_i32_le bo) (bo_le_write_i32 bo)"
  unfolding NumberCodec_encode_i32_le_def [abs_def] NumberCodec_decode_i32_le_def [abs_def]
  by (rule little_endian_slice_code [OF le_i32])

lemma u64_le_code: "slice_code 8 (NumberCodec_encode_u64_le bo) (NumberCodec_decode_u64_le bo) (bo_le_write_u64 bo)"
  unfolding NumberCodec_encode_u64_le_def [abs_def] NumberCodec_decode_u64_le_def [abs_def]
  by (rule little_endian_slice_code [OF le_u64])

lemma i64_le_code: "slice_code 8 (NumberCodec_encode_i64_le bo) (NumberCodec_decode_i64_le bo) (bo_le_write_i64 bo)"
  unfolding NumberCodec_encode_i64_le_def [abs_def] NumberCodec_decode_i64_le_def [abs_def]
  by (rule little_endian_slice_code [OF le_i64])

lemma f64_le_code: "slice_code 8 (NumberCodec_encode_f64_le bo) (NumberCodec_decode_f64_le bo) (bo_le_write_f64 bo)"
  unfolding NumberCodec_encode_f64_le_def [abs_def] NumberCodec_decode_f64_le_def [abs_def]
  by (rule little_endian_slice_code [OF le_f64])

lemma u64_desc_code: "slice_code 8 (NumberCodec_encode_u64_desc bo) (NumberCodec_decode_u64_desc bo) (\<lambda>v. bo_be_write_u64 bo (NOT v))"
  unfolding NumberCodec_encode_u64_desc_def [abs_def] NumberCodec_decode_u64_desc_def [abs_def]
  by (rule slice_code_via [OF u64_code]; simp)

lemma i64_code: "slice_code 8 (NumberCodec_encode_i64 bo) (NumberCodec_decode_i64 bo) (\<lambda>v. bo_be_write_u64 bo (order_encode_i64 v))"
  unfolding NumberCodec_encode_i64_def [abs_def] NumberCodec_decode_i64_def [abs_def] Let_def bind_result_as_map convert_eq
  by (rule slice_code_via [OF u64_code]) (rule order_decode_encode_i64)

lemma i64_desc_code: "slice_code 8 (NumberCodec_encode_i64_desc bo) (NumberCodec_decode_i64_desc bo) (\<lambda>v. bo_be_write_u64 bo (NOT (order_encode_i64 v)))"
  unfolding NumberCodec_encode_i64_desc_def [abs_def] NumberCodec_decode_i64_desc_def [abs_def] Let_def bind_result_as_map convert_eq
  by (rule slice_code_via [OF u64_desc_code]) (rule order_decode_encode_i64)

lemma f64_code: "slice_code 8 (NumberCodec_encode_f64 bo) (NumberCodec_decode_f64 bo) (\<lambda>v. bo_be_write_u64 bo (order_encode_f64 v))"
  unfolding NumberCodec_encode_f64_def [abs_def] NumberCodec_decode_f64_def [abs_def] Let_def bind_result_as_map convert_eq
  by (rule slice_code_via [OF u64_code]) (rule order_decode_encode_f64)

lemma f64_desc_code: "slice_code 8 (NumberCodec_encode_f64_desc bo) (NumberCodec_decode_f64_desc bo) (\<lambda>v. bo_be_write_u64 bo (NOT (order_encode_f64 v)))"
  unfolding NumberCodec_encode_f64_desc_def [abs_def] NumberCodec_decode_f64_desc_def [abs_def] Let_def bind_result_as_map convert_eq
  by (rule slice_code_via [OF u64_desc_code]) (rule order_decode_encode_f64)

end

section \<open>The traits over any reader and writer\<close>

context buffer_reader
begin

lemma read_macro_code:
  assumes "slice_code sz enc dec code" "inv s" "br_bytes R s = code v @ r"
  shows "\<exists>s'. read_macro R sz dec s = Ok (v, s') \<and> inv s' \<and> br_bytes R s' = r"
  using advance [OF assms(2), of sz] assms(3) slice_code.dec_code [OF assms(1), of v r]
    slice_code.length_code [OF assms(1), of v]
  by (auto simp: read_macro_def Let_def)

lemma read_macro_short: "length (br_bytes R s) < sz \<Longrightarrow> read_macro R sz dec s = Err eof"
  by (simp add: read_macro_def)

lemma read_var_written:
  assumes "inv s"
  shows "br_bytes R s = var_bytes u @ r \<Longrightarrow>
      \<exists>s'. NumberDecoder_read_var_u64 R s = Ok (u, s') \<and> inv s' \<and> br_bytes R s' = r"
    "br_bytes R s = var_bytes (zigzag v) @ r \<Longrightarrow>
      \<exists>s'. NumberDecoder_read_var_i64 R s = Ok (v, s') \<and> inv s' \<and> br_bytes R s' = r"
  using advance [OF assms, of "length (var_bytes u)"] advance [OF assms, of "length (var_bytes (zigzag v))"]
  by (auto simp: NumberDecoder_read_var_u64_def NumberDecoder_read_var_i64_def try_decode_var_u64_var_bytes
      try_decode_var_i64_zigzag)

end

context buffer_writer
begin

lemma write_macro_code:
  assumes "slice_code sz enc dec code" "inv s" "sz \<le> length (bw_slice W (bw_bytes_mut W s sz))"
  shows "\<exists>s'. write_macro W sz enc s v = Ok s' \<and> inv s' \<and> written s' = written s @ code v"
  using fill_and_advance [OF assms(2), of "code v" "drop sz (bw_slice W (bw_bytes_mut W s sz))" sz]
    slice_code.enc_room [OF assms(1,3), of v] slice_code.length_code [OF assms(1), of v] assms(3)
  by (simp add: write_macro_def Let_def)

lemma write_macro_short:
  "length (bw_slice W (bw_bytes_mut W s sz)) < sz \<Longrightarrow> write_macro W sz enc s v = Err eof"
  by (simp add: write_macro_def)

lemma write_var:
  assumes "inv s" "10 \<le> length (bw_slice W (bw_bytes_mut W s 10))"
  shows "\<exists>s'. NumberEncoder_write_var_u64 W s u = Ok (length (var_bytes u), s') \<and> inv s' \<and>
      written s' = written s @ var_bytes u"
    "\<exists>s'. NumberEncoder_write_var_i64 W s v = Ok (length (var_bytes (zigzag v)), s') \<and> inv s' \<and>
      written s' = written s @ var_bytes (zigzag v)"
proof -
  let ?buf = "bw_slice W (bw_bytes_mut W s 10)"
  have f: "\<exists>s'. bw_advance_mut W (bw_store W (bw_bytes_mut W s 10)
      (var_bytes x @ drop (length (var_bytes x)) ?buf)) (length (var_bytes x)) = Ok s' \<and>
      inv s' \<and> written s' = written s @ var_bytes x" for x
    using fill_and_advance [OF assms(1), of "var_bytes x" "drop (length (var_bytes x)) ?buf" 10]
      var_bytes_length_10 [of x] assms(2) by auto
  show "\<exists>s'. NumberEncoder_write_var_u64 W s u = Ok (length (var_bytes u), s') \<and> inv s' \<and>
      written s' = written s @ var_bytes u"
    using f [of u] assms(2) by (auto simp: NumberEncoder_write_var_u64_def encode_var_u64_slice Let_def)
  show "\<exists>s'. NumberEncoder_write_var_i64 W s v = Ok (length (var_bytes (zigzag v)), s') \<and> inv s' \<and>
      written s' = written s @ var_bytes (zigzag v)"
    using f [of "zigzag v"] assms(2) by (auto simp: NumberEncoder_write_var_i64_def encode_var_i64_slice Let_def)
qed

end

section \<open>Properties\<close>


text \<open>
  \<open>get_first_encoded_var_int_len\<close> is the number of bytes the decoder consumes, and the length of the
  slice when the decoder runs out of input.
\<close>

theorem first_var_int_len_is_consumed:
  "case NumberCodec_try_decode_var_u64 buf of
     Ok (v, n) \<Rightarrow> NumberCodec_get_first_encoded_var_int_len buf = Ok n \<and> n \<le> length buf
   | _ \<Rightarrow> NumberCodec_get_first_encoded_var_int_len buf = Ok (length buf)"
  using var_prefix_le [of buf]
  by (auto simp: try_decode_var_u64_eq_spec try_decode_var_spec_def first_encoded_var_int_len_eq Let_def min_def)

text \<open>
  \<open>codes_through\<close>: writing a value appends a code of \<open>sz\<close> bytes when the writer has that much
  room, and fails with an end of input when it has not; a reader standing at that code reads the value
  back and stops behind it; a reader with fewer bytes left reports the end of input.
\<close>

definition codes_through ::
  "'w buffer_writer_ops \<Rightarrow> ('w \<Rightarrow> bool) \<Rightarrow> ('w \<Rightarrow> bytes) \<Rightarrow> 'r buffer_reader_ops \<Rightarrow> ('r \<Rightarrow> bool) \<Rightarrow> nat \<Rightarrow>
    ('w \<Rightarrow> 'a \<Rightarrow> (ErrorInner, 'w) result) \<Rightarrow> ('r \<Rightarrow> (ErrorInner, 'a \<times> 'r) result) \<Rightarrow> bool" where
  "codes_through W wok written R rok sz wr rd \<longleftrightarrow>
    (\<forall>s v. wok s \<longrightarrow>
      (if sz \<le> length (bw_slice W (bw_bytes_mut W s sz))
       then \<exists>s' c. wr s v = Ok s' \<and> wok s' \<and> written s' = written s @ c \<and> length c = sz \<and>
         (\<forall>r rest. rok r \<and> br_bytes R r = c @ rest \<longrightarrow>
           (\<exists>r'. rd r = Ok (v, r') \<and> rok r' \<and> br_bytes R r' = rest))
       else wr s v = Err eof)) \<and>
    (\<forall>r. rok r \<and> length (br_bytes R r) < sz \<longrightarrow> rd r = Err eof)"

lemma slice_code_through:
  assumes "slice_code sz enc dec code" "buffer_writer W wok written" "buffer_reader R rok"
  shows "codes_through W wok written R rok sz (write_macro W sz enc) (read_macro R sz dec)"
proof -
  have "\<exists>s' c. write_macro W sz enc s v = Ok s' \<and> wok s' \<and> written s' = written s @ c \<and> length c = sz \<and>
      (\<forall>r rest. rok r \<and> br_bytes R r = c @ rest \<longrightarrow>
        (\<exists>r'. read_macro R sz dec r = Ok (v, r') \<and> rok r' \<and> br_bytes R r' = rest))"
    if "wok s" "sz \<le> length (bw_slice W (bw_bytes_mut W s sz))" for s v
    using buffer_writer.write_macro_code [OF assms(2,1) that, of v]
      buffer_reader.read_macro_code [OF assms(3,1)] slice_code.length_code [OF assms(1)] by metis
  then show ?thesis
    using buffer_writer.write_macro_short [OF assms(2)] buffer_reader.read_macro_short [OF assms(3)]
    unfolding codes_through_def by (auto simp: not_le)
qed

text \<open>
  Every fixed-width number goes through every writer and reader: what \<open>NumberEncoder\<close> writes,
  \<open>NumberDecoder\<close> reads, for any buffers that keep the contract of \<open>BufferWriter\<close> and
  \<open>BufferReader\<close>.
\<close>

theorem numbers_through_buffers:
  assumes "byteorder bo" "buffer_writer W wok written" "buffer_reader R rok"
  shows "codes_through W wok written R rok 1 (NumberEncoder_write_u8 W) (NumberDecoder_read_u8 R) \<and>
    codes_through W wok written R rok 2 (NumberEncoder_write_u16 bo W) (NumberDecoder_read_u16 bo R) \<and>
    codes_through W wok written R rok 4 (NumberEncoder_write_u32 bo W) (NumberDecoder_read_u32 bo R) \<and>
    codes_through W wok written R rok 8 (NumberEncoder_write_u64 bo W) (NumberDecoder_read_u64 bo R) \<and>
    codes_through W wok written R rok 8 (NumberEncoder_write_u64_desc bo W) (NumberDecoder_read_u64_desc bo R) \<and>
    codes_through W wok written R rok 8 (NumberEncoder_write_i64 bo W) (NumberDecoder_read_i64 bo R) \<and>
    codes_through W wok written R rok 8 (NumberEncoder_write_i64_desc bo W) (NumberDecoder_read_i64_desc bo R) \<and>
    codes_through W wok written R rok 8 (NumberEncoder_write_f64 bo W) (NumberDecoder_read_f64 bo R) \<and>
    codes_through W wok written R rok 8 (NumberEncoder_write_f64_desc bo W) (NumberDecoder_read_f64_desc bo R) \<and>
    codes_through W wok written R rok 2 (NumberEncoder_write_u16_le bo W) (NumberDecoder_read_u16_le bo R) \<and>
    codes_through W wok written R rok 2 (NumberEncoder_write_i16_le bo W) (NumberDecoder_read_i16_le bo R) \<and>
    codes_through W wok written R rok 4 (NumberEncoder_write_u32_le bo W) (NumberDecoder_read_u32_le bo R) \<and>
    codes_through W wok written R rok 4 (NumberEncoder_write_i32_le bo W) (NumberDecoder_read_i32_le bo R) \<and>
    codes_through W wok written R rok 4 (NumberEncoder_write_f32_le bo W) (NumberDecoder_read_f32_le bo R) \<and>
    codes_through W wok written R rok 8 (NumberEncoder_write_u64_le bo W) (NumberDecoder_read_u64_le bo R) \<and>
    codes_through W wok written R rok 8 (NumberEncoder_write_i64_le bo W) (NumberDecoder_read_i64_le bo R) \<and>
    codes_through W wok written R rok 8 (NumberEncoder_write_f64_le bo W) (NumberDecoder_read_f64_le bo R)"
proof -
  note th = slice_code_through [OF _ assms(2,3)]
  show ?thesis
    unfolding NumberEncoder_write_u8_def [abs_def] NumberDecoder_read_u8_def [abs_def]
      NumberEncoder_write_u16_def [abs_def] NumberDecoder_read_u16_def [abs_def]
      NumberEncoder_write_u32_def [abs_def] NumberDecoder_read_u32_def [abs_def]
      NumberEncoder_write_u64_def [abs_def] NumberDecoder_read_u64_def [abs_def]
      NumberEncoder_write_u64_desc_def [abs_def] NumberDecoder_read_u64_desc_def [abs_def]
      NumberEncoder_write_i64_def [abs_def] NumberDecoder_read_i64_def [abs_def]
      NumberEncoder_write_i64_desc_def [abs_def] NumberDecoder_read_i64_desc_def [abs_def]
      NumberEncoder_write_f64_def [abs_def] NumberDecoder_read_f64_def [abs_def]
      NumberEncoder_write_f64_desc_def [abs_def] NumberDecoder_read_f64_desc_def [abs_def]
      NumberEncoder_write_u16_le_def [abs_def] NumberDecoder_read_u16_le_def [abs_def]
      NumberEncoder_write_i16_le_def [abs_def] NumberDecoder_read_i16_le_def [abs_def]
      NumberEncoder_write_u32_le_def [abs_def] NumberDecoder_read_u32_le_def [abs_def]
      NumberEncoder_write_i32_le_def [abs_def] NumberDecoder_read_i32_le_def [abs_def]
      NumberEncoder_write_f32_le_def [abs_def] NumberDecoder_read_f32_le_def [abs_def]
      NumberEncoder_write_u64_le_def [abs_def] NumberDecoder_read_u64_le_def [abs_def]
      NumberEncoder_write_i64_le_def [abs_def] NumberDecoder_read_i64_le_def [abs_def]
      NumberEncoder_write_f64_le_def [abs_def] NumberDecoder_read_f64_le_def [abs_def]
    by (intro conjI th [OF u8_code.slice_code_axioms]
      th [OF byteorder.u16_code [OF assms(1)]] th [OF byteorder.u32_code [OF assms(1)]]
      th [OF byteorder.u64_code [OF assms(1)]] th [OF byteorder.u64_desc_code [OF assms(1)]]
      th [OF byteorder.i64_code [OF assms(1)]] th [OF byteorder.i64_desc_code [OF assms(1)]]
      th [OF byteorder.f64_code [OF assms(1)]] th [OF byteorder.f64_desc_code [OF assms(1)]]
      th [OF byteorder.u16_le_code [OF assms(1)]] th [OF byteorder.i16_le_code [OF assms(1)]]
      th [OF byteorder.u32_le_code [OF assms(1)]] th [OF byteorder.i32_le_code [OF assms(1)]]
      th [OF byteorder.f32_le_code [OF assms(1)]] th [OF byteorder.u64_le_code [OF assms(1)]]
      th [OF byteorder.i64_le_code [OF assms(1)]] th [OF byteorder.f64_le_code [OF assms(1)]])
qed

theorem numbers_through_buffers_witness:
  "codes_through (Vec_writer zero_grow) (\<lambda>_. True) vec_data Cursor_reader cursor_ok 8
    (NumberEncoder_write_i64_desc std_byteorder (Vec_writer zero_grow))
    (NumberDecoder_read_i64_desc std_byteorder Cursor_reader)"
  using numbers_through_buffers [OF byteorder_std zero_alloc.buffer_writer_axioms Cursor_rd.buffer_reader_axioms]
  by simp

text \<open>
  Both crates write the same bytes: into a slice with room, \<open>NumberCodec\<close> stores what
  \<open>einsteindb_util\<close> appends, so keys made by either compare and decode alike.
\<close>

theorem number_encoders_agree:
  assumes "8 \<le> length buf"
  shows "NumberCodec_encode_u16 bo buf a = Ok (encode_u16 bo [] a @ drop 2 buf) \<and>
    NumberCodec_encode_u32 bo buf b = Ok (encode_u32 bo [] b @ drop 4 buf) \<and>
    NumberCodec_encode_u64 bo buf u = Ok (encode_u64 bo [] u @ drop 8 buf) \<and>
    NumberCodec_encode_u64_desc bo buf u = Ok (encode_u64_desc bo [] u @ drop 8 buf) \<and>
    NumberCodec_encode_i64 bo buf i = Ok (encode_i64 bo [] i @ drop 8 buf) \<and>
    NumberCodec_encode_i64_desc bo buf i = Ok (encode_i64_desc bo [] i @ drop 8 buf) \<and>
    NumberCodec_encode_f64 bo buf f = Ok (encode_f64 bo [] f @ drop 8 buf) \<and>
    NumberCodec_encode_f64_desc bo buf f = Ok (encode_f64_desc bo [] f @ drop 8 buf)"
  using assms
  by (simp add: NumberCodec_encode_u16_def NumberCodec_encode_u32_def NumberCodec_encode_u64_def
      NumberCodec_encode_u64_desc_def NumberCodec_encode_i64_def NumberCodec_encode_i64_desc_def
      NumberCodec_encode_f64_def NumberCodec_encode_f64_desc_def slice_put_def convert_eq
      encode_u16_def encode_u32_def encode_u64_def encode_u64_desc_def encode_i64_def
      encode_i64_desc_def encode_f64_def encode_f64_desc_def)

theorem number_encoders_agree_witness:
  "8 \<le> length (replicate 9 0 :: bytes) \<and>
    NumberCodec_encode_i64 std_byteorder (replicate 9 0) (- 5) = Ok (encode_i64 std_byteorder [] (- 5) @ [0])"
  using number_encoders_agree [of "replicate 9 0" std_byteorder 0 0 0 "- 5" 0] by simp

end
