(* ===== verification/Fact_Byte.thy ===== *)
theory Fact_Byte
  imports Fact_Number
begin

text \<open>
  The byte-string codec of the crate \<open>codec\<close> (\<open>language_fact/src/byte.rs\<close>):
  \<open>MemComparableByteCodec\<close> with its in-place variants, \<open>CompactByteCodec\<close>, and the traits over
  buffers. Code that works through raw pointers works on a memory, a list of bytes, with pointers as
  offsets into it: an aliased source and destination are two offsets into one list. A write outside
  the list is undefined. \<open>libc::memcmp\<close> is not part of the repository; it is a parameter with the
  locale \<open>libc_memcmp\<close> as its contract.
\<close>

section \<open>MemComparableByteCodec\<close>

definition MEMCMP_GROUP_SIZE :: usize where [simp]: "MEMCMP_GROUP_SIZE = 8"

definition MEMCMP_PAD_BYTE :: byte where [simp]: "MEMCMP_PAD_BYTE = 0"

datatype MemComparableCodecHelper = Ascending | Descending

fun helper_PADDING :: "MemComparableCodecHelper \<Rightarrow> bytes" where
  "helper_PADDING Ascending = replicate MEMCMP_GROUP_SIZE MEMCMP_PAD_BYTE"
| "helper_PADDING Descending = replicate MEMCMP_GROUP_SIZE (NOT MEMCMP_PAD_BYTE)"

fun parse_padding_size :: "MemComparableCodecHelper \<Rightarrow> byte \<Rightarrow> nat" where
  "parse_padding_size Ascending raw_marker = unat (NOT raw_marker)"
| "parse_padding_size Descending raw_marker = unat raw_marker"

definition encoded_len :: "nat \<Rightarrow> nat" where
  "encoded_len src_len = (src_len div MEMCMP_GROUP_SIZE + 1) * (MEMCMP_GROUP_SIZE + 1)"

function get_first_encoded_len_loop :: "MemComparableCodecHelper \<Rightarrow> bytes \<Rightarrow> nat \<Rightarrow> nat" where
  "get_first_encoded_len_loop T encoded idx =
    (if length encoded < idx + 1 then length encoded
     else let marker = encoded ! idx in
       if parse_padding_size T marker > 0 then idx + 1
       else get_first_encoded_len_loop T encoded (idx + (MEMCMP_GROUP_SIZE + 1)))"
  by pat_completeness auto
termination by (relation "measure (\<lambda>(T, encoded, idx). length encoded - idx)") auto

declare get_first_encoded_len_loop.simps [simp del]

definition get_first_encoded_len_internal :: "MemComparableCodecHelper \<Rightarrow> bytes \<Rightarrow> nat" where
  "get_first_encoded_len_internal T encoded = get_first_encoded_len_loop T encoded MEMCMP_GROUP_SIZE"

definition get_first_encoded_len :: "bytes \<Rightarrow> nat" where
  "get_first_encoded_len encoded = get_first_encoded_len_internal Ascending encoded"

definition get_first_encoded_len_desc :: "bytes \<Rightarrow> nat" where
  "get_first_encoded_len_desc encoded = get_first_encoded_len_internal Descending encoded"

text \<open>Storing bytes through a pointer: \<open>ptr::write\<close>, \<open>ptr::write_bytes\<close> and the target of a copy.\<close>

definition ptr_store :: "bytes \<Rightarrow> nat \<Rightarrow> bytes \<Rightarrow> (ErrorInner, bytes) result" where
  "ptr_store mem dst xs =
    (if dst + length xs \<le> length mem then Ok (take dst mem @ xs @ drop (dst + length xs) mem) else Undef)"

text \<open>
  \<open>encode_all\<close>: \<open>src\<close> is a slice of its own, \<open>src_ptr\<close> and \<open>dest_ptr\<close> are offsets into
  \<open>src\<close> and \<open>dest\<close>; the loop runs \<open>zero_padding_groups\<close> times.
\<close>

primrec encode_all_groups :: "nat \<Rightarrow> bytes \<Rightarrow> nat \<Rightarrow> bytes \<Rightarrow> nat \<Rightarrow> (ErrorInner, nat \<times> bytes \<times> nat) result" where
  "encode_all_groups 0 src src_ptr dest dest_ptr = Ok (src_ptr, dest, dest_ptr)"
| "encode_all_groups (Suc n) src src_ptr dest dest_ptr =
    bind_result (ptr_store dest dest_ptr (slice_of src src_ptr (src_ptr + MEMCMP_GROUP_SIZE))) (\<lambda>dest.
    bind_result (ptr_store dest (dest_ptr + MEMCMP_GROUP_SIZE) [NOT 0]) (\<lambda>dest.
      encode_all_groups n src (src_ptr + MEMCMP_GROUP_SIZE) dest (dest_ptr + MEMCMP_GROUP_SIZE + 1)))"

definition encode_all :: "bytes \<Rightarrow> bytes \<Rightarrow> (ErrorInner, nat \<times> bytes) result" where
  "encode_all src dest =
    (let src_len = length src; dest_len = length dest in
     if \<not> dest_len \<ge> encoded_len src_len then Panic
     else let zero_padding_groups = src_len div MEMCMP_GROUP_SIZE in
       bind_result (encode_all_groups zero_padding_groups src 0 dest 0) (\<lambda>(src_ptr, dest, dest_ptr).
         let remaining_size = src_len - src_ptr;
             padding_size = MEMCMP_GROUP_SIZE - remaining_size;
             padding_marker = NOT (of_nat padding_size :: byte) in
         bind_result (ptr_store dest dest_ptr (slice_of src src_ptr (src_ptr + remaining_size))) (\<lambda>dest.
         bind_result (ptr_store dest (dest_ptr + remaining_size) (replicate padding_size MEMCMP_PAD_BYTE)) (\<lambda>dest.
         bind_result (ptr_store dest (dest_ptr + MEMCMP_GROUP_SIZE) [padding_marker]) (\<lambda>dest.
           Ok (dest_ptr + MEMCMP_GROUP_SIZE + 1, dest))))))"

text \<open>\<open>encode_all_in_place\<close>: both pointers are offsets into \<open>src\<close>; \<open>ptr::copy\<close> may overlap.\<close>

primrec encode_in_place_groups :: "nat \<Rightarrow> bytes \<Rightarrow> nat \<Rightarrow> nat \<Rightarrow> (ErrorInner, bytes) result" where
  "encode_in_place_groups 0 src src_ptr dest_ptr = Ok src"
| "encode_in_place_groups (Suc n) src src_ptr dest_ptr =
    (let dest_ptr = dest_ptr - 1 in
     bind_result (ptr_store src dest_ptr [NOT 0]) (\<lambda>src.
       let src_ptr = src_ptr - MEMCMP_GROUP_SIZE; dest_ptr = dest_ptr - MEMCMP_GROUP_SIZE in
       bind_result (ptr_store src dest_ptr (slice_of src src_ptr (src_ptr + MEMCMP_GROUP_SIZE))) (\<lambda>src.
         encode_in_place_groups n src src_ptr dest_ptr)))"

definition encode_all_in_place :: "bytes \<Rightarrow> nat \<Rightarrow> (ErrorInner, nat \<times> bytes) result" where
  "encode_all_in_place src len =
    (let src_len = len; dest_len = encoded_len src_len in
     if \<not> length src \<ge> dest_len then Panic
     else let zero_padding_groups = src_len div MEMCMP_GROUP_SIZE;
              last_group_size = src_len - MEMCMP_GROUP_SIZE * zero_padding_groups;
              padding_size = MEMCMP_GROUP_SIZE - last_group_size;
              padding_marker = NOT (of_nat padding_size :: byte);
              src_ptr = src_len - last_group_size;
              dest_ptr = dest_len - (MEMCMP_GROUP_SIZE + 1) in
       bind_result (ptr_store src dest_ptr (slice_of src src_ptr (src_ptr + last_group_size))) (\<lambda>src.
       bind_result (ptr_store src (dest_ptr + last_group_size) (replicate padding_size MEMCMP_PAD_BYTE)) (\<lambda>src.
       bind_result (ptr_store src (dest_ptr + MEMCMP_GROUP_SIZE) [padding_marker]) (\<lambda>src.
       bind_result (encode_in_place_groups zero_padding_groups src src_ptr dest_ptr) (\<lambda>src.
         Ok (dest_len, src))))))"

definition flip_bytes_in_place :: "bytes \<Rightarrow> nat \<Rightarrow> (ErrorInner, bytes) result" where
  "flip_bytes_in_place src len =
    (if len \<le> length src then Ok (map (\<lambda>k. NOT k) (slice_of src 0 len) @ drop len src) else Panic)"

definition encode_all_desc :: "bytes \<Rightarrow> bytes \<Rightarrow> (ErrorInner, nat \<times> bytes) result" where
  "encode_all_desc src dest =
    bind_result (encode_all src dest) (\<lambda>(encoded_len, dest).
    bind_result (flip_bytes_in_place dest encoded_len) (\<lambda>dest. Ok (encoded_len, dest)))"

definition encode_all_in_place_desc :: "bytes \<Rightarrow> nat \<Rightarrow> (ErrorInner, nat \<times> bytes) result" where
  "encode_all_in_place_desc src len =
    bind_result (encode_all_in_place src len) (\<lambda>(encoded_len, src).
    bind_result (flip_bytes_in_place src encoded_len) (\<lambda>src. Ok (encoded_len, src)))"

text \<open>
  \<open>try_decode_first_internal\<close> runs on a memory that holds the source from \<open>src_ptr\<close> to
  \<open>src_end\<close> and the destination from \<open>dest_ptr\<close>. It returns the memory with the outcome:
  after an error the destination may be partly written.
\<close>

type_synonym memcmp_fn = "bytes \<Rightarrow> bytes \<Rightarrow> nat \<Rightarrow> int"

function try_decode_first_loop ::
  "memcmp_fn \<Rightarrow> MemComparableCodecHelper \<Rightarrow> bytes \<Rightarrow> nat \<Rightarrow> nat \<Rightarrow> nat \<Rightarrow> nat \<Rightarrow> nat \<Rightarrow>
    bytes \<times> (ErrorInner, nat \<times> nat) result" where
  "try_decode_first_loop memcmp T mem src_ptr src_end dest_ptr src_untouched dest_untouched =
    (let src_ptr_next = src_ptr + (MEMCMP_GROUP_SIZE + 1) in
     if src_ptr_next > src_end then (mem, Err eof)
     else if src_end > length mem \<or> dest_ptr + MEMCMP_GROUP_SIZE > length mem then (mem, Undef)
     else
       let mem' = ptr_copy mem src_ptr dest_ptr MEMCMP_GROUP_SIZE;
           padding_size = parse_padding_size T (mem' ! (src_ptr + MEMCMP_GROUP_SIZE));
           dest_ptr' = dest_ptr + MEMCMP_GROUP_SIZE in
       if padding_size > 0 then
         if padding_size > MEMCMP_GROUP_SIZE then (mem', Err bad_padding)
         else let cmp_result = memcmp (drop (dest_ptr' - padding_size) mem') (helper_PADDING T) padding_size in
           if cmp_result \<noteq> 0 then (mem', Err bad_padding)
           else (mem', Ok (src_ptr_next - src_untouched, dest_ptr' - dest_untouched - padding_size))
       else try_decode_first_loop memcmp T mem' src_ptr_next src_end dest_ptr' src_untouched dest_untouched)"
  by pat_completeness auto
termination
  by (relation "measure (\<lambda>(memcmp, T, mem, src_ptr, src_end, rest). src_end - src_ptr)") auto

declare try_decode_first_loop.simps [simp del]

definition try_decode_first_internal ::
  "memcmp_fn \<Rightarrow> MemComparableCodecHelper \<Rightarrow> bytes \<Rightarrow> nat \<Rightarrow> nat \<Rightarrow> nat \<Rightarrow> nat \<Rightarrow>
    bytes \<times> (ErrorInner, nat \<times> nat) result" where
  "try_decode_first_internal memcmp T mem src_ptr src_len dest_ptr dest_len =
    (if \<not> dest_len \<ge> src_len then (mem, Panic)
     else try_decode_first_loop memcmp T mem src_ptr (src_ptr + src_len) dest_ptr src_ptr dest_ptr)"

text \<open>Two slices are two regions of one memory; the destination is read back from its region.\<close>

definition try_decode_first :: "memcmp_fn \<Rightarrow> bytes \<Rightarrow> bytes \<Rightarrow> bytes \<times> (ErrorInner, nat \<times> nat) result" where
  "try_decode_first memcmp src dest =
    map_prod (drop (length src)) id
      (try_decode_first_internal memcmp Ascending (src @ dest) 0 (length src) (length src) (length dest))"

definition try_decode_first_desc :: "memcmp_fn \<Rightarrow> bytes \<Rightarrow> bytes \<Rightarrow> bytes \<times> (ErrorInner, nat \<times> nat) result" where
  "try_decode_first_desc memcmp src dest =
    (case map_prod (drop (length src)) id
       (try_decode_first_internal memcmp Descending (src @ dest) 0 (length src) (length src) (length dest)) of
       (dest, Ok (read_bytes, written_bytes)) \<Rightarrow>
         (case flip_bytes_in_place dest written_bytes of
            Ok dest \<Rightarrow> (dest, Ok (read_bytes, written_bytes))
          | _ \<Rightarrow> (dest, Panic))
     | r \<Rightarrow> r)"

definition try_decode_first_in_place :: "memcmp_fn \<Rightarrow> bytes \<Rightarrow> bytes \<times> (ErrorInner, nat \<times> nat) result" where
  "try_decode_first_in_place memcmp buffer =
    try_decode_first_internal memcmp Ascending buffer 0 (length buffer) 0 (length buffer)"

definition try_decode_first_in_place_desc :: "memcmp_fn \<Rightarrow> bytes \<Rightarrow> bytes \<times> (ErrorInner, nat \<times> nat) result" where
  "try_decode_first_in_place_desc memcmp buffer =
    (case try_decode_first_internal memcmp Descending buffer 0 (length buffer) 0 (length buffer) of
       (buffer, Ok (read_bytes, written_bytes)) \<Rightarrow>
         (case flip_bytes_in_place buffer written_bytes of
            Ok buffer \<Rightarrow> (buffer, Ok (read_bytes, written_bytes))
          | _ \<Rightarrow> (buffer, Panic))
     | r \<Rightarrow> r)"

section \<open>The traits for memory-comparable bytes\<close>

definition write_comparable_bytes :: "'s buffer_writer_ops \<Rightarrow> 's \<Rightarrow> bytes \<Rightarrow> (ErrorInner, 's) result" where
  "write_comparable_bytes W s bs =
    (let len = encoded_len (length bs); s = bw_bytes_mut W s len; buf = bw_slice W s in
     if length buf < len then Err eof
     else bind_result (encode_all bs buf) (\<lambda>(_, buf). bw_advance_mut W (bw_store W s buf) len))"

definition write_comparable_bytes_desc :: "'s buffer_writer_ops \<Rightarrow> 's \<Rightarrow> bytes \<Rightarrow> (ErrorInner, 's) result" where
  "write_comparable_bytes_desc W s bs =
    (let len = encoded_len (length bs); s = bw_bytes_mut W s len; buf = bw_slice W s in
     if length buf < len then Err eof
     else bind_result (encode_all_desc bs buf) (\<lambda>(_, buf). bw_advance_mut W (bw_store W s buf) len))"

definition read_comparable_bytes ::
  "memcmp_fn \<Rightarrow> 's buffer_reader_ops \<Rightarrow> 's \<Rightarrow> (ErrorInner, bytes \<times> 's) result" where
  "read_comparable_bytes memcmp R s =
    (let buf = replicate (length (br_bytes R s)) 0;
         (buf, res) = try_decode_first memcmp (br_bytes R s) buf in
     bind_result res (\<lambda>(rd, written).
     bind_result (br_advance R s rd) (\<lambda>s. Ok (take written buf, s))))"

section \<open>Compact bytes\<close>

text \<open>The sum is taken at the width of \<open>usize\<close>.\<close>

definition CompactByteCodec_get_first_encoded_len :: "bytes \<Rightarrow> nat" where
  "CompactByteCodec_get_first_encoded_len encoded =
    (case NumberCodec_try_decode_var_i64 encoded of
       Ok (value, decoded_n) \<Rightarrow> (let r = unat (value + of_nat decoded_n :: u64) in min r (length encoded))
     | _ \<Rightarrow> length encoded)"

definition write_compact_bytes :: "'s buffer_writer_ops \<Rightarrow> 's \<Rightarrow> bytes \<Rightarrow> (ErrorInner, 's) result" where
  "write_compact_bytes W s data =
    bind_result (NumberEncoder_write_var_i64 W s (of_nat (length data))) (\<lambda>(_, s). bw_write_bytes W s data)"

text \<open>The file is the list of bytes written to it; that its writes can fail is not modelled.\<close>

definition File_write_compact_bytes :: "bytes \<Rightarrow> bytes \<Rightarrow> (ErrorInner, bytes) result" where
  "File_write_compact_bytes file data =
    bind_result (NumberCodec_encode_var_i64 (replicate MAX_VARINT64_LENGTH 0) (of_nat (length data)))
      (\<lambda>(buf, written). Ok (file @ slice_of buf 0 written @ data))"

definition read_compact_bytes :: "'s buffer_reader_ops \<Rightarrow> 's \<Rightarrow> (ErrorInner, bytes \<times> 's) result" where
  "read_compact_bytes R s =
    bind_result (NumberDecoder_read_var_i64 R s) (\<lambda>(v, s). let vn = unat v; data = br_bytes R s in
      if length data < vn then Err eof
      else let bs = slice_of data 0 vn in bind_result (br_advance R s vn) (\<lambda>s. Ok (bs, s)))"

text \<open>
  The variant for \<open>BufReader\<close> (the bytes it has left): it reads byte by byte into \<open>buf\<close>,
  slices \<open>&buf[..=lightlike]\<close>, which panics when \<open>lightlike\<close> is the length of \<open>buf\<close>, and
  allocates \<open>vn as usize\<close> bytes, which panics beyond \<open>isize::MAX\<close>.
\<close>

function bufreader_var_bytes :: "bytes \<Rightarrow> bytes \<Rightarrow> nat \<Rightarrow> (ErrorInner, bytes \<times> nat \<times> bytes) result" where
  "bufreader_var_bytes self buf i =
    (if i < MAX_VARINT64_LENGTH then
       (case self of
          [] \<Rightarrow> Err eof
        | b # self \<Rightarrow> let buf = buf[i := b] in
            if buf ! i < 0x80 then Ok (buf, i, self) else bufreader_var_bytes self buf (i + 1))
     else Ok (buf, length buf, self))"
  by pat_completeness auto
termination by (relation "measure (\<lambda>(self, buf, i). MAX_VARINT64_LENGTH - i)") auto

declare bufreader_var_bytes.simps [simp del]

definition BufReader_read_compact_bytes :: "bytes \<Rightarrow> (ErrorInner, bytes \<times> bytes) result" where
  "BufReader_read_compact_bytes self =
    bind_result (bufreader_var_bytes self (replicate MAX_VARINT64_LENGTH 0) 0) (\<lambda>(buf, lightlike, self).
      if \<not> lightlike < length buf then Panic
      else bind_result (NumberCodec_try_decode_var_i64 (slice_of buf 0 (lightlike + 1))) (\<lambda>(vn, _).
        if unat vn \<ge> 2 ^ 63 then Panic
        else if length self < unat vn then Err eof
        else Ok (take (unat vn) self, drop (unat vn) self)))"

section \<open>Encoding\<close>

primrec full_groups :: "nat \<Rightarrow> bytes \<Rightarrow> bytes" where
  "full_groups 0 xs = []"
| "full_groups (Suc n) xs = take 8 xs @ [- 1] @ full_groups n (drop 8 xs)"

lemma length_full_groups: "8 * n \<le> length xs \<Longrightarrow> length (full_groups n xs) = 9 * n"
  by (induction n arbitrary: xs) auto

lemma full_groups_take: "8 * n \<le> m \<Longrightarrow> full_groups n (take m xs) = full_groups n xs"
  by (induction n arbitrary: xs m) (auto simp: drop_take min_def)

lemma full_groups_snoc: "full_groups (Suc n) xs = full_groups n xs @ take 8 (drop (8 * n) xs) @ [- 1]"
proof (induction n arbitrary: xs)
  case (Suc n)
  have "full_groups (Suc (Suc n)) xs = take 8 xs @ [- 1] @ full_groups (Suc n) (drop 8 xs)" by simp
  also have "\<dots> = take 8 xs @ [- 1] @ full_groups n (drop 8 xs) @ take 8 (drop (8 * n) (drop 8 xs)) @ [- 1]"
    by (simp only: Suc.IH)
  finally show ?case by (simp add: add.commute)
qed simp

lemma byte_ff: "(0xff :: byte) = - 1"
  by simp

lemma mc_encode_full_groups:
  "mc_encode xs = full_groups (length xs div 8) xs @ mc_group (drop (length xs div 8 * 8) xs)"
proof (induction xs rule: mc_encode.induct)
  case (1 xs)
  show ?case
  proof (cases "8 \<le> length xs")
    case True
    then have "length xs div 8 = Suc ((length xs - 8) div 8)" by (simp add: le_div_geq)
    then show ?thesis
      using 1 [OF True] True by (subst mc_encode.simps) (simp add: mc_group_def add.commute byte_ff)
  next
    case False
    then show ?thesis by (subst mc_encode.simps) simp
  qed
qed

lemma encoded_len_eq: "encoded_len n = max_encoded_bytes_size n"
  by (simp add: encoded_len_def max_encoded_bytes_size_def)

lemma encode_all_groups_eq:
  "sp + 8 * n \<le> length src \<Longrightarrow> dp + 9 * n \<le> length dest \<Longrightarrow>
    encode_all_groups n src sp dest dp =
      Ok (sp + 8 * n, take dp dest @ full_groups n (drop sp src) @ drop (dp + 9 * n) dest, dp + 9 * n)"
proof (induction n arbitrary: sp dp dest)
  case (Suc n)
  let ?d1 = "take dp dest @ take 8 (drop sp src) @ drop (dp + 8) dest"
  let ?d2 = "take dp dest @ (take 8 (drop sp src) @ [- 1]) @ drop (dp + 9) dest"
  have l: "length (take 8 (drop sp src)) = 8" using Suc.prems by simp
  have s1: "ptr_store dest dp (slice_of src sp (sp + 8)) = Ok ?d1"
    using Suc.prems by (simp add: ptr_store_def slice_of_def)
  have s2: "ptr_store ?d1 (dp + 8) [- 1] = Ok ?d2"
    using Suc.prems l by (simp add: ptr_store_def add.commute)
  have "encode_all_groups (Suc n) src sp dest dp = encode_all_groups n src (sp + 8) ?d2 (dp + 9)"
    using s1 s2 by (simp add: add.commute)
  also have "\<dots> = Ok (sp + 8 + 8 * n, take (dp + 9) ?d2 @ full_groups n (drop (sp + 8) src) @
      drop (dp + 9 + 9 * n) ?d2, dp + 9 + 9 * n)"
    using Suc.prems l by (intro Suc.IH) simp_all
  finally have "encode_all_groups (Suc n) src sp dest dp = \<dots>" .
  moreover have "take (dp + 9) ?d2 = take dp dest @ take 8 (drop sp src) @ [- 1]"
    using Suc.prems l by simp
  moreover have "drop (dp + 9 + 9 * n) ?d2 = drop (9 * n + (dp + 9)) dest"
    using Suc.prems l by simp
  moreover have "9 * n + (dp + 9) = dp + 9 * Suc n" by simp
  moreover have "full_groups (Suc n) (drop sp src) = take 8 (drop sp src) @ [- 1] @ full_groups n (drop (sp + 8) src)"
    by (simp add: add.commute)
  moreover have "sp + 8 + 8 * n = sp + 8 * Suc n" "dp + 9 + 9 * n = dp + 9 * Suc n" by simp_all
  ultimately show ?case by (simp only: append_assoc)
qed simp

lemma last_group_stores:
  assumes "dp + 9 \<le> length dest" "length g \<le> 8"
  shows "bind_result (ptr_store dest dp g) (\<lambda>dest.
      bind_result (ptr_store dest (dp + length g) (replicate (8 - length g) 0)) (\<lambda>dest.
      bind_result (ptr_store dest (dp + 8) [NOT (of_nat (8 - length g))]) f))
    = f (take dp dest @ mc_group g @ drop (dp + 9) dest)"
proof -
  have m: "NOT (of_nat (8 - length g)) = (0xff - of_nat (8 - length g) :: byte)" by (rule ff_minus [symmetric])
  have 1: "ptr_store dest dp g = Ok (take dp dest @ g @ drop (dp + length g) dest)"
    using assms by (simp add: ptr_store_def)
  have 2: "ptr_store (take dp dest @ g @ drop (dp + length g) dest) (dp + length g) (replicate (8 - length g) 0)
      = Ok (take dp dest @ g @ replicate (8 - length g) 0 @ drop (dp + 8) dest)"
    using assms by (simp add: ptr_store_def add.commute)
  have 3: "ptr_store (take dp dest @ g @ replicate (8 - length g) 0 @ drop (dp + 8) dest) (dp + 8) [x]
      = Ok (take dp dest @ g @ replicate (8 - length g) 0 @ [x] @ drop (dp + 9) dest)" for x
    using assms by (simp add: ptr_store_def add.commute)
  show ?thesis
    unfolding m 1 bind_result.simps 2 3 using assms by (simp add: mc_group_def)
qed

lemma encode_all_eq:
  assumes "encoded_len (length src) \<le> length dest"
  shows "encode_all src dest = Ok (encoded_len (length src), mc_encode src @ drop (encoded_len (length src)) dest)"
proof -
  let ?n = "length src div 8" and ?rem = "drop (length src div 8 * 8) src"
  have len: "9 * ?n + 9 \<le> length dest" "8 * ?n \<le> length src" "length ?rem \<le> 8"
    using assms by (auto simp: encoded_len_def minus_div_mult_eq_mod)
  have g: "encode_all_groups ?n src 0 dest 0 = Ok (8 * ?n, full_groups ?n src @ drop (9 * ?n) dest, 9 * ?n)"
    using len encode_all_groups_eq [of 0 ?n src 0 dest] by simp
  let ?d = "full_groups ?n src @ drop (9 * ?n) dest"
  have dl: "9 * ?n + 9 \<le> length ?d" using len by (simp add: length_full_groups)
  have rem: "slice_of src (8 * ?n) (8 * ?n + length ?rem) = ?rem" "length src - 8 * ?n = length ?rem"
    by (simp_all add: slice_of_def mult.commute)
  have e: "encoded_len (length src) = 9 * ?n + 9" by (simp add: encoded_len_def)
  have "encode_all src dest = Ok (9 * ?n + 9, take (9 * ?n) ?d @ mc_group ?rem @ drop (9 * ?n + 9) ?d)"
    using assms unfolding encode_all_def Let_def MEMCMP_GROUP_SIZE_def g bind_result.simps prod.case MEMCMP_PAD_BYTE_def
    unfolding rem last_group_stores [OF dl len(3)]
    by simp
  then show ?thesis
    unfolding e using len by (simp add: length_full_groups mc_encode_full_groups [of src] add.commute)
qed

lemma encode_all_short: "length dest < encoded_len (length src) \<Longrightarrow> encode_all src dest = Panic"
  by (simp add: encode_all_def)

lemma encode_in_place_groups_eq:
  "9 * n \<le> length src \<Longrightarrow> encode_in_place_groups n src (8 * n) (9 * n) = Ok (full_groups n src @ drop (9 * n) src)"
proof (induction n arbitrary: src)
  case (Suc n)
  let ?s1 = "take (9 * n + 8) src @ [- 1] @ drop (9 * n + 9) src"
  let ?g = "take 8 (drop (8 * n) src)"
  let ?s2 = "take (9 * n) src @ ?g @ [- 1] @ drop (9 * n + 9) src"
  have lg: "length ?g = 8" using Suc.prems by simp
  have s1: "ptr_store src (8 + 9 * n) [- 1] = Ok ?s1" using Suc.prems by (simp add: ptr_store_def add.commute)
  have sl: "slice_of ?s1 (8 * n) (8 * n + 8) = ?g"
    using Suc.prems by (simp add: slice_of_def drop_take min_def)
  have s2: "ptr_store ?s1 (9 * n) ?g = Ok ?s2"
    using Suc.prems lg by (simp add: ptr_store_def take_add [symmetric] min_def)
  have "encode_in_place_groups (Suc n) src (8 * Suc n) (9 * Suc n) = encode_in_place_groups n ?s2 (8 * n) (9 * n)"
    using s1 s2 sl by (simp add: Let_def)
  also have "\<dots> = Ok (full_groups n ?s2 @ drop (9 * n) ?s2)"
    using Suc.prems lg by (intro Suc.IH) simp
  also have "full_groups n ?s2 = full_groups n src"
    using Suc.prems full_groups_take [of n "9 * n" ?s2] full_groups_take [of n "9 * n" src] by simp
  finally have e: "encode_in_place_groups (Suc n) src (8 * Suc n) (9 * Suc n) = Ok (full_groups n src @ drop (9 * n) ?s2)" .
  have "drop (9 * n) ?s2 = ?g @ [- 1] @ drop (9 * n + 9) src" using Suc.prems by simp
  then have d: "drop (9 * n) ?s2 = ?g @ [- 1] @ drop (9 * Suc n) src" by (simp only: mult_Suc_right add.commute)
  show ?case unfolding e d full_groups_snoc append_assoc by (rule refl)
qed simp

lemma encode_all_in_place_eq:
  assumes "len \<le> length src" "encoded_len len \<le> length src"
  shows "encode_all_in_place src len =
    Ok (encoded_len len, mc_encode (take len src) @ drop (encoded_len len) src)"
proof -
  let ?n = "len div 8" and ?rem = "drop (len div 8 * 8) (take len src)"
  have len: "9 * ?n + 9 \<le> length src" "8 * ?n \<le> len" "length ?rem \<le> 8"
    using assms by (auto simp: encoded_len_def minus_div_mult_eq_mod min_def)
  have e: "encoded_len len = 9 * ?n + 9" by (simp add: encoded_len_def)
  have rl: "len - 8 * ?n = length ?rem" "8 - (len - 8 * ?n) = 8 - length ?rem"
    using assms by (simp_all add: mult.commute min_def)
  have sp: "len - (len - 8 * ?n) = 8 * ?n" using len(2) by simp
  have rem: "slice_of src (8 * ?n) (8 * ?n + length ?rem) = ?rem"
    using assms(1) by (simp add: slice_of_def drop_take mult.commute min_def)
  let ?s = "take (9 * ?n) src @ mc_group ?rem @ drop (9 * ?n + 9) src"
  have ip: "encode_in_place_groups ?n ?s (8 * ?n) (9 * ?n) = Ok (full_groups ?n ?s @ drop (9 * ?n) ?s)"
    using len by (intro encode_in_place_groups_eq) simp
  have fg: "full_groups ?n ?s = full_groups ?n (take len src)"
    using len full_groups_take [of ?n "9 * ?n" ?s] full_groups_take [of ?n "9 * ?n" src] full_groups_take [of ?n len src]
    by simp
  have nr: "\<not> \<not> length src \<ge> 9 * ?n + 9" using len by simp
  have d9: "9 * ?n + 9 - (8 + 1) = 9 * ?n" by simp
  have "encode_all_in_place src len = Ok (9 * ?n + 9, full_groups ?n ?s @ drop (9 * ?n) ?s)"
    unfolding encode_all_in_place_def Let_def MEMCMP_GROUP_SIZE_def e if_not_P [OF nr] sp d9 MEMCMP_PAD_BYTE_def
    unfolding rl rem last_group_stores [OF len(1,3)] ip by simp
  then show ?thesis
    unfolding e fg using len assms by (simp add: mc_encode_full_groups [of "take len src"] min_def)
qed

section \<open>Decoding\<close>

text \<open>What the code relies on of \<open>libc::memcmp\<close>: zero means that the first \<open>n\<close> bytes agree.\<close>

locale libc_memcmp =
  fixes memcmp :: memcmp_fn
  assumes memcmp_zero: "n \<le> length xs \<Longrightarrow> n \<le> length ys \<Longrightarrow> memcmp xs ys n = 0 \<longleftrightarrow> take n xs = take n ys"

definition std_memcmp :: memcmp_fn where
  "std_memcmp xs ys n =
    (if take n xs = take n ys then 0 else if take n xs < take n ys then - 1 else 1)"

interpretation std_memcmp: libc_memcmp std_memcmp
  by unfold_locales (simp add: std_memcmp_def)

abbreviation is_desc :: "MemComparableCodecHelper \<Rightarrow> bool" where
  "is_desc T \<equiv> T = Descending"

lemma parse_padding_size_eq: "parse_padding_size T m = pad_of (is_desc T) m"
  by (cases T) (simp_all add: pad_of_def ff_minus)

lemma helper_PADDING_eq: "helper_PADDING T = order_bytes (is_desc T) (replicate 8 0)"
  by (cases T) (simp_all add: order_bytes_def)

lemma get_first_encoded_len_eq: "get_first_encoded_len_loop T e idx = encoded_bytes_len_loop e (is_desc T) idx"
proof (induction T e idx rule: get_first_encoded_len_loop.induct)
  case (1 T e idx)
  have c: "parse_padding_size T m > 0 \<longleftrightarrow> (is_desc T \<and> m \<noteq> 0) \<or> (\<not> is_desc T \<and> m \<noteq> 0xff)" for m
    by (cases T) (auto simp: unat_gt_0 ff_minus [symmetric])
  show ?case
    using 1 by (subst get_first_encoded_len_loop.simps, subst encoded_bytes_len_loop.simps)
      (auto simp: Let_def c)
qed

lemma mc_decode_errors: "mc_decode d = Err e \<Longrightarrow> e = unexpected_eof \<or> e = KeyPadding"
proof (induction d rule: mc_decode.induct)
  case (1 d)
  then show ?case
    by (subst (asm) (2) mc_decode.simps) (cases "mc_decode (drop 9 d)"; auto simp: Let_def split: if_splits)
qed

primrec inner_error :: "codec_error \<Rightarrow> ErrorInner" where
  "inner_error (Io e) = IoError e"
| "inner_error KeyLength = BadPadding"
| "inner_error KeyPadding = BadPadding"
| "inner_error KeyNotFound = BadPadding"

text \<open>
  What a copy of a group from \<open>s\<close> to \<open>d\<close> leaves alone, when the destination is behind the source
  or after its end.
\<close>

lemma group_copy_facts:
  assumes "s + 9 \<le> src_end" "src_end \<le> length mem" "d + 8 \<le> length mem" "d \<le> s \<or> src_end \<le> d"
  shows "length (ptr_copy mem s d 8) = length mem"
    "ptr_copy mem s d 8 ! (s + 8) = mem ! (s + 8)"
    "slice_of (ptr_copy mem s d 8) d (d + 8) = slice_of mem s (s + 8)"
    "slice_of (ptr_copy mem s d 8) (s + 9) src_end = slice_of mem (s + 9) src_end"
    "take d (ptr_copy mem s d 8) = take d mem"
proof -
  show "length (ptr_copy mem s d 8) = length mem" "take d (ptr_copy mem s d 8) = take d mem"
    "slice_of (ptr_copy mem s d 8) d (d + 8) = slice_of mem s (s + 8)"
    using assms by (auto simp: ptr_copy_def slice_of_def)
  show "ptr_copy mem s d 8 ! (s + 8) = mem ! (s + 8)"
    using assms by (auto simp: ptr_copy_def nth_append slice_of_def min_def add.commute)
  show "slice_of (ptr_copy mem s d 8) (s + 9) src_end = slice_of mem (s + 9) src_end"
  proof (cases "d \<le> s")
    case True
    then have "drop (s + 9) (ptr_copy mem s d 8) = drop (s + 9) mem"
      using assms by (simp add: ptr_copy_def slice_of_def add.commute)
    then show ?thesis by (simp add: slice_of_def)
  next
    case False
    then have "take src_end (ptr_copy mem s d 8) = take src_end mem"
      using assms by (simp add: ptr_copy_def)
    then show ?thesis using drop_take [of "s + 9" src_end] by (metis slice_of_def)
  qed
qed

lemma slice_of_split: "i \<le> j \<Longrightarrow> j \<le> k \<Longrightarrow> slice_of xs i k = slice_of xs i j @ slice_of xs j k"
  using take_add [of "j - i" "k - j" "drop i xs"] by (simp add: slice_of_def)

lemma slice_of_take_cong: "take k xs = take k ys \<Longrightarrow> slice_of xs i k = slice_of ys i k"
  by (metis drop_take slice_of_def)

text \<open>
  \<open>decodes_to desc mem src_end d s0 d0 out spec\<close>: the loop that started on \<open>mem\<close> with its
  destination at \<open>d\<close> ended with \<open>out\<close>, as the reference decoder ended with \<open>spec\<close> on what was
  left of the source. On success the memory holds the raw key at \<open>d\<close>.
\<close>

definition decodes_to ::
  "bool \<Rightarrow> bytes \<Rightarrow> nat \<Rightarrow> nat \<Rightarrow> nat \<Rightarrow> nat \<Rightarrow> bytes \<times> (ErrorInner, nat \<times> nat) result \<Rightarrow>
    (codec_error, bytes \<times> bytes) result \<Rightarrow> bool" where
  "decodes_to desc mem src_end d s0 d0 out spec \<longleftrightarrow>
    (case spec of
       Ok (k, r) \<Rightarrow> snd out = Ok (src_end - length r - s0, d + length k - d0) \<and>
         length (fst out) = length mem \<and> slice_of (fst out) d (d + length k) = order_bytes desc k \<and>
         take d (fst out) = take d mem
     | Err e \<Rightarrow> snd out = Err (inner_error e)
     | _ \<Rightarrow> False)"

lemma decodes_to_extend:
  assumes "decodes_to desc m src_end (d + 8) s0 d0 out spec"
    and "slice_of m d (d + 8) = order_bytes desc g" "length g = 8" "take d m = take d mem"
    and "length m = length mem"
  shows "decodes_to desc mem src_end d s0 d0 out (result_map (\<lambda>(k, r). (g @ k, r)) spec)"
proof (cases spec)
  case (Ok kr)
  obtain k r where kr: "kr = (k, r)" by (cases kr)
  from assms(1) Ok kr have m': "take (d + 8) (fst out) = take (d + 8) m"
    "slice_of (fst out) (d + 8) (d + 8 + length k) = order_bytes desc k"
    by (auto simp: decodes_to_def)
  have "slice_of (fst out) d (d + 8) = order_bytes desc g"
    using slice_of_take_cong [OF m'(1), of d] assms(2) by simp
  then have "slice_of (fst out) d (d + 8 + length k) = order_bytes desc (g @ k)"
    using slice_of_split [of d "d + 8" "d + 8 + length k" "fst out"] m'(2) by simp
  moreover have "take d (fst out) = take d mem"
    using arg_cong [OF m'(1), of "take d"] assms(4) by simp
  ultimately show ?thesis
    using assms Ok kr by (simp add: decodes_to_def add.assoc)
qed (use assms in \<open>simp_all add: decodes_to_def\<close>)

context libc_memcmp
begin

lemma memcmp_padding:
  assumes "slice_of m d (d + 8) = g" "p \<le> 8" "d + 8 \<le> length m"
  shows "memcmp (drop (d + 8 - p) m) (helper_PADDING T) p = 0 \<longleftrightarrow>
    order_bytes (is_desc T) (drop (8 - p) g) = replicate p 0"
proof -
  have "take p (drop (d + 8 - p) m) = drop (8 - p) g"
    using assms(1) [symmetric] assms(2) by (simp add: slice_of_def drop_take add.commute)
  moreover have "take p (helper_PADDING T) = order_bytes (is_desc T) (replicate p 0)"
    using assms(2) by (simp add: helper_PADDING_eq order_bytes_take min_def)
  moreover have "memcmp (drop (d + 8 - p) m) (helper_PADDING T) p = 0 \<longleftrightarrow>
      take p (drop (d + 8 - p) m) = take p (helper_PADDING T)"
    using assms(2,3) by (intro memcmp_zero) (simp_all add: helper_PADDING_eq)
  ultimately show ?thesis by (metis order_bytes_simps(3))
qed

lemma try_decode_step:
  assumes "s + 9 \<le> src_end" "src_end \<le> length mem" "d + 8 \<le> length mem" "d \<le> s \<or> src_end \<le> d"
  shows "try_decode_first_loop memcmp T mem s src_end d s0 d0 =
    (let mem' = ptr_copy mem s d 8; g = slice_of mem s (s + 8); pad = pad_of (is_desc T) (mem ! (s + 8)) in
     if pad > 0 then
       if pad > 8 then (mem', Err bad_padding)
       else if order_bytes (is_desc T) (drop (8 - pad) g) \<noteq> replicate pad 0 then (mem', Err bad_padding)
       else (mem', Ok (s + 9 - s0, d + 8 - d0 - pad))
     else try_decode_first_loop memcmp T mem' (s + 9) src_end (d + 8) s0 d0)"
proof -
  let ?p = "pad_of (is_desc T) (mem ! (s + 8))"
  note facts = group_copy_facts [OF assms]
  have 9: "s + (8 + 1) = s + 9" by simp
  have n: "\<not> s + 9 > src_end" "\<not> (src_end > length mem \<or> d + 8 > length mem)" using assms by simp_all
  show ?thesis
    unfolding try_decode_first_loop.simps [of memcmp T mem s] Let_def MEMCMP_GROUP_SIZE_def 9
      if_not_P [OF n(1)] if_not_P [OF n(2)]
    unfolding facts(2) parse_padding_size_eq
    using memcmp_padding [OF facts(3), of ?p T] assms(3) facts(1)
    by (cases "?p \<le> 8") (simp_all only: linorder_not_less [symmetric] simp_thms if_False split: if_split, blast)
qed

lemma try_decode_loop_eq:
  assumes "src_end \<le> length mem" "d + (src_end - s) \<le> length mem" "d \<le> s \<or> src_end \<le> d"
    "s0 \<le> s" "d0 \<le> d" "s \<le> src_end"
  shows "decodes_to (is_desc T) mem src_end d s0 d0 (try_decode_first_loop memcmp T mem s src_end d s0 d0)
    (mc_decode (order_bytes (is_desc T) (slice_of mem s src_end)))"
  using assms
proof (induction "src_end - s" arbitrary: mem s d rule: less_induct)
  case less
  let ?o = "order_bytes (is_desc T)"
  define D where "D = ?o (slice_of mem s src_end)"
  have lD: "length D = src_end - s" using less.prems by (simp add: D_def)
  show ?case
  proof (cases "s + 9 \<le> src_end")
    case False
    then have "length D < 9" using lD by simp
    then show ?thesis
      using False unfolding D_def [symmetric] mc_decode.simps [of D]
      by (simp add: try_decode_first_loop.simps [of memcmp T mem s] unexpected_eof_def eof_def decodes_to_def)
  next
    case True
    let ?m = "ptr_copy mem s d 8" and ?p = "pad_of (is_desc T) (mem ! (s + 8))" and ?g = "slice_of mem s (s + 8)"
    have room: "d + 8 \<le> length mem" using less.prems True by simp
    note facts = group_copy_facts [OF True less.prems(1) room less.prems(3)]
    note step = try_decode_step [OF True less.prems(1) room less.prems(3)]
    have d8: "unat (0xff - D ! 8) = ?p"
      using True less.prems by (simp add: D_def nth_order_bytes pad_of_order slice_of_def)
    have dd: "drop 9 D = ?o (slice_of ?m (s + 9) src_end)"
      unfolding facts using True by (simp add: D_def order_bytes_drop slice_of_def drop_take add.commute)
    have t8: "take 8 D = ?o ?g"
      using True by (simp add: D_def order_bytes_take slice_of_def min_def)
    have len: "\<not> length D < 9" using True lD by simp
    have IH: "decodes_to (is_desc T) ?m src_end (d + 8) s0 d0
        (try_decode_first_loop memcmp T ?m (s + 9) src_end (d + 8) s0 d0) (mc_decode (drop 9 D))"
      unfolding dd using less.prems True facts(1) by (intro less.hyps) auto
    show ?thesis
    proof (cases "?p = 0")
      case p: True
      have "mc_decode D = result_map (\<lambda>(k, r). (take 8 D @ k, r)) (mc_decode (drop 9 D))"
        using len p d8 by (subst mc_decode.simps) simp
      then show ?thesis
        using p decodes_to_extend [OF IH, of "take 8 D" mem] facts t8 len True less.prems(1)
        unfolding D_def [symmetric] step by simp
    next
      case p: False
      have e: "mc_decode D = (if ?p > 8 \<or> ?o (drop (8 - ?p) ?g) \<noteq> replicate ?p 0 then Err KeyPadding
          else Ok (take (8 - ?p) D, drop 9 D))"
        using len p d8 t8 by (subst mc_decode.simps) (simp add: order_bytes_drop [symmetric] Let_def del: drop_take)
      have "slice_of ?m d (d + (8 - ?p)) = ?o (take (8 - ?p) D)" if "?p \<le> 8"
      proof -
        have "slice_of ?m d (d + (8 - ?p)) = take (8 - ?p) (slice_of ?m d (d + 8))" by (simp add: slice_of_def min_def)
        also have "\<dots> = ?o (take (8 - ?p) (take 8 D))"
          by (simp only: facts t8 order_bytes_take [symmetric] order_bytes_simps)
        finally show ?thesis by (simp add: min_def)
      qed
      then show ?thesis
        unfolding D_def [symmetric] e step using p lD True len facts(1,5) less.prems(5)
        by (auto simp: decodes_to_def bad_padding_def Let_def simp del: drop_take)
    qed
  qed
qed

end

lemma encode_all_desc_eq:
  assumes "encoded_len (length src) \<le> length dest"
  shows "encode_all_desc src dest =
    Ok (encoded_len (length src), order_bytes True (mc_encode src) @ drop (encoded_len (length src)) dest)"
proof -
  have "length (mc_encode src) = encoded_len (length src)" by (simp add: length_mc_encode encoded_len_eq)
  then show ?thesis
    by (simp add: encode_all_desc_def encode_all_eq [OF assms] flip_bytes_in_place_def slice_of_def order_bytes_def)
qed

lemma encode_all_in_place_desc_eq:
  assumes "len \<le> length src" "encoded_len len \<le> length src"
  shows "encode_all_in_place_desc src len =
    Ok (encoded_len len, order_bytes True (mc_encode (take len src)) @ drop (encoded_len len) src)"
proof -
  have "length (mc_encode (take len src)) = encoded_len len"
    using assms by (simp add: length_mc_encode encoded_len_eq min_def)
  then show ?thesis
    by (simp add: encode_all_in_place_desc_def encode_all_in_place_eq [OF assms] flip_bytes_in_place_def
        slice_of_def order_bytes_def)
qed

text \<open>
  \<open>decodes_like desc src out\<close>: a decoder that leaves its result at the front of a buffer ended like
  \<open>decode_bytes\<close> on \<open>src\<close>: it read what that one consumed and wrote the key, or failed likewise.
\<close>

definition decodes_like :: "bool \<Rightarrow> bytes \<Rightarrow> bytes \<times> (ErrorInner, nat \<times> nat) result \<Rightarrow> bool" where
  "decodes_like desc src out \<longleftrightarrow>
    (case decode_bytes src desc of
       Ok (key, rest) \<Rightarrow> snd out = Ok (length src - length rest, length key) \<and> take (length key) (fst out) = key
     | Err e \<Rightarrow> snd out = Err (inner_error e)
     | _ \<Rightarrow> False)"

lemma decodes_like_asc:
  assumes "decodes_to False mem (length src) d 0 d out (mc_decode (order_bytes False src))" "d + n \<le> length mem"
  shows "decodes_like False src (drop d (fst out), snd out)"
  using assms
  by (cases "mc_decode src") (auto simp: decodes_to_def decodes_like_def decode_bytes_eq order_bytes_def slice_of_def)

lemma decodes_like_desc:
  assumes "decodes_to True mem (length src) d 0 d out (mc_decode (order_bytes True src))"
  shows "decodes_like True src
    (case (drop d (fst out), snd out) of
       (dest, Ok (read_bytes, written_bytes)) \<Rightarrow>
         (case flip_bytes_in_place dest written_bytes of
            Ok dest \<Rightarrow> (dest, Ok (read_bytes, written_bytes)) | _ \<Rightarrow> (dest, Panic))
     | r \<Rightarrow> r)"
proof (cases "mc_decode (order_bytes True src)")
  case (Ok kr)
  obtain k r where kr: "kr = (k, r)" by (cases kr)
  with assms Ok have m: "snd out = Ok (length src - length r, length k)"
    "take (length k) (drop d (fst out)) = order_bytes True k"
    by (auto simp: decodes_to_def slice_of_def)
  have "length k \<le> length (drop d (fst out))"
    using arg_cong [OF m(2), of length] by (simp add: min_def split: if_splits)
  then have "flip_bytes_in_place (drop d (fst out)) (length k) =
      Ok (order_bytes True (order_bytes True k) @ drop (length k) (drop d (fst out)))"
    using m(2) by (simp add: flip_bytes_in_place_def slice_of_def order_bytes_def)
  then show ?thesis
    using m(1) Ok kr by (simp add: decodes_like_def decode_bytes_eq)
next
  case (Err e)
  then show ?thesis using assms by (simp add: decodes_to_def decodes_like_def decode_bytes_eq)
qed (use assms in \<open>simp_all add: decodes_to_def\<close>)

context libc_memcmp
begin

lemma decode_in_place_like:
  "decodes_like False buffer (try_decode_first_in_place memcmp buffer)"
  "decodes_like True buffer (try_decode_first_in_place_desc memcmp buffer)"
proof -
  have *: "decodes_to (is_desc T) buffer (length buffer) 0 0 0
      (try_decode_first_loop memcmp T buffer 0 (length buffer) 0 0 0) (mc_decode (order_bytes (is_desc T) buffer))" for T
    using try_decode_loop_eq [of "length buffer" buffer 0 0 0 0 T] by (simp add: slice_of_def)
  show "decodes_like False buffer (try_decode_first_in_place memcmp buffer)"
    using decodes_like_asc [of buffer buffer 0 _ 0] * [of Ascending]
    by (simp add: try_decode_first_in_place_def try_decode_first_internal_def)
  show "decodes_like True buffer (try_decode_first_in_place_desc memcmp buffer)"
    using decodes_like_desc [of buffer buffer 0] * [of Descending]
    by (simp add: try_decode_first_in_place_desc_def try_decode_first_internal_def)
qed

lemma decode_first_like:
  assumes "length src \<le> length dest"
  shows "decodes_like False src (try_decode_first memcmp src dest)"
    "decodes_like True src (try_decode_first_desc memcmp src dest)"
proof -
  have *: "decodes_to (is_desc T) (src @ dest) (length src) (length src) 0 (length src)
      (try_decode_first_loop memcmp T (src @ dest) 0 (length src) (length src) 0 (length src))
      (mc_decode (order_bytes (is_desc T) src))" for T
    using try_decode_loop_eq [of "length src" "src @ dest" "length src" 0 0 "length src" T] assms
    by (simp add: slice_of_def)
  show "decodes_like False src (try_decode_first memcmp src dest)"
    using decodes_like_asc [of "src @ dest" src "length src" _ 0] * [of Ascending] assms
    by (simp add: try_decode_first_def try_decode_first_internal_def map_prod_def case_prod_beta)
  show "decodes_like True src (try_decode_first_desc memcmp src dest)"
    using decodes_like_desc [of "src @ dest" src "length src"] * [of Descending] assms
    by (simp add: try_decode_first_desc_def try_decode_first_internal_def map_prod_def case_prod_beta)
qed

end

section \<open>The traits over any reader and writer\<close>

context buffer_writer
begin

lemma write_comparable:
  assumes "inv s" "encoded_len (length bs) \<le> length (bw_slice W (bw_bytes_mut W s (encoded_len (length bs))))"
  shows "\<exists>s'. write_comparable_bytes W s bs = Ok s' \<and> inv s' \<and> written s' = written s @ encode_bytes bs"
    "\<exists>s'. write_comparable_bytes_desc W s bs = Ok s' \<and> inv s' \<and> written s' = written s @ encode_bytes_desc bs"
proof -
  let ?n = "encoded_len (length bs)" and ?buf = "bw_slice W (bw_bytes_mut W s (encoded_len (length bs)))"
  have len: "length (order_bytes desc (mc_encode bs)) = ?n" for desc
    by (simp add: length_mc_encode encoded_len_eq)
  have f: "\<exists>s'. bw_advance_mut W (bw_store W (bw_bytes_mut W s ?n) (order_bytes desc (mc_encode bs) @ drop ?n ?buf)) ?n = Ok s' \<and>
      inv s' \<and> written s' = written s @ order_bytes desc (mc_encode bs)" for desc
    using fill_and_advance [OF assms(1), of "order_bytes desc (mc_encode bs)" "drop ?n ?buf" ?n] len [of desc] assms(2)
    by simp
  show "\<exists>s'. write_comparable_bytes W s bs = Ok s' \<and> inv s' \<and> written s' = written s @ encode_bytes bs"
    using f [of False] assms(2)
    by (simp add: write_comparable_bytes_def Let_def encode_all_eq encode_bytes_def encode_order_bytes_eq order_bytes_def)
  show "\<exists>s'. write_comparable_bytes_desc W s bs = Ok s' \<and> inv s' \<and> written s' = written s @ encode_bytes_desc bs"
    using f [of True] assms(2)
    by (simp add: write_comparable_bytes_desc_def Let_def encode_all_desc_eq encode_bytes_desc_def encode_order_bytes_eq)
qed

end

context buffer_reader
begin

lemma read_comparable:
  assumes "libc_memcmp memcmp" "inv s" "br_bytes R s = encode_bytes key @ rest"
  shows "\<exists>s'. read_comparable_bytes memcmp R s = Ok (key, s') \<and> inv s' \<and> br_bytes R s' = rest"
proof -
  let ?b = "br_bytes R s"
  let ?out = "try_decode_first memcmp ?b (replicate (length ?b) 0)"
  have "decodes_like False ?b ?out"
    using libc_memcmp.decode_first_like(1) [OF assms(1), of ?b] by simp
  moreover have "decode_bytes ?b False = Ok (key, rest)"
    by (simp add: decode_bytes_iff assms(3) encode_bytes_def)
  ultimately have o: "snd ?out = Ok (length (encode_bytes key), length key)" "take (length key) (fst ?out) = key"
    by (simp_all add: decodes_like_def assms(3))
  show ?thesis
    using advance [OF assms(2), of "length (encode_bytes key)"] o assms(3)
    by (auto simp: read_comparable_bytes_def Let_def case_prod_beta)
qed

end

section \<open>Compact bytes\<close>

abbreviation compact_code :: "bytes \<Rightarrow> bytes" where
  "compact_code data \<equiv> var_bytes (zigzag (of_nat (length data))) @ data"

lemma unat_length: "length data < 2 ^ 63 \<Longrightarrow> unat (of_nat (length data) :: u64) = length data"
  by (simp add: unat_of_nat)

context vec_alloc
begin

lemma vec_write_comparable:
  "\<exists>s'. write_comparable_bytes (Vec_writer grow) s bs = Ok s' \<and> vec_data s' = vec_data s @ encode_bytes bs"
  "\<exists>s'. write_comparable_bytes_desc (Vec_writer grow) s bs = Ok s' \<and> vec_data s' = vec_data s @ encode_bytes_desc bs"
  using write_comparable [OF TrueI vec_room] by blast+

lemma vec_write_compact:
  "\<exists>s'. write_compact_bytes (Vec_writer grow) s data = Ok s' \<and> vec_data s' = vec_data s @ compact_code data"
proof -
  obtain s1 where s1: "NumberEncoder_write_var_i64 (Vec_writer grow) s (of_nat (length data)) =
      Ok (length (var_bytes (zigzag (of_nat (length data)))), s1)"
    "vec_data s1 = vec_data s @ var_bytes (zigzag (of_nat (length data)))"
    using write_var(2) [of s "of_nat (length data)"] vec_room [of 10 s] by auto
  obtain s2 where s2: "bw_write_bytes (Vec_writer grow) s1 data = Ok s2"
    by (auto simp: Vec_writer_def Vec_write_bytes_def Let_def)
  then have "vec_data s2 = vec_data s1 @ data" using write_bytes by blast
  then show ?thesis using s1 s2 by (simp add: write_compact_bytes_def)
qed

end

context buffer_reader
begin

lemma read_compact:
  assumes "inv s" "br_bytes R s = compact_code data @ rest" "length data < 2 ^ 63"
  shows "\<exists>s'. read_compact_bytes R s = Ok (data, s') \<and> inv s' \<and> br_bytes R s' = rest"
proof -
  obtain s1 where s1: "NumberDecoder_read_var_i64 R s = Ok (of_nat (length data), s1)" "inv s1"
    "br_bytes R s1 = data @ rest"
    using read_var_written(2) [OF assms(1), of "of_nat (length data)" "data @ rest"] assms(2) by auto
  then show ?thesis
    using advance [OF s1(2), of "length data"] unat_length [OF assms(3)]
    by (auto simp: read_compact_bytes_def Let_def slice_of_def)
qed

end

lemma File_write_compact_eq: "File_write_compact_bytes file data = Ok (file @ compact_code data)"
  by (simp add: File_write_compact_bytes_def encode_var_i64_slice slice_of_def)

lemma bufreader_var_bytes_eq:
  "w \<noteq> [] \<Longrightarrow> var_prefix w = length w - 1 \<Longrightarrow> length buf = 10 \<Longrightarrow> i + length w \<le> 10 \<Longrightarrow>
    bufreader_var_bytes (w @ rest) buf i = Ok (take i buf @ w @ drop (i + length w) buf, i + length w - 1, rest)"
proof (induction w arbitrary: buf i)
  case (Cons b w)
  have b: "b < 0x80 \<longleftrightarrow> w = []"
    using Cons.prems(2) by (cases w) (auto simp: var_prefix_Cons split: if_splits)
  have pw: "var_prefix w = length w - 1" if "w \<noteq> []"
    using Cons.prems(2) that by (auto simp: var_prefix_Cons split: if_splits)
  show ?case
  proof (cases "w = []")
    case True
    then show ?thesis
      using b Cons.prems by (subst bufreader_var_bytes.simps) (simp add: upd_conv_take_nth_drop nth_append Let_def)
  next
    case False
    have "bufreader_var_bytes ((b # w) @ rest) buf i = bufreader_var_bytes (w @ rest) (buf[i := b]) (Suc i)"
      using False b Cons.prems by (subst bufreader_var_bytes.simps) simp
    also have "\<dots> = Ok (take (Suc i) (buf[i := b]) @ w @ drop (Suc i + length w) (buf[i := b]), Suc i + length w - 1, rest)"
      using False pw Cons.prems by (intro Cons.IH) auto
    finally show ?thesis
      using Cons.prems False by (simp add: take_Suc_conv_app_nth)
  qed
qed simp

lemma BufReader_read_compact_eq:
  assumes "length data < 2 ^ 63"
  shows "BufReader_read_compact_bytes (compact_code data @ rest) = Ok (data, rest)"
proof -
  let ?w = "var_bytes (zigzag (of_nat (length data)))"
  have w: "?w \<noteq> []" "var_prefix ?w = length ?w - 1" "length ?w \<le> 10"
    using var_prefix_var_bytes [of "zigzag (of_nat (length data))" "[]"] var_bytes_length_10 [of "zigzag (of_nat (length data))"]
    by auto
  have "bufreader_var_bytes (?w @ data @ rest) (replicate 10 0) 0 =
      Ok (?w @ drop (length ?w) (replicate 10 0), length ?w - 1, data @ rest)"
    using bufreader_var_bytes_eq [OF w(1,2), of "replicate 10 0" 0] w(3) by simp
  moreover have "length ?w - 1 < length (?w @ drop (length ?w) (replicate 10 (0 :: byte)))"
    "slice_of (?w @ drop (length ?w) (replicate 10 (0 :: byte))) 0 (length ?w - 1 + 1) = ?w"
    using w(1) by (simp_all add: slice_of_def Suc_le_eq)
  ultimately show ?thesis
    using unat_length [OF assms] assms try_decode_var_i64_zigzag [of "of_nat (length data)" "[]"]
    by (simp add: BufReader_read_compact_bytes_def del: drop_replicate)
qed

lemma bufreader_no_terminator:
  "length cs + i = 10 \<Longrightarrow> length buf = 10 \<Longrightarrow> (\<And>b. b \<in> set cs \<Longrightarrow> 0x80 \<le> b) \<Longrightarrow>
    \<exists>buf'. length buf' = 10 \<and> bufreader_var_bytes (cs @ rest) buf i = Ok (buf', 10, rest)"
proof (induction cs arbitrary: buf i)
  case Nil
  then show ?case by (subst bufreader_var_bytes.simps) simp
next
  case (Cons b cs)
  have "\<not> b < 0x80" using Cons.prems(3) [of b] by simp
  then show ?case
    using Cons.prems Cons.IH [of "Suc i" "buf[i := b]"] by (subst bufreader_var_bytes.simps) simp
qed

lemma compact_first_len_eq:
  assumes "length data < 2 ^ 63"
  shows "CompactByteCodec_get_first_encoded_len (compact_code data @ rest) = length (compact_code data)"
proof -
  let ?w = "var_bytes (zigzag (of_nat (length data)))"
  have "length ?w \<le> 10" using var_bytes_length_10 [of "zigzag (of_nat (length data))"] by auto
  then have "unat (of_nat (length data + length ?w) :: u64) = length data + length ?w"
    using assms by (simp add: unat_of_nat del: of_nat_add)
  then show ?thesis
    by (simp add: CompactByteCodec_get_first_encoded_len_def try_decode_var_i64_zigzag Let_def add.commute)
qed

lemma try_decode_bounded: "NumberCodec_try_decode_var_u64 buf = Ok (v, n) \<Longrightarrow> n \<le> length buf"
  by (auto simp: try_decode_var_u64_eq_spec try_decode_var_spec_def Let_def split: if_splits)

lemma slice_read_compact_no_panic: "read_compact_bytes slice_reader self \<noteq> Panic"
proof (cases "NumberCodec_try_decode_var_u64 self")
  case (Ok vn)
  then have "snd vn \<le> length self" using try_decode_bounded [of self "fst vn" "snd vn"] by simp
  then show ?thesis
    using Ok by (auto simp: read_compact_bytes_def NumberDecoder_read_var_i64_def try_decode_var_i64_vs_u64
        slice_reader_def slice_advance_def Let_def case_prod_beta)
qed (auto simp: read_compact_bytes_def NumberDecoder_read_var_i64_def try_decode_var_i64_vs_u64
    slice_reader_def try_decode_var_u64_eq_spec try_decode_var_spec_def Let_def split: if_splits)

lemma encoded_len_ge: "n \<le> encoded_len n"
proof -
  have "n = n div 8 * 8 + n mod 8" by simp
  moreover have "n mod 8 < 8" by simp
  ultimately show ?thesis unfolding encoded_len_def by simp
qed

section \<open>Properties\<close>


text \<open>
  (C20) The four decoders agree with \<open>decode_bytes\<close> of \<open>einsteindb_util\<close> on every source: they read what
  it consumes and leave the key it returns at the front of the destination, in place too, and they
  fail where it fails, with the corresponding error.
\<close>

theorem memcomparable_decoders_agree:
  assumes "libc_memcmp memcmp" "length src \<le> length dest"
  shows "decodes_like False src (try_decode_first memcmp src dest) \<and>
    decodes_like True src (try_decode_first_desc memcmp src dest) \<and>
    decodes_like False src (try_decode_first_in_place memcmp src) \<and>
    decodes_like True src (try_decode_first_in_place_desc memcmp src)"
  using libc_memcmp.decode_first_like [OF assms] libc_memcmp.decode_in_place_like [OF assms(1)] by simp

theorem memcomparable_decoders_agree_witness:
  "decodes_like True [1, 2, 3] (try_decode_first_desc std_memcmp [1, 2, 3] [0, 0, 0, 0]) \<and>
    length [1 :: byte, 2, 3] \<le> length [0 :: byte, 0, 0, 0]"
  using memcomparable_decoders_agree [OF std_memcmp.libc_memcmp_axioms, of "[1, 2, 3]" "[0, 0, 0, 0]"] by simp

text \<open>
  Keys go through buffers: what \<open>write_comparable_bytes\<close> appends to a vector, whatever it held and
  whatever is appended later, any reader reads back with \<open>read_comparable_bytes\<close>, stopping behind it.
\<close>

theorem comparable_bytes_through_buffers:
  assumes "vec_alloc grow" "buffer_reader R rok" "libc_memcmp memcmp"
  shows "\<exists>s' c. write_comparable_bytes (Vec_writer grow) s key = Ok s' \<and> vec_data s' = vec_data s @ c \<and>
    c = encode_bytes key \<and>
    (\<forall>r rest. rok r \<and> br_bytes R r = c @ rest \<longrightarrow>
      (\<exists>r'. read_comparable_bytes memcmp R r = Ok (key, r') \<and> rok r' \<and> br_bytes R r' = rest))"
  using vec_alloc.vec_write_comparable(1) [OF assms(1), of s key] buffer_reader.read_comparable [OF assms(2,3)]
  by blast

theorem comparable_bytes_through_buffers_witness:
  "\<exists>s' c. write_comparable_bytes (Vec_writer zero_grow) \<lparr> vec_data = [7], vec_spare = [] \<rparr> [1, 2] = Ok s' \<and>
    vec_data s' = [7] @ c \<and> c = encode_bytes [1, 2] \<and>
    (\<exists>r'. read_comparable_bytes std_memcmp slice_reader (c @ [9]) = Ok ([1, 2], r') \<and> br_bytes slice_reader r' = [9])"
  using comparable_bytes_through_buffers [OF zero_alloc.vec_alloc_axioms slice_rd.buffer_reader_axioms
      std_memcmp.libc_memcmp_axioms, of "\<lparr> vec_data = [7], vec_spare = [] \<rparr>" "[1, 2]"]
  by (auto simp: slice_reader_def)

text \<open>
  Compact bytes go through every medium: what a vector, a file or \<open>einsteindb_util\<close> is given is the
  same code, any reader and a \<open>BufReader\<close> read it back, and its length is found without decoding.
\<close>

theorem compact_bytes_through_buffers:
  assumes "byteorder bo" "vec_alloc grow" "buffer_reader R rok" "length data < 2 ^ 63"
  shows "\<exists>c. encode_compact_bytes bo [] data = c \<and>
    (\<exists>s'. write_compact_bytes (Vec_writer grow) s data = Ok s' \<and> vec_data s' = vec_data s @ c) \<and>
    File_write_compact_bytes file data = Ok (file @ c) \<and>
    (\<forall>r rest. rok r \<and> br_bytes R r = c @ rest \<longrightarrow>
      (\<exists>r'. read_compact_bytes R r = Ok (data, r') \<and> rok r' \<and> br_bytes R r' = rest)) \<and>
    BufReader_read_compact_bytes (c @ rest) = Ok (data, rest) \<and>
    CompactByteCodec_get_first_encoded_len (c @ rest) = length c"
proof -
  have "encode_compact_bytes bo [] data = compact_code data"
    by (simp add: byteorder.encode_compact_bytes_eq [OF assms(1)])
  moreover have "\<forall>r rest. rok r \<and> br_bytes R r = compact_code data @ rest \<longrightarrow>
      (\<exists>r'. read_compact_bytes R r = Ok (data, r') \<and> rok r' \<and> br_bytes R r' = rest)"
    using buffer_reader.read_compact [OF assms(3) _ _ assms(4)] by blast
  ultimately show ?thesis
    using vec_alloc.vec_write_compact [OF assms(2), of s data] File_write_compact_eq [of "file" data]
      BufReader_read_compact_eq [OF assms(4), of rest] compact_first_len_eq [OF assms(4), of rest]
    by blast
qed

theorem compact_bytes_through_buffers_witness:
  "length [4 :: byte, 5] < 2 ^ 63 \<and>
    (\<exists>c. encode_compact_bytes std_byteorder [] [4, 5] = c \<and> BufReader_read_compact_bytes (c @ [6]) = Ok ([4, 5], [6]))"
  using compact_bytes_through_buffers [OF byteorder_std zero_alloc.vec_alloc_axioms Cursor_rd.buffer_reader_axioms,
      of "[4, 5]" "\<lparr> vec_data = [], vec_spare = [] \<rparr>" "[]" "[6]"]
  by auto



end
