(* ===== verification/Txn_Key.thy ===== *)
theory Txn_Key
  imports Fact_Byte
begin

text \<open>
  Timestamps, keys and mutations of the transaction layer: \<open>timestamp.rs\<close> and \<open>types.rs\<close> of
  \<open>edb/LSH-Tree/txn_types/src\<close>. The codec these files import is the one of
  \<open>einsteindb_util\<close>. A message of the crate \<open>ekvproto\<close> is the record of the fields the code reads;
  \<open>farmhash\<close> is a parameter. Arithmetic on timestamps is modulo \<open>2 ^ 64\<close>, as in the release
  profile.
\<close>

section \<open>Timestamps (timestamp.rs)\<close>

datatype TimeStamp = TimeStamp (into_inner: u64)

instantiation TimeStamp :: linorder
begin

definition less_eq_TimeStamp :: "TimeStamp \<Rightarrow> TimeStamp \<Rightarrow> bool" where
  "less_eq_TimeStamp a b \<longleftrightarrow> into_inner a \<le> into_inner b"

definition less_TimeStamp :: "TimeStamp \<Rightarrow> TimeStamp \<Rightarrow> bool" where
  "less_TimeStamp a b \<longleftrightarrow> into_inner a < into_inner b"

instance
  by standard (auto simp: less_eq_TimeStamp_def less_TimeStamp_def TimeStamp.expand)

end

lemmas timestamp_order = less_eq_TimeStamp_def less_TimeStamp_def

definition TSO_PHYSICAL_SHIFT_BITS :: nat where [simp]: "TSO_PHYSICAL_SHIFT_BITS = 18"

definition TimeStamp_compose :: "u64 \<Rightarrow> u64 \<Rightarrow> TimeStamp" where
  "TimeStamp_compose physical logical = TimeStamp (push_bit TSO_PHYSICAL_SHIFT_BITS physical + logical)"

definition TimeStamp_zero :: TimeStamp where "TimeStamp_zero = TimeStamp 0"

definition TimeStamp_max :: TimeStamp where "TimeStamp_max = TimeStamp (- 1)"

definition TimeStamp_new :: "u64 \<Rightarrow> TimeStamp" where "TimeStamp_new ts = TimeStamp ts"

definition TimeStamp_physical :: "TimeStamp \<Rightarrow> u64" where
  "TimeStamp_physical self = drop_bit TSO_PHYSICAL_SHIFT_BITS (into_inner self)"

definition TimeStamp_next :: "TimeStamp \<Rightarrow> TimeStamp" where
  "TimeStamp_next self = TimeStamp (into_inner self + 1)"

definition TimeStamp_prev :: "TimeStamp \<Rightarrow> TimeStamp" where
  "TimeStamp_prev self = TimeStamp (into_inner self - 1)"

definition TimeStamp_incr :: "TimeStamp \<Rightarrow> TimeStamp" where
  "TimeStamp_incr self = TimeStamp (into_inner self + 1)"

definition TimeStamp_decr :: "TimeStamp \<Rightarrow> TimeStamp" where
  "TimeStamp_decr self = TimeStamp (into_inner self - 1)"

definition is_zero :: "TimeStamp \<Rightarrow> bool" where "is_zero self \<longleftrightarrow> into_inner self = 0"

definition is_max :: "TimeStamp \<Rightarrow> bool" where "is_max self \<longleftrightarrow> into_inner self = - 1"

definition TS_SET_USE_VEC_LIMIT :: usize where [simp]: "TS_SET_USE_VEC_LIMIT = 8"

datatype TsSet = TsSet_Empty | TsSet_Vec "TimeStamp list" | TsSet_Set "TimeStamp set"

definition TsSet_new :: "TimeStamp list \<Rightarrow> TsSet" where
  "TsSet_new ts =
    (if ts = [] then TsSet_Empty
     else if length ts \<le> TS_SET_USE_VEC_LIMIT then TsSet_Vec ts
     else TsSet_Set (set ts))"

definition TsSet_vec :: "TimeStamp list \<Rightarrow> TsSet" where
  "TsSet_vec ts = (if ts = [] then TsSet_Empty else TsSet_Vec ts)"

definition from_u64s :: "u64 list \<Rightarrow> TsSet" where
  "from_u64s ts = TsSet_new (map TimeStamp ts)"

definition vec_from_u64s :: "u64 list \<Rightarrow> TsSet" where
  "vec_from_u64s ts = TsSet_vec (map TimeStamp ts)"

fun TsSet_contains :: "TsSet \<Rightarrow> TimeStamp \<Rightarrow> bool" where
  "TsSet_contains TsSet_Empty ts = False"
| "TsSet_contains (TsSet_Vec vec) ts = (ts \<in> set vec)"
| "TsSet_contains (TsSet_Set s) ts = (ts \<in> s)"

section \<open>Keys (types.rs)\<close>

definition SHORT_VALUE_MAX_LEN :: usize where [simp]: "SHORT_VALUE_MAX_LEN = 255"

definition SHORT_VALUE_PREFIX :: byte where [simp]: "SHORT_VALUE_PREFIX = 0x76"

definition is_short_value :: "bytes \<Rightarrow> bool" where
  "is_short_value v \<longleftrightarrow> length v \<le> SHORT_VALUE_MAX_LEN"

datatype Key = Key (as_encoded: bytes)

instantiation Key :: linorder
begin

definition less_eq_Key :: "Key \<Rightarrow> Key \<Rightarrow> bool" where
  "less_eq_Key a b \<longleftrightarrow> as_encoded a \<le> as_encoded b"

definition less_Key :: "Key \<Rightarrow> Key \<Rightarrow> bool" where
  "less_Key a b \<longleftrightarrow> as_encoded a < as_encoded b"

instance
  by standard (auto simp: less_eq_Key_def less_Key_def Key.expand)

end

lemmas key_order = less_eq_Key_def less_Key_def

definition from_raw :: "bytes \<Rightarrow> Key" where
  "from_raw key = Key (encode_bytes_to [] key False)"

definition into_raw :: "Key \<Rightarrow> (codec_error, bytes) result" where
  "into_raw self = (let (k, r) = decode_bytes_in_place (as_encoded self) False in
    bind_result r (\<lambda>_. Ok k))"

definition to_raw :: "Key \<Rightarrow> (codec_error, bytes) result" where
  "to_raw self = result_map fst (decode_bytes (as_encoded self) False)"

definition from_encoded :: "bytes \<Rightarrow> Key" where
  "from_encoded encoded_key = Key encoded_key"

definition from_encoded_slice :: "bytes \<Rightarrow> Key" where
  "from_encoded_slice encoded_key = (let k = []; k = k @ encoded_key in Key k)"

definition into_encoded :: "Key \<Rightarrow> bytes" where
  "into_encoded self = as_encoded self"

definition applightlike_ts :: "byteorder_api \<Rightarrow> Key \<Rightarrow> TimeStamp \<Rightarrow> Key" where
  "applightlike_ts bo self ts = Key (encode_u64_desc bo (as_encoded self) (into_inner ts))"

definition decode_ts_from :: "byteorder_api \<Rightarrow> bytes \<Rightarrow> (codec_error, TimeStamp) result" where
  "decode_ts_from bo key = (let len = length key in
    if len < U64_SIZE then Err KeyLength
    else result_map (\<lambda>(ts, _). TimeStamp ts) (decode_u64_desc bo (drop (len - U64_SIZE) key)))"

definition decode_ts :: "byteorder_api \<Rightarrow> Key \<Rightarrow> (codec_error, TimeStamp) result" where
  "decode_ts bo self = decode_ts_from bo (as_encoded self)"

definition truncate_ts :: "Key \<Rightarrow> (codec_error, Key) result" where
  "truncate_ts self = (let len = length (as_encoded self) in
    if len < U64_SIZE then Err KeyLength else Ok (Key (take (len - U64_SIZE) (as_encoded self))))"

definition split_on_ts_for :: "byteorder_api \<Rightarrow> bytes \<Rightarrow> (codec_error, bytes \<times> TimeStamp) result" where
  "split_on_ts_for bo key =
    (if length key < U64_SIZE then Err KeyLength
     else let pos = length key - U64_SIZE; k = take pos key; ts = drop pos key in
       bind_result (decode_u64_desc bo ts) (\<lambda>(ts, _). Ok (k, TimeStamp ts)))"

definition truncate_ts_for :: "bytes \<Rightarrow> (codec_error, bytes) result" where
  "truncate_ts_for key = (let len = length key in
    if len < U64_SIZE then Err KeyLength else Ok (take (length key - U64_SIZE) key))"

definition is_user_key_eq :: "byteorder_api \<Rightarrow> bytes \<Rightarrow> bytes \<Rightarrow> bool" where
  "is_user_key_eq bo ts_encoded_key user_key = (let user_key_len = length user_key in
    if length ts_encoded_key \<noteq> user_key_len + U64_SIZE then False
    else if user_key_len \<ge> U64_SIZE then
      let left = bo_ne_read_u64 bo (drop (user_key_len - 8) ts_encoded_key);
          right = bo_ne_read_u64 bo (drop (user_key_len - 8) user_key) in
      if left \<noteq> right then False
      else take (user_key_len - 8) ts_encoded_key = take (user_key_len - 8) user_key
    else take user_key_len ts_encoded_key = user_key)"

definition Key_is_encoded_from :: "Key \<Rightarrow> bytes \<Rightarrow> bool" where
  "Key_is_encoded_from self raw_key = is_encoded_from (as_encoded self) raw_key False"

text \<open>\<open>unwrap\<close> panics on an error; \<open>fingerprint64\<close> is the function of the crate \<open>farmhash\<close>.\<close>

definition gen_hash :: "(bytes \<Rightarrow> u64) \<Rightarrow> Key \<Rightarrow> (codec_error, u64) result" where
  "gen_hash fingerprint64 self = (case to_raw self of Ok raw \<Rightarrow> Ok (fingerprint64 raw) | _ \<Rightarrow> Panic)"

section \<open>Mutations (types.rs)\<close>

datatype MutationType = MT_Put | MT_Delete | MT_Dagger | MT_Insert | MT_Other

datatype Mutation = M_Put Key bytes | M_Delete Key | M_Dagger Key | M_Insert Key bytes | M_CheckNotExists Key

fun Mutation_key :: "Mutation \<Rightarrow> Key" where
  "Mutation_key (M_Put key _) = key"
| "Mutation_key (M_Delete key) = key"
| "Mutation_key (M_Dagger key) = key"
| "Mutation_key (M_Insert key _) = key"
| "Mutation_key (M_CheckNotExists key) = key"

fun mutation_type :: "Mutation \<Rightarrow> MutationType" where
  "mutation_type (M_Put _ _) = MT_Put"
| "mutation_type (M_Delete _) = MT_Delete"
| "mutation_type (M_Dagger _) = MT_Dagger"
| "mutation_type (M_Insert _ _) = MT_Insert"
| "mutation_type _ = MT_Other"

fun into_key_value :: "Mutation \<Rightarrow> Key \<times> bytes option" where
  "into_key_value (M_Put key v) = (key, Some v)"
| "into_key_value (M_Delete key) = (key, None)"
| "into_key_value (M_Dagger key) = (key, None)"
| "into_key_value (M_Insert key v) = (key, Some v)"
| "into_key_value (M_CheckNotExists key) = (key, None)"

fun should_not_exists :: "Mutation \<Rightarrow> bool" where
  "should_not_exists (M_Insert _ _) = True"
| "should_not_exists (M_CheckNotExists _) = True"
| "should_not_exists _ = False"

fun should_not_write :: "Mutation \<Rightarrow> bool" where
  "should_not_write (M_CheckNotExists _) = True"
| "should_not_write _ = False"

text \<open>The operations of \<open>kvrpc\<close> the code names; every other one is \<open>Op_Other\<close>.\<close>

datatype Op = Op_Put | Op_Del | Op_Dagger | Op_Insert | Op_CheckNotExists | Op_PessimisticLock | Op_Other

record pb_mutation =
  pbm_op :: Op
  pbm_key :: bytes
  pbm_value :: bytes

definition Mutation_from :: "pb_mutation \<Rightarrow> (codec_error, Mutation) result" where
  "Mutation_from m = (case pbm_op m of
     Op_Put \<Rightarrow> Ok (M_Put (from_raw (pbm_key m)) (pbm_value m))
   | Op_Del \<Rightarrow> Ok (M_Delete (from_raw (pbm_key m)))
   | Op_Dagger \<Rightarrow> Ok (M_Dagger (from_raw (pbm_key m)))
   | Op_Insert \<Rightarrow> Ok (M_Insert (from_raw (pbm_key m)) (pbm_value m))
   | Op_CheckNotExists \<Rightarrow> Ok (M_CheckNotExists (from_raw (pbm_key m)))
   | _ \<Rightarrow> Panic)"

record OldValue =
  ov_short_value :: "bytes option"
  ov_spacelike_ts :: TimeStamp

definition OldValue_size :: "OldValue \<Rightarrow> nat" where
  "OldValue_size self =
    (let value_size = (case ov_short_value self of Some v \<Rightarrow> length v | None \<Rightarrow> 0) in value_size + 8)"

record TxnExtra =
  old_values :: "Key \<rightharpoonup> OldValue option \<times> MutationType"

definition add_old_value :: "TxnExtra \<Rightarrow> Key \<Rightarrow> OldValue option \<Rightarrow> MutationType \<Rightarrow> TxnExtra" where
  "add_old_value self key v mt =
    self\<lparr>old_values := (old_values self)(key \<mapsto> (v, mt))\<rparr>"

definition TxnExtra_is_empty :: "TxnExtra \<Rightarrow> bool" where
  "TxnExtra_is_empty self \<longleftrightarrow> old_values self = Map.empty"

text \<open>Both maps are changed: \<open>other\<close> is left empty.\<close>

definition TxnExtra_extlightlike :: "TxnExtra \<Rightarrow> TxnExtra \<Rightarrow> TxnExtra \<times> TxnExtra" where
  "TxnExtra_extlightlike self other =
    (self\<lparr>old_values := old_values self ++ old_values other\<rparr>, other\<lparr>old_values := Map.empty\<rparr>)"

section \<open>Timestamps\<close>

lemma push_bit_add_mod:
  assumes "unat p < 2 ^ 46" "unat l < 2 ^ 18"
  shows "unat (push_bit 18 p + l :: u64) = unat p * 2 ^ 18 + unat l"
proof -
  have "unat (push_bit 18 p) = unat p * 2 ^ 18"
    using assms by (simp add: push_bit_eq_mult unat_word_ariths)
  then show ?thesis using assms by (simp add: unat_word_ariths)
qed

section \<open>Keys\<close>

lemma take_add_eq_iff:
  assumes "length u = n + m" "n \<le> length t"
  shows "take n t = take n u \<and> take m (drop n t) = take m (drop n u) \<longleftrightarrow> take (n + m) t = u"
proof -
  have "take (n + m) t = u \<longleftrightarrow> take (n + m) t = take (n + m) u"
    using assms by simp
  also have "\<dots> \<longleftrightarrow> take n t = take n u \<and> take m (drop n t) = take m (drop n u)"
    unfolding take_add using assms by (intro append_eq_append_conv disjI1) simp
  finally show ?thesis by blast
qed

lemma as_encoded_from_raw: "as_encoded (from_raw raw) = encode_bytes raw"
  by (simp add: from_raw_def encode_bytes_def encode_order_bytes_def)

lemma from_raw_eq: "from_raw raw = Key (encode_bytes raw)"
  by (simp add: from_raw_def encode_bytes_def encode_order_bytes_def)

lemma Key_is_encoded_from_iff: "Key_is_encoded_from k raw \<longleftrightarrow> k = from_raw raw"
  by (cases k) (simp add: Key_is_encoded_from_def is_encoded_from_eq from_raw_eq encode_order_bytes_eq
      encode_bytes_def)

lemma to_raw_encoded: "to_raw (Key (encode_bytes raw @ rest)) = Ok raw"
  by (simp add: to_raw_def asc_bytes.dec_enc)

lemma to_raw_from_raw: "to_raw (from_raw raw) = Ok raw"
  using to_raw_encoded [of raw "[]"] by (simp add: from_raw_def encode_bytes_def encode_order_bytes_def)

lemma into_raw_eq_to_raw: "into_raw k = to_raw k"
  using decode_in_place_loop_eq [of 0 0 "as_encoded k" False]
  by (cases "mc_decode (as_encoded k)")
     (auto simp: into_raw_def to_raw_def decode_bytes_in_place_def decode_bytes_eq order_bytes_def
       case_prod_beta)

lemma is_user_key_eq_long:
  assumes "length ts_key = length user_key + 8" "8 \<le> length user_key"
  shows "is_user_key_eq bo ts_key user_key \<longleftrightarrow>
      take (length user_key - 8) ts_key = take (length user_key - 8) user_key \<and>
      bo_ne_read_u64 bo (drop (length user_key - 8) ts_key) = bo_ne_read_u64 bo (drop (length user_key - 8) user_key)"
  using assms unfolding is_user_key_eq_def Let_def U64_SIZE_def by auto

lemma truncate_ts_for_eq_iff:
  assumes "length ts_key = length user_key + 8"
  shows "truncate_ts_for ts_key = Ok user_key \<longleftrightarrow> take (length user_key) ts_key = user_key"
  using assms unfolding truncate_ts_for_def Let_def U64_SIZE_def by simp

lemma is_user_key_eq_short:
  assumes "length ts_key = length user_key + 8" "\<not> 8 \<le> length user_key"
  shows "is_user_key_eq bo ts_key user_key \<longleftrightarrow> truncate_ts_for ts_key = Ok user_key"
  using assms unfolding is_user_key_eq_def truncate_ts_for_def Let_def by simp

lemma truncate_ts_for_length: "length ts_key \<noteq> length user_key + 8 \<Longrightarrow> truncate_ts_for ts_key \<noteq> Ok user_key"
  unfolding truncate_ts_for_def Let_def by (cases "length ts_key < 8") auto

lemma is_user_key_eq_length: "length ts_key \<noteq> length user_key + 8 \<Longrightarrow> \<not> is_user_key_eq bo ts_key user_key"
  unfolding is_user_key_eq_def Let_def by simp

context byteorder
begin

lemma length_desc [simp]: "length (encode_u64_desc bo self v) = length self + 8"
  by (simp add: encode_u64_desc_def)

lemma encode_u64_desc_eq: "encode_u64_desc bo self v = self @ bo_be_write_u64 bo (NOT v)"
  by (simp add: encode_u64_desc_def)

lemma decode_u64_desc_code: "decode_u64_desc bo (bo_be_write_u64 bo (NOT v)) = Ok (v, [])"
  using decode_u64_desc_written [of "NOT v" "[]"] by (simp add: encode_u64_desc_eq)

lemma mvcc_order:
  "applightlike_ts bo (from_raw a) s < applightlike_ts bo (from_raw b) t \<longleftrightarrow> a < b \<or> (a = b \<and> t < s)"
  by (simp add: key_order applightlike_ts_def encode_u64_desc_eq as_encoded_from_raw asc_bytes.enc_order
      be64.wr_less_iff timestamp_order)

lemma ts_key_split:
  "split_on_ts_for bo (as_encoded (applightlike_ts bo k ts)) = Ok (as_encoded k, ts)"
  "truncate_ts (applightlike_ts bo k ts) = Ok k"
  "truncate_ts_for (as_encoded (applightlike_ts bo k ts)) = Ok (as_encoded k)"
  "decode_ts bo (applightlike_ts bo k ts) = Ok ts"
  by (simp_all add: split_on_ts_for_def truncate_ts_def truncate_ts_for_def decode_ts_def decode_ts_from_def
      applightlike_ts_def encode_u64_desc_eq decode_u64_desc_code Let_def)

lemma ne_read_eq_iff_prefix:
  assumes "8 \<le> length xs" "8 \<le> length ys"
  shows "bo_ne_read_u64 bo xs = bo_ne_read_u64 bo ys \<longleftrightarrow> take 8 xs = take 8 ys"
proof -
  have "bo_ne_read_u64 bo zs = bo_ne_read_u64 bo (take 8 zs)" if "8 \<le> length zs" for zs
    using ne_u64 that be64.val_rd [of zs] be64.val_rd [of "take 8 zs"] le64.le_val_rd [of zs]
      le64.le_val_rd [of "take 8 zs"] by (auto simp: word_unat_eq_iff)
  from this [OF assms(1)] this [OF assms(2)] show ?thesis
    using assms ne_read_eq_iff [of "take 8 xs" "take 8 ys"] by (simp only: length_take min.absorb2)
qed

lemma is_user_key_eq_iff:
  "is_user_key_eq bo ts_key user_key \<longleftrightarrow> truncate_ts_for ts_key = Ok user_key"
proof (cases "length ts_key = length user_key + 8")
  case len: True
  show ?thesis
  proof (cases "8 \<le> length user_key")
    case True
    let ?n = "length user_key - 8"
    have sizes: "?n \<le> length ts_key" "8 \<le> length (drop ?n ts_key)" "8 \<le> length (drop ?n user_key)"
      using len True by simp_all
    have n: "length user_key = ?n + 8" using True by simp
    have "is_user_key_eq bo ts_key user_key \<longleftrightarrow> take (?n + 8) ts_key = user_key"
      unfolding is_user_key_eq_long [OF len True] ne_read_eq_iff_prefix [OF sizes(2,3)]
      by (rule take_add_eq_iff [OF n sizes(1)])
    then show ?thesis
      unfolding truncate_ts_for_eq_iff [OF len] n [symmetric] .
  next
    case False
    then show ?thesis by (rule is_user_key_eq_short [OF len])
  qed
next
  case False
  then show ?thesis using is_user_key_eq_length truncate_ts_for_length by blast
qed

end

lemma TsSet_contains_new:
  "TsSet_contains (TsSet_new ts) t \<longleftrightarrow> t \<in> set ts" "TsSet_contains (TsSet_vec ts) t \<longleftrightarrow> t \<in> set ts"
  by (simp_all add: TsSet_new_def TsSet_vec_def)

section \<open>Properties\<close>

text \<open>
  (C11) The order of the versions in the engine: keys with an appended timestamp sort by user key
  first and, for one user key, from the newest version to the oldest. The encoding of a user key is
  never a proper prefix of another's, so the two parts never mix.
\<close>

theorem mvcc_key_order:
  assumes "byteorder bo"
  shows "applightlike_ts bo (from_raw a) s < applightlike_ts bo (from_raw b) t \<longleftrightarrow> a < b \<or> (a = b \<and> t < s)"
  by (rule byteorder.mvcc_order [OF assms])

theorem mvcc_key_order_witness:
  "applightlike_ts std_byteorder (from_raw [1, 2]) (TimeStamp 7) < applightlike_ts std_byteorder (from_raw [1, 2]) (TimeStamp 5) \<and>
   \<not> applightlike_ts std_byteorder (from_raw [1, 2]) (TimeStamp 7) < applightlike_ts std_byteorder (from_raw [1]) (TimeStamp 9)"
  using mvcc_key_order [OF byteorder_std, of "[1, 2]" "TimeStamp 7" "[1, 2]" "TimeStamp 5"]
    mvcc_key_order [OF byteorder_std, of "[1, 2]" "TimeStamp 7" "[1]" "TimeStamp 9"]
  by (simp add: timestamp_order)

text \<open>
  (C21) An appended timestamp is read back by every one of the accessors, the remaining user key is
  the original one, and \<open>is_user_key_eq\<close>, which compares the last eight bytes as one native-endian
  word first, decides whether truncation gives that user key.
\<close>

theorem mvcc_key_roundtrip:
  assumes "byteorder bo"
  shows "split_on_ts_for bo (as_encoded (applightlike_ts bo k ts)) = Ok (as_encoded k, ts) \<and>
    truncate_ts (applightlike_ts bo k ts) = Ok k \<and>
    truncate_ts_for (as_encoded (applightlike_ts bo k ts)) = Ok (as_encoded k) \<and>
    decode_ts bo (applightlike_ts bo k ts) = Ok ts \<and>
    (is_user_key_eq bo encoded user_key \<longleftrightarrow> truncate_ts_for encoded = Ok user_key)"
  using byteorder.ts_key_split [OF assms] byteorder.is_user_key_eq_iff [OF assms] by simp

theorem mvcc_key_roundtrip_witness:
  "byteorder std_byteorder \<and>
   truncate_ts (applightlike_ts std_byteorder (Key [1, 2, 3]) (TimeStamp 9)) = Ok (Key [1, 2, 3]) \<and>
   is_user_key_eq std_byteorder [0, 0, 1, 2, 3, 4, 5, 6, 7, 8] [0, 0]"
  using byteorder_std mvcc_key_roundtrip [OF byteorder_std, of "Key [1, 2, 3]" "TimeStamp 9"
      "[0, 0, 1, 2, 3, 4, 5, 6, 7, 8]" "[0, 0]"]
  by (simp add: truncate_ts_for_def)

text \<open>
  The raw key is recovered from the encoded one, by the copying and by the in-place decoder
  alike, on every input; the encoded key is checked against a raw key without decoding, and the hash
  of an encoded key is the hash of its raw key.
\<close>

theorem key_raw_roundtrip:
  "to_raw (from_raw raw) = Ok raw \<and> into_raw k = to_raw k \<and>
   (Key_is_encoded_from k raw \<longleftrightarrow> k = from_raw raw) \<and>
   gen_hash fingerprint64 (from_raw raw) = Ok (fingerprint64 raw)"
  by (simp add: to_raw_from_raw into_raw_eq_to_raw gen_hash_def Key_is_encoded_from_iff)

text \<open>
  A physical time below \<open>2 ^ 46\<close> milliseconds and a logical counter below \<open>2 ^ 18\<close> compose to
  a timestamp from which the physical part is read back, and such timestamps compare as the pairs do.
\<close>

theorem timestamp_compose_order:
  assumes "unat p < 2 ^ 46" "unat l < 2 ^ 18" "unat p' < 2 ^ 46" "unat l' < 2 ^ 18"
  shows "TimeStamp_physical (TimeStamp_compose p l) = p \<and>
    (TimeStamp_compose p l < TimeStamp_compose p' l' \<longleftrightarrow> p < p' \<or> (p = p' \<and> l < l'))"
proof
  have "unat (TimeStamp_physical (TimeStamp_compose p l)) = unat p"
    using assms(2) push_bit_add_mod [OF assms(1,2)]
    by (simp add: TimeStamp_physical_def TimeStamp_compose_def unat_drop_bit_div)
  then show "TimeStamp_physical (TimeStamp_compose p l) = p"
    by (simp add: word_unat_eq_iff)
  have "unat p * 2 ^ 18 + unat l < unat p' * 2 ^ 18 + unat l' \<longleftrightarrow> unat p < unat p' \<or> (unat p = unat p' \<and> unat l < unat l')"
    using assms by auto
  then show "TimeStamp_compose p l < TimeStamp_compose p' l' \<longleftrightarrow> p < p' \<or> (p = p' \<and> l < l')"
    using push_bit_add_mod [OF assms(1,2)] push_bit_add_mod [OF assms(3,4)]
    by (simp add: timestamp_order TimeStamp_compose_def word_less_nat_alt word_unat_eq_iff)
qed

theorem timestamp_compose_order_witness:
  "TimeStamp_physical (TimeStamp_compose 5 7) = 5 \<and> TimeStamp_compose 5 7 < TimeStamp_compose 6 3"
  using timestamp_compose_order [of 5 7 6 3] by simp

end
