(* ===== verification/Txn_Dagger.thy ===== *)
theory Txn_Dagger
  imports Txn_Key
begin

text \<open>
  Errors and locks of the transaction layer: \<open>lib.rs\<close> and \<open>dagger.rs\<close> of
  \<open>edb/LSH-Tree/txn_types/src\<close>. The code calls a lock a dagger. The theory holds the stored form of a
  dagger and its parser, the size reserved for it, and the check whether a dagger blocks a reader.
\<close>

declare bind_result_cong [fundef_cong]

section \<open>Errors (lib.rs)\<close>

text \<open>\<open>LockInfo\<close> is the message of \<open>kvrpc\<close>, with the fields that the code sets.\<close>

record LockInfo =
  li_primary_lock :: bytes
  li_lock_version :: u64
  li_key :: bytes
  li_lock_ttl :: u64
  li_txn_size :: u64
  li_lock_type :: Op
  li_lock_for_fidelio_ts :: u64
  li_use_async_commit :: bool
  li_min_commit_ts :: u64
  li_secondaries :: "bytes list"

definition LockInfo_default :: LockInfo where
  "LockInfo_default = \<lparr> li_primary_lock = [], li_lock_version = 0, li_key = [], li_lock_ttl = 0,
    li_txn_size = 0, li_lock_type = Op_Put, li_lock_for_fidelio_ts = 0, li_use_async_commit = False,
    li_min_commit_ts = 0, li_secondaries = [] \<rparr>"

datatype TxnError = TxnIo io_error | TxnCodec codec_error | BadFormatLock | BadFormatWrite | KeyIsLocked LockInfo

fun TxnError_maybe_clone :: "TxnError \<Rightarrow> TxnError option" where
  "TxnError_maybe_clone (TxnCodec e) = map_option TxnCodec (maybe_clone e)"
| "TxnError_maybe_clone BadFormatLock = Some BadFormatLock"
| "TxnError_maybe_clone BadFormatWrite = Some BadFormatWrite"
| "TxnError_maybe_clone (KeyIsLocked info) = Some (KeyIsLocked info)"
| "TxnError_maybe_clone (TxnIo _) = None"

section \<open>Lock types (dagger.rs)\<close>

datatype LockType = LT_Put | LT_Delete | LT_Dagger | LT_Pessimistic

definition FLAG_PUT :: byte where [simp]: "FLAG_PUT = 0x50"
definition FLAG_DELETE :: byte where [simp]: "FLAG_DELETE = 0x44"
definition FLAG_LOCK :: byte where [simp]: "FLAG_LOCK = 0x4c"
definition FLAG_PESSIMISTIC :: byte where [simp]: "FLAG_PESSIMISTIC = 0x53"
definition FOR_fidelio_TS_PREFIX :: byte where [simp]: "FOR_fidelio_TS_PREFIX = 0x66"
definition TXN_SIZE_PREFIX :: byte where [simp]: "TXN_SIZE_PREFIX = 0x74"
definition MIN_COMMIT_TS_PREFIX :: byte where [simp]: "MIN_COMMIT_TS_PREFIX = 0x63"
definition ASYNC_COMMIT_PREFIX :: byte where [simp]: "ASYNC_COMMIT_PREFIX = 0x61"
definition ROLLBACK_TS_PREFIX :: byte where [simp]: "ROLLBACK_TS_PREFIX = 0x72"

fun LockType_from_mutation :: "Mutation \<Rightarrow> LockType option" where
  "LockType_from_mutation (M_Put _ _) = Some LT_Put"
| "LockType_from_mutation (M_Insert _ _) = Some LT_Put"
| "LockType_from_mutation (M_Delete _) = Some LT_Delete"
| "LockType_from_mutation (M_Dagger _) = Some LT_Dagger"
| "LockType_from_mutation (M_CheckNotExists _) = None"

definition LockType_from_u8 :: "byte \<Rightarrow> LockType option" where
  "LockType_from_u8 b =
    (if b = FLAG_PUT then Some LT_Put
     else if b = FLAG_DELETE then Some LT_Delete
     else if b = FLAG_LOCK then Some LT_Dagger
     else if b = FLAG_PESSIMISTIC then Some LT_Pessimistic
     else None)"

fun LockType_to_u8 :: "LockType \<Rightarrow> byte" where
  "LockType_to_u8 LT_Put = FLAG_PUT"
| "LockType_to_u8 LT_Delete = FLAG_DELETE"
| "LockType_to_u8 LT_Dagger = FLAG_LOCK"
| "LockType_to_u8 LT_Pessimistic = FLAG_PESSIMISTIC"

section \<open>Daggers (dagger.rs)\<close>

record Dagger =
  d_lock_type :: LockType
  d_primary :: bytes
  d_ts :: TimeStamp
  d_ttl :: u64
  d_short_value :: "bytes option"
  d_for_fidelio_ts :: TimeStamp
  d_txn_size :: u64
  d_min_commit_ts :: TimeStamp
  d_use_async_commit :: bool
  d_secondaries :: "bytes list"
  d_rollback_ts :: "TimeStamp list"

definition Dagger_new ::
  "LockType \<Rightarrow> bytes \<Rightarrow> TimeStamp \<Rightarrow> u64 \<Rightarrow> bytes option \<Rightarrow> TimeStamp \<Rightarrow> u64 \<Rightarrow> TimeStamp \<Rightarrow> Dagger" where
  "Dagger_new lock_type primary ts ttl short_value for_fidelio_ts txn_size min_commit_ts =
    \<lparr> d_lock_type = lock_type, d_primary = primary, d_ts = ts, d_ttl = ttl, d_short_value = short_value,
      d_for_fidelio_ts = for_fidelio_ts, d_txn_size = txn_size, d_min_commit_ts = min_commit_ts,
      d_use_async_commit = False, d_secondaries = [], d_rollback_ts = [] \<rparr>"

definition use_async_commit :: "Dagger \<Rightarrow> bytes list \<Rightarrow> Dagger" where
  "use_async_commit self secondaries = self\<lparr>d_use_async_commit := True, d_secondaries := secondaries\<rparr>"

definition with_rollback_ts :: "Dagger \<Rightarrow> TimeStamp list \<Rightarrow> Dagger" where
  "with_rollback_ts self rollback_ts = self\<lparr>d_rollback_ts := rollback_ts\<rparr>"

text \<open>Sizes are those of values in memory, so the sum stays below the size of the address space.\<close>

definition pre_allocate_size :: "Dagger \<Rightarrow> usize" where
  "pre_allocate_size self = (
    let size = 1 + MAX_VAR_I64_LEN + length (d_primary self) + MAX_VAR_U64_LEN * 2;
        size = (case d_short_value self of Some v \<Rightarrow> size + (2 + length v) | None \<Rightarrow> size);
        size = (if \<not> is_zero (d_for_fidelio_ts self) then size + (1 + 8) else size);
        size = (if d_txn_size self > 0 then size + (1 + 8) else size);
        size = (if \<not> is_zero (d_min_commit_ts self) then size + (1 + 8) else size);
        size = (if d_use_async_commit self
          then size + (1 + MAX_VAR_U64_LEN + sum_list (map (\<lambda>k. MAX_VAR_I64_LEN + length k) (d_secondaries self)))
          else size);
        size = (if d_rollback_ts self \<noteq> []
          then size + (1 + MAX_VAR_U64_LEN + 8 * length (d_rollback_ts self)) else size)
    in size)"

definition Dagger_to_bytes :: "byteorder_api \<Rightarrow> Dagger \<Rightarrow> bytes" where
  "Dagger_to_bytes bo self = (
    let b = [];
        b = b @ [LockType_to_u8 (d_lock_type self)];
        b = encode_compact_bytes bo b (d_primary self);
        b = encode_var_u64 bo b (into_inner (d_ts self));
        b = encode_var_u64 bo b (d_ttl self);
        b = (case d_short_value self of
            Some v \<Rightarrow> (let b = b @ [SHORT_VALUE_PREFIX]; b = b @ [of_nat (length v)] in b @ v) | None \<Rightarrow> b);
        b = (if \<not> is_zero (d_for_fidelio_ts self)
          then encode_u64 bo (b @ [FOR_fidelio_TS_PREFIX]) (into_inner (d_for_fidelio_ts self)) else b);
        b = (if d_txn_size self > 0 then encode_u64 bo (b @ [TXN_SIZE_PREFIX]) (d_txn_size self) else b);
        b = (if \<not> is_zero (d_min_commit_ts self)
          then encode_u64 bo (b @ [MIN_COMMIT_TS_PREFIX]) (into_inner (d_min_commit_ts self)) else b);
        b = (if d_use_async_commit self
          then let b = b @ [ASYNC_COMMIT_PREFIX];
                   b = encode_var_u64 bo b (of_nat (length (d_secondaries self)))
               in foldl (\<lambda>b k. encode_compact_bytes bo b k) b (d_secondaries self)
          else b);
        b = (if d_rollback_ts self \<noteq> []
          then let b = b @ [ROLLBACK_TS_PREFIX];
                   b = encode_var_u64 bo b (of_nat (length (d_rollback_ts self)))
               in foldl (\<lambda>b ts. encode_u64 bo b (into_inner ts)) b (d_rollback_ts self)
          else b)
    in b)"

subsection \<open>Parsing\<close>

text \<open>\<open>ReadBytesExt::read_u8\<close> on a slice.\<close>

fun io_read_u8 :: "bytes \<Rightarrow> (TxnError, byte \<times> bytes) result" where
  "io_read_u8 [] = Err (TxnIo UnexpectedEof)"
| "io_read_u8 (x # b) = Ok (x, b)"

text \<open>\<open>?\<close> on an error of the codec.\<close>

abbreviation codec_try :: "(codec_error, 'a) result \<Rightarrow> (TxnError, 'a) result" where
  "codec_try r \<equiv> result_map_err TxnCodec r"

text \<open>The loop-carried variables of \<open>parse\<close>.\<close>

record dagger_locals =
  l_short_value :: "bytes option"
  l_for_fidelio_ts :: TimeStamp
  l_txn_size :: u64
  l_min_commit_ts :: TimeStamp
  l_use_async_commit :: bool
  l_secondaries :: "bytes list"
  l_rollback_ts :: "TimeStamp list"

definition dagger_locals_init :: dagger_locals where
  "dagger_locals_init = \<lparr> l_short_value = None, l_for_fidelio_ts = TimeStamp_zero, l_txn_size = 0,
    l_min_commit_ts = TimeStamp_zero, l_use_async_commit = False, l_secondaries = [], l_rollback_ts = [] \<rparr>"

fun read_secondaries :: "nat \<Rightarrow> bytes list \<Rightarrow> bytes \<Rightarrow> (TxnError, bytes list \<times> bytes) result" where
  "read_secondaries 0 acc b = Ok (acc, b)"
| "read_secondaries (Suc n) acc b =
    bind_result (codec_try (decode_compact_bytes b)) (\<lambda>(k, b). read_secondaries n (acc @ [k]) b)"

fun read_rollback_ts ::
  "byteorder_api \<Rightarrow> nat \<Rightarrow> TimeStamp list \<Rightarrow> bytes \<Rightarrow> (TxnError, TimeStamp list \<times> bytes) result" where
  "read_rollback_ts bo 0 acc b = Ok (acc, b)"
| "read_rollback_ts bo (Suc n) acc b =
    bind_result (codec_try (decode_u64 bo b)) (\<lambda>(v, b). read_rollback_ts bo n (acc @ [TimeStamp v]) b)"

text \<open>
  One turn of the loop. The count of secondaries is cast to the integer type that inference gives the
  range \<open>0..len\<close>, which is \<open>i32\<close>. \<open>Vec::with_capacity\<close> panics when its argument, here taken modulo
  the word size, asks for more than \<open>isize::MAX\<close> bytes.
\<close>

definition parse_dagger_field ::
  "byteorder_api \<Rightarrow> dagger_locals \<Rightarrow> bytes \<Rightarrow> (TxnError, dagger_locals \<times> bytes) result" where
  "parse_dagger_field bo l b =
    bind_result (io_read_u8 b) (\<lambda>(flag, b).
      if flag = SHORT_VALUE_PREFIX then
        bind_result (io_read_u8 b) (\<lambda>(len, b).
          if length b < unat len then Panic
          else Ok (l\<lparr>l_short_value := Some (take (unat len) b)\<rparr>, drop (unat len) b))
      else if flag = FOR_fidelio_TS_PREFIX then
        bind_result (codec_try (decode_u64 bo b)) (\<lambda>(v, b). Ok (l\<lparr>l_for_fidelio_ts := TimeStamp v\<rparr>, b))
      else if flag = TXN_SIZE_PREFIX then
        bind_result (codec_try (decode_u64 bo b)) (\<lambda>(v, b). Ok (l\<lparr>l_txn_size := v\<rparr>, b))
      else if flag = MIN_COMMIT_TS_PREFIX then
        bind_result (codec_try (decode_u64 bo b)) (\<lambda>(v, b). Ok (l\<lparr>l_min_commit_ts := TimeStamp v\<rparr>, b))
      else if flag = ASYNC_COMMIT_PREFIX then
        let l = l\<lparr>l_use_async_commit := True\<rparr> in
        bind_result (codec_try (decode_var_u64 b)) (\<lambda>(len, b).
          bind_result (read_secondaries (nat (sint (ucast len :: 32 word))) [] b) (\<lambda>(ks, b).
            Ok (l\<lparr>l_secondaries := ks\<rparr>, b)))
      else if flag = ROLLBACK_TS_PREFIX then
        bind_result (codec_try (decode_var_u64 b)) (\<lambda>(len, b).
          if unat (len + 1) * 8 > 2 ^ 63 - 1 then Panic
          else bind_result (read_rollback_ts bo (unat len) [] b) (\<lambda>(rs, b). Ok (l\<lparr>l_rollback_ts := rs\<rparr>, b)))
      else Panic)"

lemma decode_u64_rest: "decode_u64 bo b = Ok (v, b') \<Longrightarrow> length b' + 8 = length b"
  by (auto simp: decode_u64_def read_num_bytes_def read_slice_def Let_def split: if_splits)

lemma decode_var_u64_rest: "decode_var_u64 b = Ok (v, b') \<Longrightarrow> length b' < length b"
  by (auto simp: decode_var_u64_eq_spec decode_var_spec_def Let_def split: if_splits)

lemma decode_compact_rest: "decode_compact_bytes b = Ok (v, b') \<Longrightarrow> length b' < length b"
  by (auto simp: decode_compact_bytes_def decode_var_i64_def Let_def result_iffs
      dest: decode_var_u64_rest split: if_splits prod.splits)

lemma result_map_err_Ok_iff [simp]: "result_map_err f r = Ok y \<longleftrightarrow> r = Ok y"
  by (cases r) auto

lemma read_secondaries_rest: "read_secondaries n acc b = Ok (ks, b') \<Longrightarrow> length b' \<le> length b"
proof (induction n arbitrary: acc b)
  case (Suc n)
  then obtain k c where "decode_compact_bytes b = Ok (k, c)" "read_secondaries n (acc @ [k]) c = Ok (ks, b')"
    by (auto simp: bind_result_Ok_iff)
  then show ?case using Suc.IH decode_compact_rest by fastforce
qed simp

lemma read_rollback_ts_rest: "read_rollback_ts bo n acc b = Ok (rs, b') \<Longrightarrow> length b' \<le> length b"
proof (induction n arbitrary: acc b)
  case (Suc n)
  then obtain v c where "decode_u64 bo b = Ok (v, c)" "read_rollback_ts bo n (acc @ [TimeStamp v]) c = Ok (rs, b')"
    by (auto simp: bind_result_Ok_iff)
  then show ?case using Suc.IH decode_u64_rest by fastforce
qed simp

lemma io_read_u8_rest: "io_read_u8 b = Ok (x, b') \<Longrightarrow> length b' < length b"
  by (cases b) auto

lemma parse_dagger_field_rest: "parse_dagger_field bo l b = Ok (l', b') \<Longrightarrow> length b' < length b"
  unfolding parse_dagger_field_def bind_result_Ok_iff
  by (auto simp: bind_result_Ok_iff Let_def split: if_splits dest!: io_read_u8_rest decode_u64_rest
      decode_var_u64_rest read_secondaries_rest read_rollback_ts_rest)

function parse_dagger_loop :: "byteorder_api \<Rightarrow> dagger_locals \<Rightarrow> bytes \<Rightarrow> (TxnError, dagger_locals) result" where
  "parse_dagger_loop bo l b =
    (if b = [] then Ok l
     else bind_result (parse_dagger_field bo l b) (\<lambda>(l, b). parse_dagger_loop bo l b))"
  by pat_completeness auto
termination
  by (relation "measure (\<lambda>(_, _, b). length b)") (auto dest: parse_dagger_field_rest)

declare parse_dagger_loop.simps [simp del]

definition ok_or :: "'e \<Rightarrow> 'a option \<Rightarrow> ('e, 'a) result" where
  "ok_or e x = (case x of Some y \<Rightarrow> Ok y | None \<Rightarrow> Err e)"

definition Dagger_parse :: "byteorder_api \<Rightarrow> bytes \<Rightarrow> (TxnError, Dagger) result" where
  "Dagger_parse bo b =
    (if b = [] then Err BadFormatLock
     else bind_result (io_read_u8 b) (\<lambda>(x, b).
       bind_result (ok_or BadFormatLock (LockType_from_u8 x)) (\<lambda>lock_type.
       bind_result (codec_try (decode_compact_bytes b)) (\<lambda>(primary, b).
       bind_result (codec_try (decode_var_u64 b)) (\<lambda>(ts, b).
       bind_result (if b = [] then Ok (0, b) else codec_try (decode_var_u64 b)) (\<lambda>(ttl, b).
         if b = [] then
           Ok (Dagger_new lock_type primary (TimeStamp ts) ttl None TimeStamp_zero 0 TimeStamp_zero)
         else bind_result (parse_dagger_loop bo dagger_locals_init b) (\<lambda>l.
           let dagger = Dagger_new lock_type primary (TimeStamp ts) ttl (l_short_value l) (l_for_fidelio_ts l)
                 (l_txn_size l) (l_min_commit_ts l);
               dagger = (if l_use_async_commit l then use_async_commit dagger (l_secondaries l) else dagger);
               dagger = dagger\<lparr>d_rollback_ts := l_rollback_ts l\<rparr>
           in Ok dagger)))))))"

subsection \<open>Conflicts with a reader\<close>

fun lock_type_op :: "LockType \<Rightarrow> Op" where
  "lock_type_op LT_Put = Op_Put"
| "lock_type_op LT_Delete = Op_Del"
| "lock_type_op LT_Dagger = Op_Dagger"
| "lock_type_op LT_Pessimistic = Op_PessimisticLock"

definition into_lock_info :: "Dagger \<Rightarrow> bytes \<Rightarrow> LockInfo" where
  "into_lock_info self raw_key = LockInfo_default
    \<lparr> li_primary_lock := d_primary self,
      li_lock_version := into_inner (d_ts self),
      li_key := raw_key,
      li_lock_ttl := d_ttl self,
      li_txn_size := d_txn_size self,
      li_lock_type := lock_type_op (d_lock_type self),
      li_lock_for_fidelio_ts := into_inner (d_for_fidelio_ts self),
      li_use_async_commit := d_use_async_commit self,
      li_min_commit_ts := into_inner (d_min_commit_ts self),
      li_secondaries := d_secondaries self \<rparr>"

definition check_ts_conflict :: "Dagger \<Rightarrow> Key \<Rightarrow> TimeStamp \<Rightarrow> TsSet \<Rightarrow> (TxnError, unit) result" where
  "check_ts_conflict dagger key ts bypass_locks =
    (if d_ts dagger > ts \<or> d_lock_type dagger = LT_Dagger \<or> d_lock_type dagger = LT_Pessimistic then Ok ()
     else if d_min_commit_ts dagger > ts then Ok ()
     else if TsSet_contains bypass_locks (d_ts dagger) then Ok ()
     else bind_result (codec_try (to_raw key)) (\<lambda>raw_key.
       if ts = TimeStamp_max \<and> raw_key = d_primary dagger \<and> \<not> d_use_async_commit dagger then Ok ()
       else Err (KeyIsLocked (into_lock_info dagger raw_key))))"

definition is_pessimistic_txn :: "Dagger \<Rightarrow> bool" where
  "is_pessimistic_txn self \<longleftrightarrow> \<not> is_zero (d_for_fidelio_ts self)"

section \<open>What parsing gives back\<close>

text \<open>
  A dagger that can be stored and read back: the short value fits its length byte, the counts fit
  their types and secondaries come with async commit only.
\<close>

definition dagger_storable :: "Dagger \<Rightarrow> bool" where
  "dagger_storable d \<longleftrightarrow> length (d_primary d) < 2 ^ 63 \<and>
    (case d_short_value d of Some v \<Rightarrow> is_short_value v | None \<Rightarrow> True) \<and>
    length (d_secondaries d) < 2 ^ 31 \<and> list_all (\<lambda>k. length k < 2 ^ 63) (d_secondaries d) \<and>
    (d_use_async_commit d \<or> d_secondaries d = []) \<and> length (d_rollback_ts d) < 2 ^ 60 - 1"

lemma LockType_from_to [simp]: "LockType_from_u8 (LockType_to_u8 t) = Some t"
  by (cases t) (simp_all add: LockType_from_u8_def)

lemma into_inner_zero_iff: "into_inner t = 0 \<longleftrightarrow> t = TimeStamp_zero"
  by (cases t) (simp add: TimeStamp_zero_def)

lemma length_var_bytes: "length (var_bytes v) \<le> 10"
  using var_bytes_length_10 [of v] by auto

lemma i32_count: "n < 2 ^ 31 \<Longrightarrow> nat (sint (ucast (of_nat n :: u64) :: 32 word)) = n"
  by (simp add: unsigned_of_nat take_bit_nat_eq_self signed_of_nat signed_take_bit_int_eq_self)

lemma locals_update_same [simp]:
  "l_short_value l = sv \<Longrightarrow> l\<lparr>l_short_value := sv\<rparr> = (l :: dagger_locals)"
  "l_for_fidelio_ts l = t \<Longrightarrow> l\<lparr>l_for_fidelio_ts := t\<rparr> = l"
  "l_txn_size l = v \<Longrightarrow> l\<lparr>l_txn_size := v\<rparr> = l"
  "l_min_commit_ts l = t \<Longrightarrow> l\<lparr>l_min_commit_ts := t\<rparr> = l"
  "l_use_async_commit l = c \<Longrightarrow> l\<lparr>l_use_async_commit := c\<rparr> = l"
  "l_secondaries l = ks \<Longrightarrow> l\<lparr>l_secondaries := ks\<rparr> = l"
  "l_rollback_ts l = rs \<Longrightarrow> l\<lparr>l_rollback_ts := rs\<rparr> = l"
  by (cases l; simp)+

lemma parse_loop_Nil [simp]: "parse_dagger_loop bo l [] = Ok l"
  by (simp add: parse_dagger_loop.simps)

lemma parse_loop_step:
  assumes "parse_dagger_field bo l b = Ok (l', b')"
  shows "parse_dagger_loop bo l b = parse_dagger_loop bo l' b'"
proof -
  have "b \<noteq> []" using parse_dagger_field_rest [OF assms] by auto
  then show ?thesis using assms by (simp add: parse_dagger_loop.simps [of bo l b])
qed

definition short_field :: "bytes option \<Rightarrow> bytes" where
  "short_field sv = (case sv of Some v \<Rightarrow> SHORT_VALUE_PREFIX # of_nat (length v) # v | None \<Rightarrow> [])"

lemma parse_short_field:
  assumes "case sv of Some v \<Rightarrow> is_short_value v | None \<Rightarrow> True" "l_short_value l = None"
  shows "parse_dagger_loop bo l (short_field sv @ r) = parse_dagger_loop bo (l\<lparr>l_short_value := sv\<rparr>) r"
proof (cases sv)
  case (Some v)
  then have "unat (of_nat (length v) :: byte) = length v"
    using assms by (simp add: is_short_value_def unat_of_nat)
  then show ?thesis
    using Some by (intro parse_loop_step) (simp add: short_field_def parse_dagger_field_def)
qed (use assms in \<open>simp add: short_field_def\<close>)

definition number_field :: "byteorder_api \<Rightarrow> byte \<Rightarrow> u64 \<Rightarrow> bytes" where
  "number_field bo flag v = (if v = 0 then [] else flag # bo_be_write_u64 bo v)"

definition async_field :: "byteorder_api \<Rightarrow> bool \<Rightarrow> bytes list \<Rightarrow> bytes" where
  "async_field bo c ks = (if c then ASYNC_COMMIT_PREFIX # var_bytes (of_nat (length ks)) @
    concat (map (encode_compact_bytes bo []) ks) else [])"

definition rollback_field :: "byteorder_api \<Rightarrow> TimeStamp list \<Rightarrow> bytes" where
  "rollback_field bo rs = (if rs = [] then [] else ROLLBACK_TS_PREFIX # var_bytes (of_nat (length rs)) @
    concat (map (\<lambda>t. bo_be_write_u64 bo (into_inner t)) rs))"

context byteorder
begin

lemma parse_for_field:
  assumes "l_for_fidelio_ts l = TimeStamp_zero"
  shows "parse_dagger_loop bo l (number_field bo FOR_fidelio_TS_PREFIX (into_inner t) @ r) =
    parse_dagger_loop bo (l\<lparr>l_for_fidelio_ts := t\<rparr>) r"
proof (cases "t = TimeStamp_zero")
  case False
  then show ?thesis
    by (intro parse_loop_step) (simp add: number_field_def parse_dagger_field_def into_inner_zero_iff)
qed (use assms in \<open>simp add: number_field_def into_inner_zero_iff\<close>)

lemma parse_size_field:
  assumes "l_txn_size l = 0"
  shows "parse_dagger_loop bo l (number_field bo TXN_SIZE_PREFIX v @ r) = parse_dagger_loop bo (l\<lparr>l_txn_size := v\<rparr>) r"
proof (cases "v = 0")
  case False
  then show ?thesis by (intro parse_loop_step) (simp add: number_field_def parse_dagger_field_def)
qed (use assms in \<open>simp add: number_field_def\<close>)

lemma parse_min_commit_field:
  assumes "l_min_commit_ts l = TimeStamp_zero"
  shows "parse_dagger_loop bo l (number_field bo MIN_COMMIT_TS_PREFIX (into_inner t) @ r) =
    parse_dagger_loop bo (l\<lparr>l_min_commit_ts := t\<rparr>) r"
proof (cases "t = TimeStamp_zero")
  case False
  then show ?thesis
    by (intro parse_loop_step) (simp add: number_field_def parse_dagger_field_def into_inner_zero_iff)
qed (use assms in \<open>simp add: number_field_def into_inner_zero_iff\<close>)

lemma read_secondaries_written:
  assumes "list_all (\<lambda>k. length k < 2 ^ 63) ks"
  shows "read_secondaries (length ks) acc (concat (map (encode_compact_bytes bo []) ks) @ r) = Ok (acc @ ks, r)"
  using assms by (induction ks arbitrary: acc) (simp_all add: decode_compact_written(1))

lemma parse_async_field:
  assumes "\<not> l_use_async_commit l" "l_secondaries l = []" "c \<or> ks = []" "length ks < 2 ^ 31"
    "list_all (\<lambda>k. length k < 2 ^ 63) ks"
  shows "parse_dagger_loop bo l (async_field bo c ks @ r) =
    parse_dagger_loop bo (l\<lparr>l_use_async_commit := c, l_secondaries := ks\<rparr>) r"
proof (cases c)
  case True
  have "unat (of_nat (length ks) :: u64) = length ks" using assms(4) by (simp add: unat_of_nat)
  then show ?thesis
    using True i32_count [OF assms(4)] read_secondaries_written [OF assms(5)]
    by (intro parse_loop_step) (simp add: async_field_def parse_dagger_field_def decode_var_u64_var_bytes Let_def)
qed (use assms in \<open>simp add: async_field_def\<close>)

lemma read_rollback_written:
  "read_rollback_ts bo (length rs) acc (concat (map (\<lambda>t. bo_be_write_u64 bo (into_inner t)) rs) @ r) = Ok (acc @ rs, r)"
  by (induction rs arbitrary: acc) simp_all

lemma parse_rollback_field:
  assumes "l_rollback_ts l = []" "length rs < 2 ^ 60 - 1"
  shows "parse_dagger_loop bo l (rollback_field bo rs @ r) = parse_dagger_loop bo (l\<lparr>l_rollback_ts := rs\<rparr>) r"
proof (cases "rs = []")
  case False
  have "unat (of_nat (length rs) :: u64) = length rs" "unat (of_nat (length rs) + 1 :: u64) = length rs + 1"
    using assms(2) by (simp_all add: unat_of_nat unat_word_ariths)
  then show ?thesis
    using False assms(2) read_rollback_written
    by (intro parse_loop_step) (simp add: rollback_field_def parse_dagger_field_def decode_var_u64_var_bytes)
qed (use assms in \<open>simp add: rollback_field_def\<close>)

lemma encode_u64_eq: "encode_u64 bo b v = b @ bo_be_write_u64 bo v"
  by (simp add: encode_u64_def)

lemma compact_append: "encode_compact_bytes bo b k = b @ encode_compact_bytes bo [] k"
  by (simp add: encode_compact_bytes_eq)

lemma foldl_compact: "foldl (encode_compact_bytes bo) b ks = b @ concat (map (encode_compact_bytes bo []) ks)"
  by (induction ks rule: rev_induct) (simp_all add: compact_append [of "_ @ _"])

lemma foldl_u64:
  "foldl (\<lambda>b ts. b @ bo_be_write_u64 bo (into_inner ts)) b rs = b @ concat (map (\<lambda>t. bo_be_write_u64 bo (into_inner t)) rs)"
  by (induction rs rule: rev_induct) simp_all

lemma field_written:
  "(case sv of Some v \<Rightarrow> (let b = b @ [SHORT_VALUE_PREFIX]; b = b @ [of_nat (length v)] in b @ v) | None \<Rightarrow> b) =
    b @ short_field sv"
  "(if \<not> is_zero t then encode_u64 bo (b @ [flag]) (into_inner t) else b) = b @ number_field bo flag (into_inner t)"
  "(if n > 0 then encode_u64 bo (b @ [flag]) n else b) = b @ number_field bo flag n"
  "(if c then let b = b @ [ASYNC_COMMIT_PREFIX]; b = encode_var_u64 bo b (of_nat (length ks))
     in foldl (\<lambda>b k. encode_compact_bytes bo b k) b ks else b) = b @ async_field bo c ks"
  "(if rs \<noteq> [] then let b = b @ [ROLLBACK_TS_PREFIX]; b = encode_var_u64 bo b (of_nat (length rs))
     in foldl (\<lambda>b ts. encode_u64 bo b (into_inner ts)) b rs else b) = b @ rollback_field bo rs"
  by (simp_all add: short_field_def number_field_def async_field_def rollback_field_def is_zero_def Let_def
      encode_u64_eq encode_var_u64_eq foldl_compact foldl_u64 word_greater_zero_iff split: option.split)

lemma Dagger_to_bytes_eq:
  "Dagger_to_bytes bo d = LockType_to_u8 (d_lock_type d) # encode_compact_bytes bo [] (d_primary d) @
    var_bytes (into_inner (d_ts d)) @ var_bytes (d_ttl d) @ short_field (d_short_value d) @
    number_field bo FOR_fidelio_TS_PREFIX (into_inner (d_for_fidelio_ts d)) @
    number_field bo TXN_SIZE_PREFIX (d_txn_size d) @
    number_field bo MIN_COMMIT_TS_PREFIX (into_inner (d_min_commit_ts d)) @
    async_field bo (d_use_async_commit d) (d_secondaries d) @ rollback_field bo (d_rollback_ts d)"
  unfolding Dagger_to_bytes_def field_written by (simp add: Let_def encode_var_u64_eq compact_append [of "[_]"])

lemma parse_head:
  assumes "length primary < 2 ^ 63" "parse_dagger_loop bo dagger_locals_init r = Ok l"
  shows "Dagger_parse bo (LockType_to_u8 t # encode_compact_bytes bo [] primary @ var_bytes ts @ var_bytes ttl @ r) =
    Ok \<lparr> d_lock_type = t, d_primary = primary, d_ts = TimeStamp ts, d_ttl = ttl, d_short_value = l_short_value l,
      d_for_fidelio_ts = l_for_fidelio_ts l, d_txn_size = l_txn_size l, d_min_commit_ts = l_min_commit_ts l,
      d_use_async_commit = l_use_async_commit l,
      d_secondaries = (if l_use_async_commit l then l_secondaries l else []), d_rollback_ts = l_rollback_ts l \<rparr>"
proof (cases "r = []")
  case True
  then have "l = dagger_locals_init" using assms(2) by simp
  then show ?thesis
    using True decode_compact_written(1) [OF assms(1)] decode_var_u64_var_bytes [of ts] decode_var_u64_var_bytes [of ttl "[]"]
    by (simp add: Dagger_parse_def ok_or_def Dagger_new_def dagger_locals_init_def)
next
  case False
  then show ?thesis
    using assms(2) decode_compact_written(1) [OF assms(1)]
    by (simp add: Dagger_parse_def ok_or_def Dagger_new_def use_async_commit_def Let_def decode_var_u64_var_bytes)
qed

lemma parse_to_bytes:
  assumes "dagger_storable d"
  shows "Dagger_parse bo (Dagger_to_bytes bo d) = Ok d"
proof -
  let ?l = "\<lparr> l_short_value = d_short_value d, l_for_fidelio_ts = d_for_fidelio_ts d, l_txn_size = d_txn_size d,
    l_min_commit_ts = d_min_commit_ts d, l_use_async_commit = d_use_async_commit d,
    l_secondaries = d_secondaries d, l_rollback_ts = d_rollback_ts d \<rparr>"
  have "parse_dagger_loop bo dagger_locals_init (short_field (d_short_value d) @
      number_field bo FOR_fidelio_TS_PREFIX (into_inner (d_for_fidelio_ts d)) @
      number_field bo TXN_SIZE_PREFIX (d_txn_size d) @
      number_field bo MIN_COMMIT_TS_PREFIX (into_inner (d_min_commit_ts d)) @
      async_field bo (d_use_async_commit d) (d_secondaries d) @ rollback_field bo (d_rollback_ts d) @ []) = Ok ?l"
    using assms unfolding dagger_storable_def
    by (simp only: parse_short_field parse_for_field parse_size_field parse_min_commit_field parse_async_field
        parse_rollback_field dagger_locals_init_def dagger_locals.simps parse_loop_Nil simp_thms)
  moreover have "length (d_primary d) < 2 ^ 63" using assms by (simp add: dagger_storable_def)
  ultimately show ?thesis
    using assms unfolding Dagger_to_bytes_eq by (cases d) (auto simp: parse_head dagger_storable_def)
qed

lemma length_compact: "length (encode_compact_bytes bo [] k) \<le> 10 + length k"
  using length_var_bytes by (simp add: encode_compact_bytes_eq)

lemma length_concat_compact:
  "length (concat (map (encode_compact_bytes bo []) ks)) \<le> sum_list (map (\<lambda>k. 10 + length k) ks)"
  by (induction ks) (use length_compact in \<open>auto intro: add_mono\<close>)

lemma length_fields:
  "length (short_field sv) = (case sv of Some v \<Rightarrow> 2 + length v | None \<Rightarrow> 0)"
  "length (number_field bo flag n) = (if n = 0 then 0 else 9)"
  "length (async_field bo c ks) \<le> (if c then 11 + sum_list (map (\<lambda>k. 10 + length k) ks) else 0)"
  "length (rollback_field bo rs) \<le> (if rs = [] then 0 else 11 + 8 * length rs)"
proof -
  show "length (short_field sv) = (case sv of Some v \<Rightarrow> 2 + length v | None \<Rightarrow> 0)"
    by (simp add: short_field_def split: option.split)
  show "length (number_field bo flag n) = (if n = 0 then 0 else 9)" by (simp add: number_field_def)
  show "length (async_field bo c ks) \<le> (if c then 11 + sum_list (map (\<lambda>k. 10 + length k) ks) else 0)"
    using length_concat_compact [of ks] length_var_bytes [of "of_nat (length ks)"] by (simp add: async_field_def)
  have "length (concat (map (\<lambda>t. bo_be_write_u64 bo (into_inner t)) rs)) = 8 * length rs"
    by (induction rs) simp_all
  then show "length (rollback_field bo rs) \<le> (if rs = [] then 0 else 11 + 8 * length rs)"
    using length_var_bytes [of "of_nat (length rs)"] by (simp add: rollback_field_def)
qed

end

lemma pre_allocate_size_eq:
  "pre_allocate_size d = 31 + length (d_primary d) + (case d_short_value d of Some v \<Rightarrow> 2 + length v | None \<Rightarrow> 0) +
    (if into_inner (d_for_fidelio_ts d) = 0 then 0 else 9) + (if d_txn_size d = 0 then 0 else 9) +
    (if into_inner (d_min_commit_ts d) = 0 then 0 else 9) +
    (if d_use_async_commit d then 11 + sum_list (map (\<lambda>k. 10 + length k) (d_secondaries d)) else 0) +
    (if d_rollback_ts d = [] then 0 else 11 + 8 * length (d_rollback_ts d))"
proof -
  have add_if: "(if c then n + m else n) = n + (if c then m else 0)" for c and n m :: nat by simp
  have add_case: "(case sv of Some v \<Rightarrow> n + f v | None \<Rightarrow> n) = n + (case sv of Some v \<Rightarrow> f v | None \<Rightarrow> 0)"
    for sv :: "bytes option" and n and f :: "bytes \<Rightarrow> nat" by (cases sv) simp_all
  show ?thesis
    unfolding pre_allocate_size_def add_if add_case by (simp add: Let_def is_zero_def word_greater_zero_iff)
qed

lemma check_ts_conflict_raw:
  "check_ts_conflict d (from_raw raw) ts bypass =
    (if d_ts d \<le> ts \<and> d_lock_type d \<in> {LT_Put, LT_Delete} \<and> d_min_commit_ts d \<le> ts \<and>
        \<not> TsSet_contains bypass (d_ts d) \<and> \<not> (ts = TimeStamp_max \<and> raw = d_primary d \<and> \<not> d_use_async_commit d)
     then Err (KeyIsLocked (into_lock_info d raw)) else Ok ())"
  by (cases "d_lock_type d") (auto simp: check_ts_conflict_def to_raw_from_raw)

section \<open>Properties\<close>

text \<open>
  (C15) A stored dagger is read back whole: every optional field, written or left out, comes back, the
  async-commit secondaries and the rollback timestamps in order.
\<close>

theorem dagger_roundtrip:
  assumes "byteorder bo" "dagger_storable d"
  shows "Dagger_parse bo (Dagger_to_bytes bo d) = Ok d"
  by (rule byteorder.parse_to_bytes [OF assms])

theorem dagger_roundtrip_witness:
  "let d = with_rollback_ts (use_async_commit (Dagger_new LT_Put [1, 2] (TimeStamp 5) 3000 (Some [9]) (TimeStamp 0)
      2 (TimeStamp 8)) [[7], [8, 8]]) [TimeStamp 4]
   in byteorder std_byteorder \<and> dagger_storable d \<and> Dagger_parse std_byteorder (Dagger_to_bytes std_byteorder d) = Ok d"
  using dagger_roundtrip [OF byteorder_std, of "with_rollback_ts (use_async_commit (Dagger_new LT_Put [1, 2]
      (TimeStamp 5) 3000 (Some [9]) (TimeStamp 0) 2 (TimeStamp 8)) [[7], [8, 8]]) [TimeStamp 4]"] byteorder_std
  by (simp add: dagger_storable_def with_rollback_ts_def use_async_commit_def Dagger_new_def is_short_value_def Let_def)

text \<open>
  The capacity reserved for a dagger is enough for its stored form, so writing it never grows the
  vector.
\<close>

theorem dagger_size_reserved:
  assumes "byteorder bo"
  shows "length (Dagger_to_bytes bo d) \<le> pre_allocate_size d"
  using byteorder.length_compact [OF assms, of "d_primary d"] length_var_bytes [of "into_inner (d_ts d)"]
    length_var_bytes [of "d_ttl d"] byteorder.length_fields(3) [OF assms, of "d_use_async_commit d" "d_secondaries d"]
    byteorder.length_fields(4) [OF assms, of "d_rollback_ts d"]
  unfolding byteorder.Dagger_to_bytes_eq [OF assms] pre_allocate_size_eq list.size length_append
    byteorder.length_fields(1,2) [OF assms] by linarith

theorem dagger_size_reserved_witness:
  "byteorder std_byteorder \<and>
   length (Dagger_to_bytes std_byteorder (Dagger_new LT_Put [1, 2] (TimeStamp 5) 3 None (TimeStamp 0) 0 (TimeStamp 8))) \<le>
   pre_allocate_size (Dagger_new LT_Put [1, 2] (TimeStamp 5) 3 None (TimeStamp 0) 0 (TimeStamp 8))"
  using byteorder_std dagger_size_reserved [OF byteorder_std] by blast

text \<open>
  (C13) A dagger that blocks a reader blocks every later reader with the same error, up to the one
  exception the code makes for reading the newest version of the primary key without async commit; the
  blocking dagger writes data and belongs to a transaction that may still commit at or below the read
  timestamp.
\<close>

theorem conflict_upward_closed:
  assumes "check_ts_conflict d (from_raw raw) ts bypass \<noteq> Ok ()" "ts \<le> ts'"
    "ts' = TimeStamp_max \<Longrightarrow> raw = d_primary d \<Longrightarrow> d_use_async_commit d"
  shows "check_ts_conflict d (from_raw raw) ts' bypass = Err (KeyIsLocked (into_lock_info d raw)) \<and>
    check_ts_conflict d (from_raw raw) ts bypass = Err (KeyIsLocked (into_lock_info d raw)) \<and>
    d_ts d \<le> ts \<and> d_min_commit_ts d \<le> ts \<and> d_lock_type d \<in> {LT_Put, LT_Delete}"
  using assms unfolding check_ts_conflict_raw by (auto split: if_splits)

theorem conflict_upward_closed_witness:
  "let d = Dagger_new LT_Put [1] (TimeStamp 5) 3 None (TimeStamp 0) 0 (TimeStamp 0) in
   check_ts_conflict d (from_raw [1]) (TimeStamp 6) TsSet_Empty \<noteq> Ok () \<and> TimeStamp 6 \<le> TimeStamp 9 \<and>
   check_ts_conflict d (from_raw [1]) (TimeStamp 9) TsSet_Empty = Err (KeyIsLocked (into_lock_info d [1]))"
  using conflict_upward_closed [of "Dagger_new LT_Put [1] (TimeStamp 5) 3 None (TimeStamp 0) 0 (TimeStamp 0)" "[1]"
      "TimeStamp 6" TsSet_Empty "TimeStamp 9"]
  by (simp add: check_ts_conflict_raw Dagger_new_def timestamp_order TimeStamp_max_def Let_def)

end
