(* ===== verification/Txn_Write.thy ===== *)
theory Txn_Write
  imports Txn_Dagger
begin

text \<open>
  Write records of the transaction layer: \<open>write.rs\<close> of \<open>edb/LSH-Tree/txn_types/src\<close>. A record is
  written with the codec of \<open>einsteindb_util\<close> and read with the slice reader of the crate
  \<open>language_fact\<close>. \<open>Write\<close> and \<open>WriteRef\<close> differ in who owns the short value only, so one record
  type models both.
\<close>

section \<open>Write types\<close>

datatype WriteType = WT_Put | WT_Delete | WT_Dagger | WT_Rollback

definition FLAG_ROLLBACK :: byte where [simp]: "FLAG_ROLLBACK = 0x52"
definition FLAG_OVERLAPPED_ROLLBACK :: byte where [simp]: "FLAG_OVERLAPPED_ROLLBACK = 0x52"
definition PROTECTED_ROLLBACK_SHORT_VALUE :: bytes where [simp]: "PROTECTED_ROLLBACK_SHORT_VALUE = [0x70]"

fun WriteType_from_lock_type :: "LockType \<Rightarrow> WriteType option" where
  "WriteType_from_lock_type LT_Put = Some WT_Put"
| "WriteType_from_lock_type LT_Delete = Some WT_Delete"
| "WriteType_from_lock_type LT_Dagger = Some WT_Dagger"
| "WriteType_from_lock_type LT_Pessimistic = None"

definition WriteType_from_u8 :: "byte \<Rightarrow> WriteType option" where
  "WriteType_from_u8 b =
    (if b = FLAG_PUT then Some WT_Put
     else if b = FLAG_DELETE then Some WT_Delete
     else if b = FLAG_LOCK then Some WT_Dagger
     else if b = FLAG_ROLLBACK then Some WT_Rollback
     else None)"

fun WriteType_to_u8 :: "WriteType \<Rightarrow> byte" where
  "WriteType_to_u8 WT_Put = FLAG_PUT"
| "WriteType_to_u8 WT_Delete = FLAG_DELETE"
| "WriteType_to_u8 WT_Dagger = FLAG_LOCK"
| "WriteType_to_u8 WT_Rollback = FLAG_ROLLBACK"

section \<open>Write records\<close>

record Write =
  w_write_type :: WriteType
  w_spacelike_ts :: TimeStamp
  w_short_value :: "bytes option"
  w_has_overlapped_rollback :: bool

type_synonym WriteRef = Write

definition Write_new :: "WriteType \<Rightarrow> TimeStamp \<Rightarrow> bytes option \<Rightarrow> Write" where
  "Write_new write_type spacelike_ts short_value =
    \<lparr> w_write_type = write_type, w_spacelike_ts = spacelike_ts, w_short_value = short_value,
      w_has_overlapped_rollback = False \<rparr>"

definition Write_new_rollback :: "TimeStamp \<Rightarrow> bool \<Rightarrow> Write" where
  "Write_new_rollback spacelike_ts protected =
    (let short_value = (if protected then Some PROTECTED_ROLLBACK_SHORT_VALUE else None) in
     \<lparr> w_write_type = WT_Rollback, w_spacelike_ts = spacelike_ts, w_short_value = short_value,
       w_has_overlapped_rollback = False \<rparr>)"

definition set_overlapped_rollback :: "Write \<Rightarrow> bool \<Rightarrow> Write" where
  "set_overlapped_rollback self has_overlapped_rollback =
    self\<lparr>w_has_overlapped_rollback := has_overlapped_rollback\<rparr>"

definition Write_as_ref :: "Write \<Rightarrow> WriteRef" where
  "Write_as_ref self =
    \<lparr> w_write_type = w_write_type self, w_spacelike_ts = w_spacelike_ts self,
      w_short_value = w_short_value self, w_has_overlapped_rollback = w_has_overlapped_rollback self \<rparr>"

definition WriteRef_to_owned :: "WriteRef \<Rightarrow> Write" where
  "WriteRef_to_owned self =
    set_overlapped_rollback (Write_new (w_write_type self) (w_spacelike_ts self) (w_short_value self))
      (w_has_overlapped_rollback self)"

text \<open>\<open>map_err(|_| BadFormatWrite)\<close> on a read from the slice.\<close>

abbreviation write_try :: "(ErrorInner, 'a) result \<Rightarrow> (TxnError, 'a) result" where
  "write_try r \<equiv> result_map_err (\<lambda>_. BadFormatWrite) r"

abbreviation write_read_u8 :: "bytes \<Rightarrow> (TxnError, byte \<times> bytes) result" where
  "write_read_u8 b \<equiv> write_try (NumberDecoder_read_u8 slice_reader b)"

definition parse_type :: "bytes \<Rightarrow> (TxnError, WriteType) result" where
  "parse_type b = bind_result (write_read_u8 b) (\<lambda>(write_type_bytes, b).
    ok_or BadFormatWrite (WriteType_from_u8 write_type_bytes))"

text \<open>One turn of the loop of \<open>parse\<close>, on the short value and the flag found so far.\<close>

definition parse_write_field ::
  "bytes option \<times> bool \<Rightarrow> bytes \<Rightarrow> (TxnError, (bytes option \<times> bool) \<times> bytes) result" where
  "parse_write_field l b =
    bind_result (write_read_u8 b) (\<lambda>(flag, b).
      if flag = SHORT_VALUE_PREFIX then
        bind_result (write_read_u8 b) (\<lambda>(len, b).
          if length b < unat len then Panic
          else Ok ((Some (take (unat len) b), snd l), drop (unat len) b))
      else if flag = FLAG_OVERLAPPED_ROLLBACK then Ok ((fst l, True), b)
      else Panic)"

lemma slice_read_u8: "NumberDecoder_read_u8 slice_reader b = (case b of [] \<Rightarrow> Err eof | x # b \<Rightarrow> Ok (x, b))"
  by (cases b) (simp_all add: NumberDecoder_read_u8_def read_macro_def slice_reader_def NumberCodec_decode_u8_def
      slice_advance_def)

lemma parse_write_field_rest: "parse_write_field l b = Ok (l', b') \<Longrightarrow> length b' < length b"
  unfolding parse_write_field_def bind_result_Ok_iff
  by (auto simp: bind_result_Ok_iff slice_read_u8 split: if_splits list.splits)

function parse_write_loop :: "bytes option \<times> bool \<Rightarrow> bytes \<Rightarrow> (TxnError, bytes option \<times> bool) result" where
  "parse_write_loop l b =
    (if b = [] then Ok l else bind_result (parse_write_field l b) (\<lambda>(l, b). parse_write_loop l b))"
  by pat_completeness auto
termination
  by (relation "measure (\<lambda>(_, b). length b)") (auto dest: parse_write_field_rest)

declare parse_write_loop.simps [simp del]

definition WriteRef_parse :: "bytes \<Rightarrow> (TxnError, WriteRef) result" where
  "WriteRef_parse b =
    bind_result (write_read_u8 b) (\<lambda>(write_type_bytes, b).
    bind_result (ok_or BadFormatWrite (WriteType_from_u8 write_type_bytes)) (\<lambda>write_type.
    bind_result (write_try (NumberDecoder_read_var_u64 slice_reader b)) (\<lambda>(spacelike_ts, b).
    bind_result (parse_write_loop (None, False) b) (\<lambda>(short_value, has_overlapped_rollback).
      Ok \<lparr> w_write_type = write_type, w_spacelike_ts = TimeStamp spacelike_ts, w_short_value = short_value,
           w_has_overlapped_rollback = has_overlapped_rollback \<rparr>))))"

definition WriteRef_to_bytes :: "byteorder_api \<Rightarrow> WriteRef \<Rightarrow> bytes" where
  "WriteRef_to_bytes bo self = (
    let b = [];
        b = b @ [WriteType_to_u8 (w_write_type self)];
        b = encode_var_u64 bo b (into_inner (w_spacelike_ts self));
        b = (case w_short_value self of
            Some v \<Rightarrow> (let b = b @ [SHORT_VALUE_PREFIX]; b = b @ [of_nat (length v)] in b @ v) | None \<Rightarrow> b);
        b = (if w_has_overlapped_rollback self then b @ [FLAG_OVERLAPPED_ROLLBACK] else b)
    in b)"

definition WriteRef_is_protected :: "WriteRef \<Rightarrow> bool" where
  "WriteRef_is_protected self \<longleftrightarrow> w_write_type self = WT_Rollback \<and>
    (case map_option (\<lambda>v. v = PROTECTED_ROLLBACK_SHORT_VALUE) (w_short_value self) of
       Some p \<Rightarrow> p | None \<Rightarrow> False)"

section \<open>What parsing gives back\<close>

lemma WriteType_from_to [simp]: "WriteType_from_u8 (WriteType_to_u8 t) = Some t"
  by (cases t) (simp_all add: WriteType_from_u8_def)

lemma parse_write_loop_Nil [simp]: "parse_write_loop l [] = Ok l"
  by (simp add: parse_write_loop.simps)

lemma parse_write_loop_step:
  assumes "parse_write_field l b = Ok (l', b')"
  shows "parse_write_loop l b = parse_write_loop l' b'"
proof -
  have "b \<noteq> []" using parse_write_field_rest [OF assms] by auto
  then show ?thesis using assms by (simp add: parse_write_loop.simps [of l b])
qed

lemma parse_write_short:
  assumes "case sv of Some v \<Rightarrow> is_short_value v | None \<Rightarrow> True"
  shows "parse_write_loop (None, c) (short_field sv @ r) = parse_write_loop (sv, c) r"
proof (cases sv)
  case (Some v)
  then have "unat (of_nat (length v) :: byte) = length v"
    using assms by (simp add: is_short_value_def unat_of_nat)
  then show ?thesis
    using Some by (intro parse_write_loop_step) (simp add: short_field_def parse_write_field_def slice_read_u8)
qed (simp add: short_field_def)

lemma parse_write_flag:
  "parse_write_loop (sv, False) (if c then [FLAG_OVERLAPPED_ROLLBACK] else []) = Ok (sv, c)"
  using parse_write_loop_step [of "(sv, False)" "[FLAG_OVERLAPPED_ROLLBACK]" "(sv, True)" "[]"]
  by (simp add: parse_write_field_def slice_read_u8)

lemma slice_read_var_u64: "NumberDecoder_read_var_u64 slice_reader (var_bytes v @ r) = Ok (v, r)"
  using slice_rd.read_var_written(1) [of "var_bytes v @ r" v r] by (auto simp: slice_reader_def)

context byteorder
begin

lemma WriteRef_to_bytes_eq:
  "WriteRef_to_bytes bo w = WriteType_to_u8 (w_write_type w) # var_bytes (into_inner (w_spacelike_ts w)) @
    short_field (w_short_value w) @ (if w_has_overlapped_rollback w then [FLAG_OVERLAPPED_ROLLBACK] else [])"
  unfolding WriteRef_to_bytes_def field_written by (simp add: Let_def encode_var_u64_eq)

lemma parse_written:
  assumes "case w_short_value w of Some v \<Rightarrow> is_short_value v | None \<Rightarrow> True"
  shows "WriteRef_parse (WriteRef_to_bytes bo w) = Ok w"
  using parse_write_short [OF assms, of False "if w_has_overlapped_rollback w then [FLAG_OVERLAPPED_ROLLBACK] else []"]
    parse_write_flag
  unfolding WriteRef_to_bytes_eq WriteRef_parse_def
  by (cases w) (simp add: slice_read_u8 slice_read_var_u64 ok_or_def del: FLAG_OVERLAPPED_ROLLBACK_def)

end

section \<open>Properties\<close>

text \<open>
  (C16) A write record whose short value is short is read back whole from its stored form, with the
  rollback flag, although that flag is the byte that also marks a rollback record; the stored form stays
  within the capacity reserved for it, and the type alone is found at its front.
\<close>

theorem write_roundtrip:
  assumes "byteorder bo" "case w_short_value w of Some v \<Rightarrow> is_short_value v | None \<Rightarrow> True"
  shows "WriteRef_parse (WriteRef_to_bytes bo (Write_as_ref w)) = Ok w \<and>
    parse_type (WriteRef_to_bytes bo (Write_as_ref w)) = Ok (w_write_type w) \<and>
    WriteRef_to_owned (Write_as_ref w) = w \<and>
    length (WriteRef_to_bytes bo w) \<le> 1 + MAX_VAR_U64_LEN + SHORT_VALUE_MAX_LEN + 2 + 1"
proof -
  have ref: "Write_as_ref w = w" by (simp add: Write_as_ref_def)
  have "length (short_field (w_short_value w)) \<le> 257"
    using assms(2) by (cases "w_short_value w") (simp_all add: short_field_def is_short_value_def)
  then show ?thesis
    using byteorder.parse_written [OF assms] length_var_bytes [of "into_inner (w_spacelike_ts w)"]
    by (simp add: ref byteorder.WriteRef_to_bytes_eq [OF assms(1)] parse_type_def slice_read_u8 ok_or_def
        WriteRef_to_owned_def set_overlapped_rollback_def Write_new_def)
qed

theorem write_roundtrip_witness:
  "let w = set_overlapped_rollback (Write_new WT_Put (TimeStamp 300) (Some [1, 2])) True in
   is_short_value [1, 2 :: byte] \<and> WriteRef_parse (WriteRef_to_bytes std_byteorder w) = Ok w"
  using write_roundtrip [OF byteorder_std, of "set_overlapped_rollback (Write_new WT_Put (TimeStamp 300) (Some [1, 2])) True"]
  by (simp add: set_overlapped_rollback_def Write_new_def is_short_value_def Write_as_ref_def)

text \<open>
  Protection of a rollback survives storing: a rollback record is protected exactly when it was
  made so, also after it was written, marked as overlapped and read back, and no commit record counts
  as a protected rollback.
\<close>

theorem rollback_protection:
  assumes "byteorder bo"
  shows "result_map WriteRef_is_protected
      (WriteRef_parse (WriteRef_to_bytes bo (set_overlapped_rollback (Write_new_rollback ts protected) overlapped)))
      = Ok protected \<and>
    (WriteType_from_lock_type t = Some wt \<longrightarrow> \<not> WriteRef_is_protected (Write_new wt ts sv))"
  using byteorder.parse_written [OF assms, of "set_overlapped_rollback (Write_new_rollback ts protected) overlapped"]
  by (cases t) (auto simp: set_overlapped_rollback_def Write_new_rollback_def is_short_value_def Let_def
      WriteRef_is_protected_def Write_new_def)

theorem rollback_protection_witness:
  "byteorder std_byteorder \<and>
   result_map WriteRef_is_protected
      (WriteRef_parse (WriteRef_to_bytes std_byteorder (set_overlapped_rollback (Write_new_rollback (TimeStamp 4) True) True)))
      = Ok True \<and> WriteType_from_lock_type LT_Put = Some WT_Put \<and> \<not> WriteRef_is_protected (Write_new WT_Put (TimeStamp 4) None)"
  using byteorder_std rollback_protection [OF byteorder_std, of "TimeStamp 4" True True LT_Put WT_Put None] by simp

end
