(* ===== verification/Ordered_Map.thy ===== *)
theory Ordered_Map
  imports Main
begin

text \<open>
  Ordered maps: the part of \<open>std::collections::BTreeMap\<close> the modelled code uses. A map is the list of
  its entries in the order iteration gives them, with strictly increasing keys. The locale
  \<open>ordered_map\<close> is what the clients rely on; it is also the documented behaviour of the concurrent
  ordered map of the crate \<open>crossbeam_skiplist\<close>, each of whose operations is atomic.
\<close>

section \<open>Bounds (std::ops::Bound)\<close>

datatype 'a Bound = Included 'a | Excluded 'a | Unbounded

fun above :: "'a::linorder Bound \<Rightarrow> 'a \<Rightarrow> bool" where
  "above (Included s) k \<longleftrightarrow> s \<le> k"
| "above (Excluded s) k \<longleftrightarrow> s < k"
| "above Unbounded k \<longleftrightarrow> True"

fun below :: "'a::linorder Bound \<Rightarrow> 'a \<Rightarrow> bool" where
  "below (Included e) k \<longleftrightarrow> k \<le> e"
| "below (Excluded e) k \<longleftrightarrow> k < e"
| "below Unbounded k \<longleftrightarrow> True"

section \<open>Operations\<close>

type_synonym ('k, 'v) btree = "('k \<times> 'v) list"

fun bt_get :: "('k, 'v) btree \<Rightarrow> 'k \<Rightarrow> 'v option" where
  "bt_get [] k = None"
| "bt_get ((k', v) # m) k = (if k = k' then Some v else bt_get m k)"

fun bt_insert :: "'k::linorder \<Rightarrow> 'v \<Rightarrow> ('k, 'v) btree \<Rightarrow> ('k, 'v) btree" where
  "bt_insert k v [] = [(k, v)]"
| "bt_insert k v ((k', v') # m) =
    (if k < k' then (k, v) # (k', v') # m
     else if k = k' then (k, v) # m
     else (k', v') # bt_insert k v m)"

fun bt_remove :: "'k \<Rightarrow> ('k, 'v) btree \<Rightarrow> ('k, 'v) btree" where
  "bt_remove k [] = []"
| "bt_remove k ((k', v') # m) = (if k = k' then m else (k', v') # bt_remove k m)"

definition bt_sorted :: "('k::linorder, 'v) btree \<Rightarrow> bool" where
  "bt_sorted m \<longleftrightarrow> sorted_wrt (<) (map fst m)"

text \<open>\<open>keys().next()\<close>.\<close>

fun bt_first_key :: "('k, 'v) btree \<Rightarrow> 'k option" where
  "bt_first_key [] = None"
| "bt_first_key ((k, v) # m) = Some k"

section \<open>Laws\<close>

lemma bt_sorted_simps [simp]:
  "bt_sorted []"
  "bt_sorted ((k, v) # m) \<longleftrightarrow> (\<forall>x \<in> set m. k < fst x) \<and> bt_sorted m"
  by (auto simp: bt_sorted_def)

lemma keys_bt_insert [simp]: "fst ` set (bt_insert k v m) = insert k (fst ` set m)"
  by (induction k v m rule: bt_insert.induct) auto

lemma set_bt_insert_subset: "set (bt_insert k v m) \<subseteq> insert (k, v) (set m)"
  by (induction k v m rule: bt_insert.induct) auto

lemma set_bt_remove_subset: "set (bt_remove k m) \<subseteq> set m"
  by (induction k m rule: bt_remove.induct) auto

lemma bt_sorted_insert [simp]: "bt_sorted m \<Longrightarrow> bt_sorted (bt_insert k v m)"
proof (induction k v m rule: bt_insert.induct)
  case (2 k v k' v' m)
  then have "k' < k \<Longrightarrow> \<forall>x \<in> set (bt_insert k v m). k' < fst x" using set_bt_insert_subset [of k v m] by auto
  then show ?case using 2 by (auto simp: neq_iff intro: less_trans)
qed simp

lemma bt_sorted_remove [simp]: "bt_sorted m \<Longrightarrow> bt_sorted (bt_remove k m)"
proof (induction k m rule: bt_remove.induct)
  case (2 k k' v' m)
  then have "\<forall>x \<in> set (bt_remove k m). k' < fst x" using set_bt_remove_subset [of k m] by auto
  then show ?case using 2 by simp
qed simp

lemma bt_sorted_filter: "bt_sorted m \<Longrightarrow> bt_sorted (filter P m)"
  by (auto simp: bt_sorted_def sorted_wrt_map intro: sorted_wrt_filter)

lemma bt_get_insert [simp]: "bt_sorted m \<Longrightarrow> bt_get (bt_insert k v m) k' = (if k' = k then Some v else bt_get m k')"
  by (induction k v m rule: bt_insert.induct) auto

lemma bt_get_None_iff: "bt_get m k = None \<longleftrightarrow> k \<notin> fst ` set m"
  by (induction m k rule: bt_get.induct) auto

lemma bt_get_remove [simp]: "bt_sorted m \<Longrightarrow> bt_get (bt_remove k m) k' = (if k' = k then None else bt_get m k')"
proof (induction k m rule: bt_remove.induct)
  case (2 k l v' m)
  then have "bt_get m l = None" by (auto simp: bt_get_None_iff)
  then show ?case using 2 by (cases "k = l") auto
qed simp

lemma bt_get_Some_iff: "bt_sorted m \<Longrightarrow> bt_get m k = Some v \<longleftrightarrow> (k, v) \<in> set m"
  by (induction m k rule: bt_get.induct) auto

lemma bt_first_key_Some_iff:
  assumes "bt_sorted m"
  shows "bt_first_key m = Some k \<longleftrightarrow> bt_get m k \<noteq> None \<and> (\<forall>k'. bt_get m k' \<noteq> None \<longrightarrow> k \<le> k')"
proof (cases m rule: bt_first_key.cases)
  case (2 a v n)
  have least: "a \<le> k'" if "bt_get m k' \<noteq> None" for k'
    using that assms 2 unfolding bt_get_None_iff by auto
  have a: "bt_get m a \<noteq> None" "bt_first_key m = Some a" using 2 by simp_all
  then show ?thesis using least antisym [of a k] unfolding a(2) by blast
qed simp

lemma bt_first_key_None_iff: "bt_first_key m = None \<longleftrightarrow> m = []"
  by (cases m rule: bt_first_key.cases) auto

section \<open>The interface\<close>

locale ordered_map =
  fixes empty :: 'm
    and get :: "'m \<Rightarrow> 'k::linorder \<Rightarrow> 'v option"
    and put :: "'k \<Rightarrow> 'v \<Rightarrow> 'm \<Rightarrow> 'm"
    and remove :: "'k \<Rightarrow> 'm \<Rightarrow> 'm"
    and entries :: "'m \<Rightarrow> ('k \<times> 'v) list"
    and wf :: "'m \<Rightarrow> bool"
  assumes wf_empty: "wf empty" and wf_put: "wf m \<Longrightarrow> wf (put k v m)" and wf_remove: "wf m \<Longrightarrow> wf (remove k m)"
    and get_empty: "get empty k = None"
    and get_put: "wf m \<Longrightarrow> get (put k v m) k' = (if k' = k then Some v else get m k')"
    and get_remove: "wf m \<Longrightarrow> get (remove k m) k' = (if k' = k then None else get m k')"
    and entries_get: "wf m \<Longrightarrow> (k, v) \<in> set (entries m) \<longleftrightarrow> get m k = Some v"
    and entries_sorted: "wf m \<Longrightarrow> sorted_wrt (<) (map fst (entries m))"
begin

lemma get_put_other: "wf m \<Longrightarrow> k' \<noteq> k \<Longrightarrow> get (put k v m) k' = get m k'"
  by (simp add: get_put)

lemma entries_distinct: "wf m \<Longrightarrow> distinct (map fst (entries m))"
  using entries_sorted strict_sorted_iff by blast

end

interpretation btree: ordered_map "[]" bt_get bt_insert bt_remove "\<lambda>m. m" bt_sorted
  by unfold_locales (simp_all add: bt_get_Some_iff, simp add: bt_sorted_def)

end
