(* ===== verification/Resolver.thy ===== *)
theory Resolver
  imports Txn_Key Ordered_Map
begin

text \<open>
  The resolver of \<open>edb/LSH-Tree/log_wrappers/resolved_ts/src/lib.rs\<close>: it tracks the locks of a region
  and computes a timestamp before which no further commit can happen. Assertions are modelled as
  panics; the hash set of locked keys is a set. The client of the resolver is described by a contract
  on the sequence of its calls.
\<close>

section \<open>The resolver\<close>

record Resolver =
  r_brane_id :: u64
  r_locks :: "(TimeStamp, bytes set) btree"
  r_resolved_ts :: "TimeStamp option"
  r_min_ts :: TimeStamp

definition Resolver_new :: "u64 \<Rightarrow> Resolver" where
  "Resolver_new brane_id = \<lparr> r_brane_id = brane_id, r_locks = [], r_resolved_ts = None, r_min_ts = TimeStamp_zero \<rparr>"

definition Resolver_init :: "Resolver \<Rightarrow> Resolver" where
  "Resolver_init self = self\<lparr>r_resolved_ts := Some TimeStamp_zero\<rparr>"

definition track_lock :: "Resolver \<Rightarrow> TimeStamp \<Rightarrow> bytes \<Rightarrow> Resolver" where
  "track_lock self spacelike_ts key =
    (let keys = (case bt_get (r_locks self) spacelike_ts of Some ks \<Rightarrow> ks | None \<Rightarrow> {}) in
     self\<lparr>r_locks := bt_insert spacelike_ts (insert key keys) (r_locks self)\<rparr>)"

definition untrack_lock :: "Resolver \<Rightarrow> TimeStamp \<Rightarrow> TimeStamp option \<Rightarrow> bytes \<Rightarrow> (unit, Resolver) result" where
  "untrack_lock self spacelike_ts commit_ts key =
    (if (case commit_ts of
           Some c \<Rightarrow> \<not> (case r_resolved_ts self of Some rts \<Rightarrow> c > rts | None \<Rightarrow> True) \<or> \<not> c > r_min_ts self
         | None \<Rightarrow> False) then Panic
     else let entry = bt_get (r_locks self) spacelike_ts in
       if \<not> (entry \<noteq> None \<or> commit_ts = None) then Panic
       else case entry of
         None \<Rightarrow> Ok self
       | Some locked \<Rightarrow>
           if \<not> (key \<in> locked \<or> commit_ts = None) then Panic
           else let locked = locked - {key} in
             if locked = {} then Ok (self\<lparr>r_locks := bt_remove spacelike_ts (r_locks self)\<rparr>)
             else Ok (self\<lparr>r_locks := bt_insert spacelike_ts locked (r_locks self)\<rparr>))"

definition resolve :: "Resolver \<Rightarrow> TimeStamp \<Rightarrow> Resolver \<times> TimeStamp option" where
  "resolve self min_ts = (case r_resolved_ts self of
     None \<Rightarrow> (self, None)
   | Some old_resolved_ts \<Rightarrow>
       let min_lock = bt_first_key (r_locks self);
           has_lock = (min_lock \<noteq> None);
           min_spacelike_ts = (case min_lock of Some t \<Rightarrow> t | None \<Rightarrow> min_ts);
           new_resolved_ts = min min_spacelike_ts min_ts;
           self = self\<lparr>r_resolved_ts := Some (max old_resolved_ts new_resolved_ts)\<rparr>;
           new_min_ts = (if has_lock then new_resolved_ts else min_ts);
           self = self\<lparr>r_min_ts := max (r_min_ts self) new_min_ts\<rparr>
       in (self, r_resolved_ts self))"

section \<open>Sequences of calls\<close>

datatype call = Init | Track TimeStamp bytes | Untrack TimeStamp "TimeStamp option" bytes | Resolve TimeStamp

fun call_step :: "Resolver \<Rightarrow> call \<Rightarrow> (unit, Resolver) result" where
  "call_step r Init = Ok (Resolver_init r)"
| "call_step r (Track s k) = Ok (track_lock r s k)"
| "call_step r (Untrack s c k) = untrack_lock r s c k"
| "call_step r (Resolve m) = Ok (fst (resolve r m))"

fun run_calls :: "Resolver \<Rightarrow> call list \<Rightarrow> (unit, Resolver) result" where
  "run_calls r [] = Ok r"
| "run_calls r (e # es) = bind_result (call_step r e) (\<lambda>r. run_calls r es)"

text \<open>
  The contract of the client. It remembers the largest timestamp that was passed to \<open>resolve\<close> and, for
  every tracked lock, what that timestamp was when the lock was first tracked. A lock may be released
  with a commit timestamp only if it is tracked and the commit timestamp is above its start timestamp
  and above every timestamp passed to \<open>resolve\<close> before the lock was tracked: the timestamp oracle
  hands out the commit timestamp after the lock is written.
\<close>

record client =
  c_issued :: TimeStamp
  c_floors :: "TimeStamp \<times> bytes \<rightharpoonup> TimeStamp"

definition client_start :: client where
  "client_start = \<lparr> c_issued = TimeStamp_zero, c_floors = Map.empty \<rparr>"

fun client_step :: "client \<Rightarrow> call \<Rightarrow> client" where
  "client_step c Init = c"
| "client_step c (Track s k) = (case c_floors c (s, k) of
     Some _ \<Rightarrow> c | None \<Rightarrow> c\<lparr>c_floors := (c_floors c)((s, k) \<mapsto> c_issued c)\<rparr>)"
| "client_step c (Untrack s _ k) = c\<lparr>c_floors := (c_floors c)((s, k) := None)\<rparr>"
| "client_step c (Resolve m) = c\<lparr>c_issued := max (c_issued c) m\<rparr>"

fun call_allowed :: "client \<Rightarrow> call \<Rightarrow> bool" where
  "call_allowed c (Untrack s (Some t) k) = (case c_floors c (s, k) of Some f \<Rightarrow> s < t \<and> f < t | None \<Rightarrow> False)"
| "call_allowed c _ = True"

fun contract :: "client \<Rightarrow> call list \<Rightarrow> bool" where
  "contract c [] = True"
| "contract c (e # es) = (call_allowed c e \<and> contract (client_step c e) es)"

text \<open>The client after a sequence of calls.\<close>

fun client_run :: "client \<Rightarrow> call list \<Rightarrow> client" where
  "client_run c [] = c"
| "client_run c (e # es) = client_run (client_step c e) es"

lemma contract_append: "contract c (es @ fs) \<longleftrightarrow> contract c es \<and> contract (client_run c es) fs"
  by (induction es arbitrary: c) auto

section \<open>The invariant\<close>

definition tracked :: "Resolver \<Rightarrow> TimeStamp \<Rightarrow> bytes \<Rightarrow> bool" where
  "tracked r s k \<longleftrightarrow> (case bt_get (r_locks r) s of Some ks \<Rightarrow> k \<in> ks | None \<Rightarrow> False)"

text \<open>The larger of the two watermarks, the resolved timestamp taken as zero before initialisation.\<close>

definition watermark :: "Resolver \<Rightarrow> TimeStamp" where
  "watermark r = max (r_min_ts r) (case r_resolved_ts r of Some t \<Rightarrow> t | None \<Rightarrow> TimeStamp_zero)"

definition locks_wf :: "Resolver \<Rightarrow> bool" where
  "locks_wf r \<longleftrightarrow> bt_sorted (r_locks r) \<and> (\<forall>s. bt_get (r_locks r) s \<noteq> Some {})"

definition agrees :: "Resolver \<Rightarrow> client \<Rightarrow> bool" where
  "agrees r c \<longleftrightarrow> locks_wf r \<and> watermark r \<le> c_issued c \<and>
    (\<forall>s k. tracked r s k \<longleftrightarrow> c_floors c (s, k) \<noteq> None) \<and>
    (\<forall>s k f. c_floors c (s, k) = Some f \<longrightarrow> watermark r \<le> max s f)"

lemma TimeStamp_zero_le [simp]: "TimeStamp_zero \<le> t"
  by (simp add: TimeStamp_zero_def timestamp_order)

lemma tracked_track [simp]:
  "locks_wf r \<Longrightarrow> tracked (track_lock r s k) s' k' \<longleftrightarrow> tracked r s' k' \<or> (s', k') = (s, k)"
  by (auto simp: tracked_def track_lock_def locks_wf_def Let_def split: option.splits)

lemma locks_wf_track [simp]: "locks_wf r \<Longrightarrow> locks_wf (track_lock r s k)"
  by (auto simp: track_lock_def locks_wf_def Let_def split: option.splits if_splits)

lemma watermark_track [simp]: "watermark (track_lock r s k) = watermark r"
  by (simp add: watermark_def track_lock_def Let_def)

lemma untrack_cases:
  assumes "untrack_lock r s c k = Ok r'"
  obtains "bt_get (r_locks r) s = None" "r' = r"
  | ks where "bt_get (r_locks r) s = Some ks" "ks - {k} = {}" "r' = r\<lparr>r_locks := bt_remove s (r_locks r)\<rparr>"
  | ks where "bt_get (r_locks r) s = Some ks" "ks - {k} \<noteq> {}" "r' = r\<lparr>r_locks := bt_insert s (ks - {k}) (r_locks r)\<rparr>"
  using assms by (auto simp: untrack_lock_def Let_def split: if_splits option.splits)

lemma untrack_Ok:
  assumes "locks_wf r" "untrack_lock r s c k = Ok r'"
  shows "locks_wf r'" "watermark r' = watermark r" "tracked r' s' k' \<longleftrightarrow> tracked r s' k' \<and> (s', k') \<noteq> (s, k)"
  using assms(1) by (cases rule: untrack_cases [OF assms(2)];
      auto simp: locks_wf_def watermark_def tracked_def split: option.splits if_splits)+

lemma untrack_rollback: "\<exists>r'. untrack_lock r s None k = Ok r'"
  by (simp add: untrack_lock_def Let_def split: option.split)

lemma untrack_commit:
  assumes "tracked r s k" "watermark r < c"
  shows "\<exists>r'. untrack_lock r s (Some c) k = Ok r'"
  using assms by (auto simp: untrack_lock_def tracked_def watermark_def Let_def split: option.splits)

lemma watermark_resolve:
  "watermark (fst (resolve r m)) = (case r_resolved_ts r of None \<Rightarrow> watermark r
    | Some _ \<Rightarrow> max (watermark r) (case bt_first_key (r_locks r) of Some t \<Rightarrow> min t m | None \<Rightarrow> m))"
  by (auto simp: watermark_def resolve_def Let_def max.assoc max.commute max.left_commute split: option.split)

lemma resolve_locks [simp]: "r_locks (fst (resolve r m)) = r_locks r"
  by (simp add: resolve_def Let_def split: option.split)

lemma first_lock_le:
  assumes "locks_wf r" "tracked r s k" "bt_first_key (r_locks r) = Some t"
  shows "t \<le> s"
  using assms by (auto simp: locks_wf_def tracked_def bt_first_key_Some_iff split: option.splits)

section \<open>Every call keeps the invariant\<close>

lemma agrees_resolve:
  assumes "agrees r c"
  shows "agrees (fst (resolve r m)) (c\<lparr>c_issued := max (c_issued c) m\<rparr>)"
proof -
  let ?r = "fst (resolve r m)"
  have same: "locks_wf ?r \<longleftrightarrow> locks_wf r" "tracked ?r s k \<longleftrightarrow> tracked r s k" for s k
    by (simp_all add: locks_wf_def tracked_def)
  have "watermark ?r \<le> max s f" if "c_floors c (s, k) = Some f" for s k f
  proof -
    have old: "watermark r \<le> max s f" and lock: "tracked r s k" using assms that by (auto simp: agrees_def)
    show ?thesis
    proof (cases "bt_first_key (r_locks r)")
      case None
      then show ?thesis using lock by (simp add: tracked_def bt_first_key_None_iff)
    next
      case (Some t)
      then have "t \<le> s" using first_lock_le [OF _ lock] assms by (simp add: agrees_def)
      then show ?thesis using old Some by (auto simp: watermark_resolve le_max_iff_disj min_le_iff_disj split: option.split)
    qed
  qed
  moreover have "watermark ?r \<le> max (c_issued c) m"
    using assms by (auto simp: agrees_def watermark_resolve le_max_iff_disj min_le_iff_disj split: option.split)
  ultimately show ?thesis using assms by (simp add: agrees_def same)
qed

lemma agrees_track:
  assumes "agrees r c"
  shows "agrees (track_lock r s k) (client_step c (Track s k))"
  using assms by (auto simp: agrees_def le_max_iff_disj split: option.splits)

lemma agrees_untrack:
  assumes "agrees r c" "untrack_lock r s t k = Ok r'"
  shows "agrees r' (client_step c (Untrack s t k))"
proof -
  have wf: "locks_wf r" using assms(1) by (simp add: agrees_def)
  show ?thesis using assms(1) untrack_Ok [OF wf assms(2)] by (simp add: agrees_def)
qed

lemma agrees_init: "agrees r c \<Longrightarrow> agrees (Resolver_init r) c"
  by (auto simp: agrees_def Resolver_init_def locks_wf_def watermark_def tracked_def)

lemma call_step_agrees:
  assumes "agrees r c" "call_allowed c e"
  shows "\<exists>r'. call_step r e = Ok r' \<and> agrees r' (client_step c e)"
proof (cases e)
  case (Untrack s t k)
  have "\<exists>r'. untrack_lock r s t k = Ok r'"
  proof (cases t)
    case (Some ct)
    then obtain f where f: "c_floors c (s, k) = Some f" "s < ct" "f < ct"
      using assms(2) Untrack by (auto split: option.splits)
    then have "tracked r s k" "watermark r \<le> max s f" using assms(1) by (auto simp: agrees_def)
    moreover have "max s f < ct" using f by simp
    ultimately have "tracked r s k" "watermark r < ct" using le_less_trans by blast+
    then show ?thesis using untrack_commit Some by blast
  qed (simp add: untrack_rollback)
  then show ?thesis using Untrack agrees_untrack [OF assms(1)] by auto
qed (use assms agrees_init agrees_track agrees_resolve in auto)

lemma run_calls_agrees:
  assumes "agrees r c" "contract c es"
  shows "\<exists>r'. run_calls r es = Ok r' \<and> agrees r' (client_run c es)"
  using assms
proof (induction es arbitrary: r c)
  case (Cons e es)
  then obtain r' where "call_step r e = Ok r'" "agrees r' (client_step c e)"
    using call_step_agrees [of r c e] by auto
  then show ?case using Cons by auto
qed (simp add: agrees_def)

lemma agrees_start: "agrees (Resolver_new b) client_start"
  by (simp add: agrees_def Resolver_new_def client_start_def locks_wf_def watermark_def tracked_def)

section \<open>Commits that come later\<close>

text \<open>
  A timestamp below everything the client may still commit: it was issued to \<open>resolve\<close>, and no tracked
  lock has both its start timestamp and its floor below it.
\<close>

definition above_floors :: "client \<Rightarrow> TimeStamp \<Rightarrow> bool" where
  "above_floors c w \<longleftrightarrow> w \<le> c_issued c \<and> (\<forall>s k f. c_floors c (s, k) = Some f \<longrightarrow> w \<le> max s f)"

lemma above_floors_step: "above_floors c w \<Longrightarrow> above_floors (client_step c e) w"
  by (cases e) (auto simp: above_floors_def le_max_iff_disj split: option.splits)

lemma later_commit_above:
  assumes "above_floors c w" "contract c (es @ [Untrack s (Some t) k])"
  shows "w < t"
  using assms
proof (induction es arbitrary: c)
  case Nil
  then obtain f where f: "c_floors c (s, k) = Some f" "s < t" "f < t" by (auto split: option.splits)
  have "w \<le> max s f" using Nil.prems(1) f(1) by (simp add: above_floors_def)
  also have "max s f < t" using f by simp
  finally show ?case .
next
  case (Cons e es)
  then show ?case using above_floors_step [of c w e] by simp
qed

section \<open>Properties\<close>

text \<open>
  (C18) No assertion of the resolver ever fails: a client that keeps the contract (a commit timestamp lies
  above the lock's start timestamp and above every timestamp passed to \<open>resolve\<close> before the lock was
  tracked) never makes it panic, in any order of tracking, rollbacks, commits and resolves.
\<close>

theorem resolver_never_panics:
  assumes "contract client_start calls"
  shows "\<exists>r. run_calls (Resolver_new brane_id) calls = Ok r \<and> locks_wf r"
  using run_calls_agrees [OF agrees_start [of brane_id] assms] unfolding agrees_def by blast

theorem resolver_never_panics_witness:
  "let calls = [Init, Track (TimeStamp 2) [1], Resolve (TimeStamp 4), Track (TimeStamp 1) [2],
      Untrack (TimeStamp 2) (Some (TimeStamp 3)) [1], Untrack (TimeStamp 1) (Some (TimeStamp 5)) [2], Resolve (TimeStamp 6)]
   in contract client_start calls \<and> (\<exists>r. run_calls (Resolver_new 1) calls = Ok r)"
  using resolver_never_panics [of "[Init, Track (TimeStamp 2) [1], Resolve (TimeStamp 4), Track (TimeStamp 1) [2],
      Untrack (TimeStamp 2) (Some (TimeStamp 3)) [1], Untrack (TimeStamp 1) (Some (TimeStamp 5)) [2], Resolve (TimeStamp 6)]" 1]
  by (auto simp: client_start_def timestamp_order max_def TimeStamp_zero_def Let_def)



text \<open>
  (C29) Progress: \<open>resolve\<close> never moves the timestamp back nor beyond the one offered, and it reaches the
  one offered unless a tracked lock with an older start timestamp holds it back, in which case it
  reaches the oldest such start timestamp.
\<close>

theorem resolve_progress:
  assumes "locks_wf r" "r_resolved_ts r = Some old"
  shows "\<exists>t. snd (resolve r m) = Some t \<and> old \<le> t \<and> t \<le> max old m \<and>
    (m \<le> t \<or> (\<exists>s k. tracked r s k \<and> s < m \<and> t = max old s \<and> (\<forall>s' k'. tracked r s' k' \<longrightarrow> s \<le> s')))"
proof (cases "bt_first_key (r_locks r)")
  case None
  then show ?thesis using assms(2) by (simp add: resolve_def Let_def)
next
  case (Some s)
  then obtain ks where ks: "bt_get (r_locks r) s = Some ks" "ks \<noteq> {}"
    using assms(1) by (auto simp: locks_wf_def bt_first_key_Some_iff)
  then obtain k where "tracked r s k" by (auto simp: tracked_def)
  moreover have "s \<le> s'" if "tracked r s' k'" for s' k' using first_lock_le [OF assms(1) that Some] .
  moreover have "snd (resolve r m) = Some (max old (min s m))" using Some assms(2) by (simp add: resolve_def Let_def)
  ultimately show ?thesis by (cases "s < m") (auto simp: min_def le_max_iff_disj)
qed

theorem resolve_progress_witness:
  "let r = Resolver_init (track_lock (Resolver_new 1) (TimeStamp 2) [1]) in
   locks_wf r \<and> r_resolved_ts r = Some TimeStamp_zero \<and> (\<exists>t. snd (resolve r (TimeStamp 4)) = Some t \<and> TimeStamp_zero \<le> t)"
proof -
  let ?r = "Resolver_init (track_lock (Resolver_new 1) (TimeStamp 2) [1])"
  have "locks_wf ?r" by (simp add: locks_wf_def Resolver_init_def track_lock_def Resolver_new_def)
  moreover have "r_resolved_ts ?r = Some TimeStamp_zero" by (simp add: Resolver_init_def)
  ultimately show ?thesis using resolve_progress [of ?r TimeStamp_zero "TimeStamp 4"] unfolding Let_def by blast
qed

end
