(* ===== verification/Lock_Table.thy ===== *)
theory Lock_Table
  imports Txn_Dagger Ordered_Map "HOL-Library.Multiset"
begin

text \<open>
  The in-memory lock table of \<open>edb/LSH-Tree/interlock_directorate/src\<close>: \<open>visor_dagger.rs\<close> (the handle of a
  key and its guard), \<open>lock_table.rs\<close> (the table of handles) and \<open>lib.rs\<close> (the concurrency manager).
  The concurrent map of the crate \<open>crossbeam_skiplist\<close> is a parameter whose operations are atomic.
  Handles live in a store with their strong reference counts, so that \<open>Arc\<close> and \<open>Weak\<close> are addresses.
  \<open>lock_key\<close> and the drop of its guard are sequences of atomic steps of a task, interleaved by a
  schedule.
\<close>

section \<open>The concurrent map (crate crossbeam_skiplist)\<close>

record 'm skipmap_api =
  sm_new :: 'm
  sm_get :: "'m \<Rightarrow> Key \<Rightarrow> nat option"
  sm_get_or_insert :: "Key \<Rightarrow> nat \<Rightarrow> 'm \<Rightarrow> 'm \<times> nat"
  sm_remove :: "Key \<Rightarrow> 'm \<Rightarrow> 'm"
  sm_cone :: "'m \<Rightarrow> Key option \<Rightarrow> Key option \<Rightarrow> (Key \<times> nat) list"

abbreviation in_cone :: "Key option \<Rightarrow> Key option \<Rightarrow> Key \<Rightarrow> bool" where
  "in_cone lo hi k \<equiv> (case lo of Some l \<Rightarrow> l \<le> k | None \<Rightarrow> True) \<and> (case hi of Some h \<Rightarrow> k < h | None \<Rightarrow> True)"

locale skip_map =
  fixes S :: "'m skipmap_api" and wf :: "'m \<Rightarrow> bool"
  assumes wf_new: "wf (sm_new S)" and get_new: "sm_get S (sm_new S) k = None"
    and wf_goi: "wf m \<Longrightarrow> wf (fst (sm_get_or_insert S k v m))"
    and goi_value: "wf m \<Longrightarrow> snd (sm_get_or_insert S k v m) = (case sm_get S m k of Some w \<Rightarrow> w | None \<Rightarrow> v)"
    and goi_get: "wf m \<Longrightarrow> sm_get S (fst (sm_get_or_insert S k v m)) k' =
      (if k' = k \<and> sm_get S m k = None then Some v else sm_get S m k')"
    and wf_remove: "wf m \<Longrightarrow> wf (sm_remove S k m)"
    and get_remove: "wf m \<Longrightarrow> sm_get S (sm_remove S k m) k' = (if k' = k then None else sm_get S m k')"
    and cone_get: "wf m \<Longrightarrow> (k, v) \<in> set (sm_cone S m lo hi) \<longleftrightarrow> in_cone lo hi k \<and> sm_get S m k = Some v"
    and cone_sorted: "wf m \<Longrightarrow> sorted_wrt (<) (map fst (sm_cone S m lo hi))"

text \<open>The ordered lists of entries behave so.\<close>

definition btree_skipmap :: "(Key, nat) btree skipmap_api" where
  "btree_skipmap = \<lparr> sm_new = [], sm_get = bt_get,
    sm_get_or_insert = (\<lambda>k v m. case bt_get m k of Some w \<Rightarrow> (m, w) | None \<Rightarrow> (bt_insert k v m, v)),
    sm_remove = bt_remove, sm_cone = (\<lambda>m lo hi. filter (\<lambda>(k, _). in_cone lo hi k) m) \<rparr>"

lemmas btree_skipmap_simps [simp] = btree_skipmap_def [THEN arg_cong, of sm_new, simplified]
  btree_skipmap_def [THEN arg_cong, of sm_get, simplified] btree_skipmap_def [THEN arg_cong, of sm_get_or_insert, simplified]
  btree_skipmap_def [THEN arg_cong, of sm_remove, simplified] btree_skipmap_def [THEN arg_cong, of sm_cone, simplified]

interpretation btree_map: skip_map btree_skipmap bt_sorted
proof unfold_locales
  fix m :: "(Key, nat) btree" and k v lo hi
  assume m: "bt_sorted m"
  show "(k, v) \<in> set (sm_cone btree_skipmap m lo hi) \<longleftrightarrow> in_cone lo hi k \<and> sm_get btree_skipmap m k = Some v"
    using m by (auto simp: bt_get_Some_iff)
  show "sorted_wrt (<) (map fst (sm_cone btree_skipmap m lo hi))"
    using bt_sorted_filter [OF m] by (simp add: bt_sorted_def)
qed (auto split: option.splits)

section \<open>Handles (visor_dagger.rs)\<close>

record handle =
  h_key :: Key
  h_locked :: bool
  h_store :: "Dagger option"
  h_strong :: nat

text \<open>\<open>VisorCypherKey::new\<close>, put into an \<open>Arc\<close>, with its fresh mutex locked at once.\<close>

definition new_locked_handle :: "Key \<Rightarrow> handle" where
  "new_locked_handle key = \<lparr> h_key = key, h_locked = True, h_store = None, h_strong = 1 \<rparr>"

definition with_lock :: "handle list \<Rightarrow> nat \<Rightarrow> (Dagger option \<Rightarrow> 'a) \<Rightarrow> 'a" where
  "with_lock hs h f = f (h_store (hs ! h))"

definition set_store :: "Dagger option \<Rightarrow> handle list \<Rightarrow> nat \<Rightarrow> handle list" where
  "set_store d hs h = hs[h := (hs ! h)\<lparr>h_store := d\<rparr>]"

definition set_locked :: "bool \<Rightarrow> handle list \<Rightarrow> nat \<Rightarrow> handle list" where
  "set_locked b hs h = hs[h := (hs ! h)\<lparr>h_locked := b\<rparr>]"

definition set_strong :: "nat \<Rightarrow> handle list \<Rightarrow> nat \<Rightarrow> handle list" where
  "set_strong n hs h = hs[h := (hs ! h)\<lparr>h_strong := n\<rparr>]"

text \<open>\<open>Weak::upgrade\<close>.\<close>

definition upgrade :: "handle list \<Rightarrow> nat \<Rightarrow> nat option" where
  "upgrade hs w = (if h_strong (hs ! w) > 0 then Some w else None)"

section \<open>Reads of the table (lock_table.rs)\<close>

text \<open>
  A read sees one state of the table and of the handles. The reference it takes while it looks at a
  handle is given back before it returns. The closures it is given are functions.
\<close>

definition LockBlock_get :: "'m skipmap_api \<Rightarrow> 'm \<Rightarrow> handle list \<Rightarrow> Key \<Rightarrow> nat option" where
  "LockBlock_get S m hs key = (case sm_get S m key of Some w \<Rightarrow> upgrade hs w | None \<Rightarrow> None)"

definition LockBlock_check_key ::
  "'m skipmap_api \<Rightarrow> 'm \<Rightarrow> handle list \<Rightarrow> Key \<Rightarrow> (Dagger \<Rightarrow> ('e, unit) result) \<Rightarrow> ('e, unit) result" where
  "LockBlock_check_key S m hs key check_fn = (case LockBlock_get S m hs key of
     Some h \<Rightarrow> with_lock hs h (\<lambda>dagger. case dagger of Some d \<Rightarrow> check_fn d | None \<Rightarrow> Ok ())
   | None \<Rightarrow> Ok ())"

fun find_first_loop :: "handle list \<Rightarrow> (nat \<Rightarrow> 't option) \<Rightarrow> (Key \<times> nat) list \<Rightarrow> 't option" where
  "find_first_loop hs pred [] = None"
| "find_first_loop hs pred ((k, w) # es) =
    (let res = (case upgrade hs w of Some h \<Rightarrow> pred h | None \<Rightarrow> None) in
     if res \<noteq> None then res else find_first_loop hs pred es)"

definition LockBlock_find_first ::
  "'m skipmap_api \<Rightarrow> 'm \<Rightarrow> handle list \<Rightarrow> Key option \<Rightarrow> Key option \<Rightarrow> (nat \<Rightarrow> 't option) \<Rightarrow> 't option" where
  "LockBlock_find_first S m hs spacelike_key lightlike_key pred =
    find_first_loop hs pred (sm_cone S m spacelike_key lightlike_key)"

definition result_err :: "('e, 'a) result \<Rightarrow> 'e option" where
  "result_err r = (case r of Err e \<Rightarrow> Some e | _ \<Rightarrow> None)"

definition LockBlock_check_cone ::
  "'m skipmap_api \<Rightarrow> 'm \<Rightarrow> handle list \<Rightarrow> Key option \<Rightarrow> Key option \<Rightarrow> (Key \<Rightarrow> Dagger \<Rightarrow> ('e, unit) result) \<Rightarrow>
    ('e, unit) result" where
  "LockBlock_check_cone S m hs spacelike_key lightlike_key check_fn =
    (let e = LockBlock_find_first S m hs spacelike_key lightlike_key (\<lambda>h.
         with_lock hs h (\<lambda>dagger. Option.bind dagger (\<lambda>d. result_err (check_fn (h_key (hs ! h)) d))))
     in case e of Some e \<Rightarrow> Err e | None \<Rightarrow> Ok ())"

definition LockBlock_for_each :: "'m skipmap_api \<Rightarrow> 'm \<Rightarrow> handle list \<Rightarrow> (nat \<Rightarrow> 's \<Rightarrow> 's) \<Rightarrow> 's \<Rightarrow> 's" where
  "LockBlock_for_each S m hs f s =
    foldl (\<lambda>s (_, w). case upgrade hs w of Some h \<Rightarrow> f h s | None \<Rightarrow> s) s (sm_cone S m None None)"

definition LockBlock_remove :: "'m skipmap_api \<Rightarrow> 'm \<Rightarrow> Key \<Rightarrow> 'm" where
  "LockBlock_remove S m key = sm_remove S key m"

text \<open>What runs when the last reference to a handle goes, and first when a guard goes.\<close>

definition VisorCypherKey_drop :: "'m skipmap_api \<Rightarrow> 'm \<Rightarrow> Key \<Rightarrow> 'm" where
  [simp]: "VisorCypherKey_drop S m key = LockBlock_remove S m key"

definition VisorCypherKeyGuard_drop :: "handle list \<Rightarrow> nat \<Rightarrow> handle list" where
  [simp]: "VisorCypherKeyGuard_drop hs h = set_store None hs h"

section \<open>The concurrency manager (lib.rs)\<close>

record 'm ConcurrencyManager =
  cm_max_ts :: u64
  cm_lock_Block :: 'm

definition ConcurrencyManager_new :: "'m skipmap_api \<Rightarrow> TimeStamp \<Rightarrow> 'm ConcurrencyManager" where
  "ConcurrencyManager_new S latest_ts = \<lparr> cm_max_ts = into_inner latest_ts, cm_lock_Block = sm_new S \<rparr>"

definition ConcurrencyManager_max_ts :: "'m ConcurrencyManager \<Rightarrow> TimeStamp" where
  "ConcurrencyManager_max_ts self = TimeStamp_new (cm_max_ts self)"

definition fidelio_max_ts :: "'m ConcurrencyManager \<Rightarrow> TimeStamp \<Rightarrow> 'm ConcurrencyManager" where
  "fidelio_max_ts self new_ts =
    (if new_ts \<noteq> TimeStamp_max then self\<lparr>cm_max_ts := max (cm_max_ts self) (into_inner new_ts)\<rparr> else self)"

definition read_key_check ::
  "'m skipmap_api \<Rightarrow> 'm ConcurrencyManager \<Rightarrow> handle list \<Rightarrow> Key \<Rightarrow> (Dagger \<Rightarrow> ('e, unit) result) \<Rightarrow> ('e, unit) result" where
  "read_key_check S self hs key check_fn = LockBlock_check_key S (cm_lock_Block self) hs key check_fn"

definition read_cone_check ::
  "'m skipmap_api \<Rightarrow> 'm ConcurrencyManager \<Rightarrow> handle list \<Rightarrow> Key option \<Rightarrow> Key option \<Rightarrow>
    (Key \<Rightarrow> Dagger \<Rightarrow> ('e, unit) result) \<Rightarrow> ('e, unit) result" where
  "read_cone_check S self hs spacelike_key lightlike_key check_fn =
    LockBlock_check_cone S (cm_lock_Block self) hs spacelike_key lightlike_key check_fn"

definition global_min_lock_ts :: "'m skipmap_api \<Rightarrow> 'm ConcurrencyManager \<Rightarrow> handle list \<Rightarrow> TimeStamp option" where
  "global_min_lock_ts S self hs = LockBlock_for_each S (cm_lock_Block self) hs
    (\<lambda>h min_lock_ts. case with_lock hs h (map_option d_ts) of
       Some curr_ts \<Rightarrow>
         if (case map_option (\<lambda>ts. ts > curr_ts) min_lock_ts of Some b \<Rightarrow> b | None \<Rightarrow> True) then Some curr_ts else min_lock_ts
     | None \<Rightarrow> min_lock_ts) None"

text \<open>
  \<open>lock_keys\<close>: the order in which the keys are locked, and the guards put back at the positions of
  their keys. \<open>sort_by_key\<close> is stable.
\<close>

definition lock_order :: "Key list \<Rightarrow> (nat \<times> Key) list" where
  "lock_order ks = sort_key snd (enumerate 0 ks)"

definition place_guards :: "nat \<Rightarrow> ((nat \<times> Key) \<times> 'g) list \<Rightarrow> 'g option list" where
  "place_guards n locked = foldl (\<lambda>res ((index, _), guard). res[index := Some guard]) (replicate n None) locked"

section \<open>Locking a key, step by step\<close>

text \<open>
  Where a task is. \<open>TempLocked\<close>: it has locked the handle it created. \<open>Found\<close>: the table held another
  handle. \<open>Waiting\<close>: it has a reference to that handle and waits for its mutex. \<open>DropTemp\<close>: the guard of
  the handle it created goes out of scope, before it returns the other guard or starts the loop
  again; the last reference to that handle removes its key from the table. \<open>Holding\<close>: \<open>lock_key\<close> has
  returned a guard. \<open>Cleared\<close>, \<open>Unlocked\<close>, \<open>Removing\<close>: the guard is being dropped.
\<close>

datatype pc = Idle | LockStart Key | TempLocked Key nat | Found Key nat nat | Waiting Key nat nat
  | DropTemp Key nat "nat option" | Holding Key nat | Cleared Key nat | Unlocked Key nat | Removing Key

datatype act = Call Key | Run | Store "Dagger option" | DropGuard

record 'm lt_sys =
  s_table :: 'm
  s_handles :: "handle list"
  s_pcs :: "nat \<Rightarrow> pc"

definition lt_init :: "'m skipmap_api \<Rightarrow> 'm lt_sys" where
  "lt_init S = \<lparr> s_table = sm_new S, s_handles = [], s_pcs = (\<lambda>_. Idle) \<rparr>"

definition set_pc :: "nat \<Rightarrow> pc \<Rightarrow> 'm lt_sys \<Rightarrow> 'm lt_sys" where
  "set_pc t p s = s\<lparr>s_pcs := (s_pcs s)(t := p)\<rparr>"

fun task_step :: "'m skipmap_api \<Rightarrow> 'm lt_sys \<Rightarrow> nat \<Rightarrow> pc \<Rightarrow> act \<Rightarrow> 'm lt_sys option" where
  "task_step S s t Idle (Call k) = Some (set_pc t (LockStart k) s)"
| "task_step S s t (LockStart k) Run =
    Some (set_pc t (TempLocked k (length (s_handles s))) (s\<lparr>s_handles := s_handles s @ [new_locked_handle k]\<rparr>))"
| "task_step S s t (TempLocked k h) Run =
    (let (m, w) = sm_get_or_insert S k h (s_table s) in
     Some (set_pc t (if w = h then Holding k h else Found k h w) (s\<lparr>s_table := m\<rparr>)))"
| "task_step S s t (Found k h w) Run =
    (case upgrade (s_handles s) w of
       Some h' \<Rightarrow> Some (set_pc t (Waiting k h h')
         (s\<lparr>s_handles := set_strong (h_strong (s_handles s ! h') + 1) (s_handles s) h'\<rparr>))
     | None \<Rightarrow> Some (set_pc t (DropTemp k h None) s))"
| "task_step S s t (Waiting k h w) Run =
    (if h_locked (s_handles s ! w) then None
     else Some (set_pc t (DropTemp k h (Some w)) (s\<lparr>s_handles := set_locked True (s_handles s) w\<rparr>)))"
| "task_step S s t (DropTemp k h r) Run =
    Some (set_pc t (case r of Some w \<Rightarrow> Holding k w | None \<Rightarrow> LockStart k)
      (s\<lparr>s_handles := set_strong 0 (set_locked False (VisorCypherKeyGuard_drop (s_handles s) h) h) h,
         s_table := VisorCypherKey_drop S (s_table s) k\<rparr>))"
| "task_step S s t (Holding k h) (Store d) = Some (s\<lparr>s_handles := set_store d (s_handles s) h\<rparr>)"
| "task_step S s t (Holding k h) DropGuard =
    Some (set_pc t (Cleared k h) (s\<lparr>s_handles := VisorCypherKeyGuard_drop (s_handles s) h\<rparr>))"
| "task_step S s t (Cleared k h) Run =
    Some (set_pc t (Unlocked k h) (s\<lparr>s_handles := set_locked False (s_handles s) h\<rparr>))"
| "task_step S s t (Unlocked k h) Run =
    (let n = h_strong (s_handles s ! h) - 1 in
     Some (set_pc t (if n = 0 then Removing k else Idle) (s\<lparr>s_handles := set_strong n (s_handles s) h\<rparr>)))"
| "task_step S s t (Removing k) Run = Some (set_pc t Idle (s\<lparr>s_table := VisorCypherKey_drop S (s_table s) k\<rparr>))"
| "task_step S s t p a = None"

fun lt_run :: "'m skipmap_api \<Rightarrow> 'm lt_sys \<Rightarrow> (nat \<times> act) list \<Rightarrow> 'm lt_sys option" where
  "lt_run S s [] = Some s"
| "lt_run S s ((t, a) # es) = Option.bind (task_step S s t (s_pcs s t) a) (\<lambda>s. lt_run S s es)"

section \<open>What the reads see\<close>

lemma result_err_Some: "result_err r = Some e \<longleftrightarrow> r = Err e"
  by (cases r) (auto simp: result_err_def)

definition visible :: "'m skipmap_api \<Rightarrow> 'm \<Rightarrow> handle list \<Rightarrow> Key \<Rightarrow> nat \<Rightarrow> Dagger \<Rightarrow> bool" where
  "visible S m hs k h d \<longleftrightarrow> LockBlock_get S m hs k = Some h \<and> h_store (hs ! h) = Some d"

abbreviation live_pred :: "handle list \<Rightarrow> (nat \<Rightarrow> 't option) \<Rightarrow> nat \<Rightarrow> 't option" where
  "live_pred hs pred w \<equiv> Option.bind (upgrade hs w) pred"

lemma live_pred_None: "live_pred hs pred w = None \<longleftrightarrow> (\<forall>h. upgrade hs w = Some h \<longrightarrow> pred h = None)"
  by (cases "upgrade hs w") auto

lemma find_first_loop_step:
  "find_first_loop hs pred ((k, w) # es) =
    (case live_pred hs pred w of Some t \<Rightarrow> Some t | None \<Rightarrow> find_first_loop hs pred es)"
  by (auto simp: Let_def split: option.splits)

lemma find_first_loop_Some_iff:
  assumes "sorted_wrt (<) (map fst es)"
  shows "find_first_loop hs pred es = Some t \<longleftrightarrow> (\<exists>k w. (k, w) \<in> set es \<and> live_pred hs pred w = Some t \<and>
    (\<forall>k' w'. (k', w') \<in> set es \<longrightarrow> k' < k \<longrightarrow> live_pred hs pred w' = None))"
  using assms
proof (induction es)
  case (Cons e es)
  obtain k0 w0 where e: "e = (k0, w0)" by (cases e)
  have gt: "\<forall>x \<in> set es. k0 < fst x" and IH: "find_first_loop hs pred es = Some t \<longleftrightarrow> (\<exists>k w. (k, w) \<in> set es \<and>
      live_pred hs pred w = Some t \<and> (\<forall>k' w'. (k', w') \<in> set es \<longrightarrow> k' < k \<longrightarrow> live_pred hs pred w' = None))"
    using Cons e by auto
  show ?case
  proof (cases "live_pred hs pred w0")
    case None
    then show ?thesis unfolding e find_first_loop_step using IH gt by fastforce
  next
    case (Some r)
    have "live_pred hs pred w = Some t \<longleftrightarrow> r = t" if "w = w0" for w using that Some by simp
    moreover have "k0 < k" if "(k, w) \<in> set es" for k w using gt that by fastforce
    ultimately have "(\<exists>k w. (k, w) \<in> set (e # es) \<and> live_pred hs pred w = Some t \<and>
      (\<forall>k' w'. (k', w') \<in> set (e # es) \<longrightarrow> k' < k \<longrightarrow> live_pred hs pred w' = None)) \<longleftrightarrow> r = t"
      using Some unfolding e by (metis list.set_intros(1) not_less_iff_gr_or_eq option.distinct(1) prod.inject set_ConsD)
    then show ?thesis unfolding e find_first_loop_step using Some by simp
  qed
qed simp

lemma find_first_loop_None_iff:
  "find_first_loop hs pred es = None \<longleftrightarrow> (\<forall>k w. (k, w) \<in> set es \<longrightarrow> live_pred hs pred w = None)"
proof (induction es)
  case (Cons e es)
  then show ?case
    by (cases e; cases "live_pred hs pred (snd e)") (auto simp: find_first_loop_step simp del: find_first_loop.simps)
qed simp

definition min_opt :: "TimeStamp set \<Rightarrow> TimeStamp option" where
  "min_opt T = (if T = {} then None else Some (Min T))"

definition live_ts :: "handle list \<Rightarrow> nat \<Rightarrow> TimeStamp option" where
  "live_ts hs w = live_pred hs (\<lambda>h. map_option d_ts (h_store (hs ! h))) w"

definition min_ts_step :: "handle list \<Rightarrow> TimeStamp option \<Rightarrow> Key \<times> nat \<Rightarrow> TimeStamp option" where
  "min_ts_step hs acc e = (case live_ts hs (snd e) of None \<Rightarrow> acc
     | Some c \<Rightarrow> if (case acc of Some ts \<Rightarrow> ts > c | None \<Rightarrow> True) then Some c else acc)"

lemma global_min_lock_ts_fold:
  "global_min_lock_ts S self hs = foldl (min_ts_step hs) None (sm_cone S (cm_lock_Block self) None None)"
proof -
  have "(\<lambda>s e. case e of (_, w) \<Rightarrow> case upgrade hs w of Some h \<Rightarrow>
      (case with_lock hs h (map_option d_ts) of Some curr_ts \<Rightarrow>
         if (case map_option (\<lambda>ts. ts > curr_ts) s of Some b \<Rightarrow> b | None \<Rightarrow> True) then Some curr_ts else s
       | None \<Rightarrow> s) | None \<Rightarrow> s) = min_ts_step hs"
  proof (intro ext, goal_cases)
    case (1 s e)
    then show ?case by (cases e; cases "upgrade hs (snd e)"; cases s)
        (auto simp: min_ts_step_def live_ts_def with_lock_def split: option.splits)
  qed
  then show ?thesis unfolding global_min_lock_ts_def LockBlock_for_each_def by simp
qed

lemma min_ts_step_min_opt:
  "finite T \<Longrightarrow> min_ts_step hs (min_opt T) e = min_opt (T \<union> set_option (live_ts hs (snd e)))"
  by (cases "live_ts hs (snd e)") (auto simp: min_ts_step_def min_opt_def min_def not_less, metis Min_eqI antisym)

lemma foldl_min_ts_step:
  "finite T \<Longrightarrow> foldl (min_ts_step hs) (min_opt T) es = min_opt (T \<union> {ts. \<exists>e \<in> set es. live_ts hs (snd e) = Some ts})"
proof (induction es arbitrary: T)
  case (Cons e es)
  have "T \<union> set_option (live_ts hs (snd e)) \<union> {ts. \<exists>e \<in> set es. live_ts hs (snd e) = Some ts} =
    T \<union> {ts. \<exists>e' \<in> set (e # es). live_ts hs (snd e') = Some ts}"
    by (cases "live_ts hs (snd e)") auto
  moreover have "finite (T \<union> set_option (live_ts hs (snd e)))"
    using Cons.prems by (cases "live_ts hs (snd e)") auto
  ultimately show ?case using Cons.IH Cons.prems by (simp add: min_ts_step_min_opt)
qed simp

lemma min_opt_Some_iff: "finite T \<Longrightarrow> min_opt T = Some t \<longleftrightarrow> t \<in> T \<and> (\<forall>t' \<in> T. t \<le> t')"
  by (auto simp: min_opt_def intro: Min_in Min_eqI)

context skip_map
begin

lemma cone_visible:
  "wf m \<Longrightarrow> (\<exists>w. (k, w) \<in> set (sm_cone S m lo hi) \<and> upgrade hs w = Some h) \<longleftrightarrow> in_cone lo hi k \<and> LockBlock_get S m hs k = Some h"
  by (auto simp: cone_get LockBlock_get_def split: option.splits)

lemma find_first_None:
  "wf m \<Longrightarrow> LockBlock_find_first S m hs lo hi pred = None \<longleftrightarrow>
    (\<forall>k h. in_cone lo hi k \<longrightarrow> LockBlock_get S m hs k = Some h \<longrightarrow> pred h = None)"
  unfolding LockBlock_find_first_def find_first_loop_None_iff live_pred_None using cone_visible [of m _ lo hi hs] by blast

lemma find_first_Some:
  assumes "wf m"
  shows "LockBlock_find_first S m hs lo hi pred = Some t \<longleftrightarrow> (\<exists>k h. in_cone lo hi k \<and> LockBlock_get S m hs k = Some h \<and>
    pred h = Some t \<and> (\<forall>k' h'. in_cone lo hi k' \<longrightarrow> k' < k \<longrightarrow> LockBlock_get S m hs k' = Some h' \<longrightarrow> pred h' = None))"
proof -
  note vis = cone_visible [OF assms, of _ lo hi hs, symmetric]
  have "(\<forall>k' w'. (k', w') \<in> set (sm_cone S m lo hi) \<longrightarrow> k' < k \<longrightarrow> live_pred hs pred w' = None) \<longleftrightarrow>
    (\<forall>k' h'. in_cone lo hi k' \<and> LockBlock_get S m hs k' = Some h' \<longrightarrow> k' < k \<longrightarrow> pred h' = None)" for k
    unfolding live_pred_None vis by blast
  moreover have "(\<exists>w. (k, w) \<in> set (sm_cone S m lo hi) \<and> live_pred hs pred w = Some t) \<longleftrightarrow>
    (\<exists>h. (in_cone lo hi k \<and> LockBlock_get S m hs k = Some h) \<and> pred h = Some t)" for k
    unfolding bind_eq_Some_conv vis by blast
  ultimately show ?thesis
    unfolding LockBlock_find_first_def find_first_loop_Some_iff [OF cone_sorted [OF assms]] by blast
qed

lemma global_min:
  assumes "wf (cm_lock_Block cm)"
  shows "global_min_lock_ts S cm hs = min_opt {ts. \<exists>k h d. visible S (cm_lock_Block cm) hs k h d \<and> d_ts d = ts}"
    and "finite {ts. \<exists>k h d. visible S (cm_lock_Block cm) hs k h d \<and> d_ts d = ts}"
proof -
  let ?es = "sm_cone S (cm_lock_Block cm) None None"
  have "(\<exists>e \<in> set ?es. live_ts hs (snd e) = Some ts) \<longleftrightarrow> (\<exists>k h d. visible S (cm_lock_Block cm) hs k h d \<and> d_ts d = ts)" for ts
  proof -
    have "(\<exists>e \<in> set ?es. live_ts hs (snd e) = Some ts) \<longleftrightarrow>
      (\<exists>k h. (\<exists>w. (k, w) \<in> set ?es \<and> upgrade hs w = Some h) \<and> map_option d_ts (h_store (hs ! h)) = Some ts)"
      by (force simp: live_ts_def bind_eq_Some_conv)
    then show ?thesis unfolding cone_visible [OF assms] visible_def by auto
  qed
  then have eq: "{ts. \<exists>k h d. visible S (cm_lock_Block cm) hs k h d \<and> d_ts d = ts} =
    {ts. \<exists>e \<in> set ?es. live_ts hs (snd e) = Some ts}" by simp
  show "global_min_lock_ts S cm hs = min_opt {ts. \<exists>k h d. visible S (cm_lock_Block cm) hs k h d \<and> d_ts d = ts}"
    unfolding eq global_min_lock_ts_fold using foldl_min_ts_step [of "{}" hs ?es] by (simp add: min_opt_def)
  have "{ts. \<exists>e \<in> set ?es. live_ts hs (snd e) = Some ts} \<subseteq> (\<lambda>e. the (live_ts hs (snd e))) ` set ?es" by force
  then show "finite {ts. \<exists>k h d. visible S (cm_lock_Block cm) hs k h d \<and> d_ts d = ts}"
    unfolding eq by (rule finite_subset) simp
qed

end

section \<open>Locking several keys\<close>

lemma set_lock_order: "set (lock_order ks) = set (enumerate 0 ks)"
  by (simp add: lock_order_def)

lemma lock_order_keys: "map snd (lock_order ks) = sort ks"
proof -
  have "mset (map snd (lock_order ks)) = mset ks"
    by (metis lock_order_def map_snd_enumerate mset_map mset_sort)
  then show ?thesis by (intro properties_for_sort [symmetric]) (simp_all add: lock_order_def)
qed

lemma place_guards_nth:
  assumes "\<forall>x \<in> set L. fst (fst x) < n" "distinct (map (fst \<circ> fst) L)" "i < n" "length r = n"
  shows "foldl (\<lambda>res ((index, _), guard). res[index := Some guard]) r L ! i =
    (case find (\<lambda>x. fst (fst x) = i) L of Some x \<Rightarrow> Some (snd x) | None \<Rightarrow> r ! i)"
  using assms
proof (induction L arbitrary: r)
  case (Cons x L)
  obtain j k g where x: "x = ((j, k), g)" by (metis prod.exhaust)
  have none: "find (\<lambda>x. fst (fst x) = j) L = None" using Cons.prems x by (force simp: find_None_iff)
  show ?case using Cons.IH [of "r[j := Some g]"] Cons.prems none unfolding x by (auto split: option.splits)
qed simp

lemma length_place_guards [simp]: "length (place_guards n L) = n"
proof -
  have "length (foldl (\<lambda>res ((index, _), guard). res[index := Some guard]) r L) = length r" for r :: "'a option list"
    by (induction L arbitrary: r) (auto split: prod.splits)
  then show ?thesis by (simp add: place_guards_def)
qed

lemma place_guards_lock_order:
  "place_guards (length ks) (map (\<lambda>e. (e, G e)) (lock_order ks)) = map (\<lambda>e. Some (G e)) (enumerate 0 ks)"
proof (rule nth_equalityI)
  fix i
  let ?L = "map (\<lambda>e. (e, G e)) (lock_order ks)"
  assume "i < length (place_guards (length ks) ?L)"
  then have i: "i < length ks" by simp
  have fst: "distinct (map fst (lock_order ks))"
    unfolding lock_order_def distinct_map by (auto simp: distinct_enumerate inj_on_def in_set_enumerate_eq)
  then have dist: "distinct (map (fst \<circ> fst) ?L)" by (simp add: comp_def)
  have lt: "\<forall>x \<in> set ?L. fst (fst x) < length ks" by (auto simp: set_lock_order in_set_enumerate_eq)
  obtain x where x: "find (\<lambda>x. fst (fst x) = i) ?L = Some x"
  proof (cases "find (\<lambda>x. fst (fst x) = i) ?L")
    case None
    moreover have "((i, ks ! i), G (i, ks ! i)) \<in> set ?L" using i by (auto simp: set_lock_order in_set_enumerate_eq)
    ultimately show ?thesis by (force simp: find_None_iff)
  qed
  then have "x \<in> set ?L" "fst (fst x) = i" by (auto simp: find_Some_iff)
  then have "snd x = G (i, ks ! i)" by (auto simp: set_lock_order in_set_enumerate_eq)
  then show "place_guards (length ks) ?L ! i = map (\<lambda>e. Some (G e)) (enumerate 0 ks) ! i"
    using place_guards_nth [OF lt dist i, of "replicate (length ks) None"] x i
    by (simp add: place_guards_def nth_enumerate_eq)
qed simp

text \<open>
  Tasks that lock several keys each: task \<open>t\<close> has locked the first \<open>n t\<close> of its keys, in locking
  order, and waits for the next one, held by the task it waits for.
\<close>

definition waits_for :: "('t \<Rightarrow> Key list) \<Rightarrow> ('t \<Rightarrow> nat) \<Rightarrow> ('t \<times> 't) set" where
  "waits_for ks n = {(t, t'). n t < length (ks t) \<and>
     snd (lock_order (ks t) ! n t) \<in> set (map snd (take (n t') (lock_order (ks t'))))}"

lemma lock_order_held_below:
  assumes "distinct ks" "n < length ks" "k \<in> set (map snd (take n (lock_order ks)))"
  shows "k < snd (lock_order ks ! n)"
proof -
  have len: "length (lock_order ks) = length ks" by (simp add: lock_order_def)
  have "k \<in> set (take n (sort ks))" using assms(3) by (simp add: lock_order_keys flip: take_map)
  then obtain i where i: "i < n" "k = sort ks ! i" using assms(2) by (auto simp: in_set_conv_nth)
  have "snd (lock_order ks ! n) = sort ks ! n" using assms(2) len by (simp flip: lock_order_keys)
  moreover have "sort ks ! i \<le> sort ks ! n" using i assms(2) by (simp add: sorted_nth_mono)
  moreover have "sort ks ! i \<noteq> sort ks ! n" using i assms(1,2) by (simp add: nth_eq_iff_index_eq)
  ultimately show ?thesis using i by simp
qed

lemma waits_for_increases:
  assumes "\<forall>t. distinct (ks t)" "(t, t') \<in> (waits_for ks n)\<^sup>+" "n t' < length (ks t')"
  shows "snd (lock_order (ks t) ! n t) < snd (lock_order (ks t') ! n t')"
  using assms(2,3)
proof (induction rule: trancl_induct)
  case (base u)
  then show ?case using assms(1) lock_order_held_below unfolding waits_for_def by blast
next
  case (step u v)
  then have "n u < length (ks u)" "snd (lock_order (ks u) ! n u) < snd (lock_order (ks v) ! n v)"
    using assms(1) lock_order_held_below unfolding waits_for_def by blast+
  then show ?case using step.IH by simp
qed

section \<open>Invariants of locking\<close>

text \<open>The handles whose mutex a task holds, and the other handles it refers to.\<close>

fun owns :: "pc \<Rightarrow> nat set" where
  "owns (TempLocked k h) = {h}"
| "owns (Found k h w) = {h}"
| "owns (Waiting k h w) = {h}"
| "owns (DropTemp k h r) = insert h (set_option r)"
| "owns (Holding k h) = {h}"
| "owns (Cleared k h) = {h}"
| "owns _ = {}"

fun refers :: "pc \<Rightarrow> nat set" where
  "refers (Found k h w) = {w}"
| "refers (Waiting k h w) = {w}"
| "refers (Unlocked k h) = {h}"
| "refers _ = {}"

fun temp_apart :: "pc \<Rightarrow> bool" where
  "temp_apart (DropTemp k h (Some w)) \<longleftrightarrow> h \<noteq> w"
| "temp_apart _ \<longleftrightarrow> True"

definition locked_handles :: "handle list \<Rightarrow> nat set" where
  "locked_handles hs = {h. h < length hs \<and> h_locked (hs ! h)}"

lemma length_handle_updates [simp]:
  "length (set_store d hs h) = length hs" "length (set_locked b hs h) = length hs" "length (set_strong n hs h) = length hs"
  by (simp_all add: set_store_def set_locked_def set_strong_def)

lemma nth_update: "xs[i := v] ! j = (if i = j \<and> j < length xs then v else xs ! j)"
  by (cases "i < length xs") (auto simp: nth_list_update list_update_beyond)

lemma length_not_locked [simp]: "length hs \<notin> locked_handles hs"
  by (simp add: locked_handles_def)

lemma locked_handles_simps [simp]:
  "locked_handles (set_store d hs h) = locked_handles hs"
  "locked_handles (set_strong n hs h) = locked_handles hs"
  "h < length hs \<Longrightarrow> locked_handles (set_locked True hs h) = insert h (locked_handles hs)"
  "locked_handles (set_locked False hs h) = locked_handles hs - {h}"
  "locked_handles (hs @ [new_locked_handle k]) = insert (length hs) (locked_handles hs)"
  by (auto simp: locked_handles_def set_store_def set_strong_def set_locked_def new_locked_handle_def nth_update
      nth_append split: if_splits)

lemma pcs_set_pc [simp]: "s_pcs (set_pc t p s) = (s_pcs s)(t := p)" "s_handles (set_pc t p s) = s_handles s"
  "s_table (set_pc t p s) = s_table s"
  by (simp_all add: set_pc_def)

context skip_map
begin

definition lock_inv :: "'m lt_sys \<Rightarrow> bool" where
  "lock_inv s \<longleftrightarrow> wf (s_table s) \<and> (\<forall>k w. sm_get S (s_table s) k = Some w \<longrightarrow> w < length (s_handles s)) \<and>
    (\<forall>t. owns (s_pcs s t) \<subseteq> locked_handles (s_handles s) \<and> refers (s_pcs s t) \<subseteq> {..<length (s_handles s)} \<and>
      temp_apart (s_pcs s t)) \<and>
    (\<forall>t t'. t \<noteq> t' \<longrightarrow> owns (s_pcs s t) \<inter> owns (s_pcs s t') = {})"

lemma lock_inv_init: "lock_inv (lt_init S)"
  by (simp add: lock_inv_def lt_init_def wf_new get_new)

lemma lock_inv_change:
  assumes "lock_inv s" "wf (s_table s')" "\<forall>k w. sm_get S (s_table s') k = Some w \<longrightarrow> w < length (s_handles s')"
    and pcs: "s_pcs s' = (s_pcs s)(t := p)" and len: "length (s_handles s) \<le> length (s_handles s')"
    and kept: "locked_handles (s_handles s) - owns (s_pcs s t) \<subseteq> locked_handles (s_handles s')"
    and own: "owns p \<subseteq> locked_handles (s_handles s')"
    and fresh: "owns p \<inter> locked_handles (s_handles s) \<subseteq> owns (s_pcs s t)"
    and ref: "refers p \<subseteq> {..<length (s_handles s')}" "temp_apart p"
  shows "lock_inv s'"
proof -
  have inv: "owns (s_pcs s u) \<subseteq> locked_handles (s_handles s)" "refers (s_pcs s u) \<subseteq> {..<length (s_handles s)}"
    "temp_apart (s_pcs s u)" "u \<noteq> u' \<Longrightarrow> owns (s_pcs s u) \<inter> owns (s_pcs s u') = {}" for u u'
    using assms(1) unfolding lock_inv_def by blast+
  have others: "owns (s_pcs s u) \<subseteq> locked_handles (s_handles s')" "refers (s_pcs s u) \<subseteq> {..<length (s_handles s')}"
    "owns (s_pcs s u) \<inter> owns p = {}" if "u \<noteq> t" for u
  proof -
    show "owns (s_pcs s u) \<subseteq> locked_handles (s_handles s')" using kept inv(1) [of u] inv(4) [OF that] by blast
    show "refers (s_pcs s u) \<subseteq> {..<length (s_handles s')}"
      using inv(2) [of u] len by (meson lessThan_subset_iff order_trans)
    show "owns (s_pcs s u) \<inter> owns p = {}" using inv(1) [of u] inv(4) [OF that] fresh by blast
  qed
  have "owns (s_pcs s' u) \<inter> owns (s_pcs s' u') = {}" if "u \<noteq> u'" for u u'
    using that others inv(4) [OF that] pcs by (cases "u = t"; cases "u' = t") (auto simp: Int_commute)
  then show ?thesis unfolding lock_inv_def using assms(2,3) pcs own ref others inv(3) by simp
qed

lemma lock_inv_step:
  assumes inv: "lock_inv s" and step: "task_step S s t (s_pcs s t) a = Some s'"
  shows "lock_inv s'"
proof -
  have wf: "wf (s_table s)" and vals: "\<And>k w. sm_get S (s_table s) k = Some w \<Longrightarrow> w < length (s_handles s)"
    and here: "owns (s_pcs s t) \<subseteq> locked_handles (s_handles s)" "refers (s_pcs s t) \<subseteq> {..<length (s_handles s)}"
      "temp_apart (s_pcs s t)"
    using inv unfolding lock_inv_def by blast+
  note laws = wf_goi [OF wf] goi_value [OF wf] goi_get [OF wf] wf_remove [OF wf] get_remove [OF wf] wf LockBlock_remove_def
  have lt: "h < length (s_handles s)" if "h \<in> owns (s_pcs s t)" for h
    using here(1) that by (auto simp: locked_handles_def)
  show ?thesis
  proof (cases "s_pcs s t")
    case Idle
    then show ?thesis using step by (cases a) (auto intro!: lock_inv_change [OF inv, of _ t] simp: laws vals)
  next
    case (LockStart k)
    then show ?thesis using step
      by (cases a) (auto intro!: lock_inv_change [OF inv, of _ t] simp: laws less_SucI vals)
  next
    case (TempLocked k h)
    obtain m w where mw: "sm_get_or_insert S k h (s_table s) = (m, w)" by (cases "sm_get_or_insert S k h (s_table s)")
    then have "wf m" "w = (case sm_get S (s_table s) k of Some w \<Rightarrow> w | None \<Rightarrow> h)"
      and "\<And>k'. sm_get S m k' = (if k' = k \<and> sm_get S (s_table s) k = None then Some h else sm_get S (s_table s) k')"
      using laws(1,2,3) [of k h] by auto
    then show ?thesis using step here lt vals TempLocked mw
      by (cases a) (auto intro!: lock_inv_change [OF inv, of _ t] split: if_splits option.splits)
  next
    case (Found k h w)
    then show ?thesis using step here vals
      by (cases a) (auto intro!: lock_inv_change [OF inv, of _ t] simp: laws upgrade_def split: if_splits)
  next
    case (Waiting k h w)
    then have "h_locked (s_handles s ! w) \<longleftrightarrow> w \<in> locked_handles (s_handles s)"
      using here by (simp add: locked_handles_def)
    then show ?thesis using step here vals Waiting
      by (cases a) (auto intro!: lock_inv_change [OF inv, of _ t] simp: laws split: if_splits)
  next
    case (DropTemp k h r)
    then show ?thesis using step here vals
      by (cases a; cases r) (auto intro!: lock_inv_change [OF inv, of _ t] simp: laws split: if_splits)
  next
    case (Holding k h)
    then show ?thesis using step here vals
      by (cases a) (auto intro!: lock_inv_change [OF inv, of _ t] simp: laws)
  next
    case (Cleared k h)
    then show ?thesis using step here lt vals
      by (cases a) (auto intro!: lock_inv_change [OF inv, of _ t] simp: laws)
  next
    case (Unlocked k h)
    then show ?thesis using step here vals
      by (cases a) (auto intro!: lock_inv_change [OF inv, of _ t] simp: laws Let_def split: if_splits)
  next
    case (Removing k)
    then show ?thesis using step vals
      by (cases a) (auto intro!: lock_inv_change [OF inv, of _ t] simp: laws split: if_splits)
  qed
qed

lemma lock_inv_run: "lt_run S s es = Some s' \<Longrightarrow> lock_inv s \<Longrightarrow> lock_inv s'"
  by (induction es arbitrary: s) (auto simp: bind_eq_Some_conv, blast intro: lock_inv_step)

end

section \<open>Uncontended locking\<close>

fun pc_key :: "pc \<Rightarrow> Key option" where
  "pc_key Idle = None"
| "pc_key (LockStart k) = Some k"
| "pc_key (TempLocked k h) = Some k"
| "pc_key (Found k h w) = Some k"
| "pc_key (Waiting k h w) = Some k"
| "pc_key (DropTemp k h r) = Some k"
| "pc_key (Holding k h) = Some k"
| "pc_key (Cleared k h) = Some k"
| "pc_key (Unlocked k h) = Some k"
| "pc_key (Removing k) = Some k"

text \<open>Runs in which a task asks for a key only while no other task is locking, holding or releasing it.\<close>

definition key_free :: "'m lt_sys \<Rightarrow> Key \<Rightarrow> bool" where
  "key_free s k \<longleftrightarrow> (\<forall>t. pc_key (s_pcs s t) \<noteq> Some k)"

fun no_contention :: "'m skipmap_api \<Rightarrow> 'm lt_sys \<Rightarrow> (nat \<times> act) list \<Rightarrow> bool" where
  "no_contention S s [] \<longleftrightarrow> True"
| "no_contention S s ((t, a) # es) \<longleftrightarrow> (case a of Call k \<Rightarrow> key_free s k | _ \<Rightarrow> True) \<and>
    (case task_step S s t (s_pcs s t) a of Some s' \<Rightarrow> no_contention S s' es | None \<Rightarrow> True)"

fun pc_handle :: "pc \<Rightarrow> nat option" where
  "pc_handle (TempLocked k h) = Some h"
| "pc_handle (Holding k h) = Some h"
| "pc_handle (Cleared k h) = Some h"
| "pc_handle (Unlocked k h) = Some h"
| "pc_handle _ = None"

text \<open>What the table holds for the key of a task, when no other task is at that key.\<close>

fun entry_ok :: "nat option \<Rightarrow> pc \<Rightarrow> bool" where
  "entry_ok e Idle \<longleftrightarrow> True"
| "entry_ok e (LockStart k) \<longleftrightarrow> e = None"
| "entry_ok e (TempLocked k h) \<longleftrightarrow> e = None"
| "entry_ok e (Holding k h) \<longleftrightarrow> e = Some h"
| "entry_ok e (Cleared k h) \<longleftrightarrow> e = Some h"
| "entry_ok e (Unlocked k h) \<longleftrightarrow> e = Some h"
| "entry_ok e (Removing k) \<longleftrightarrow> True"
| "entry_ok e _ \<longleftrightarrow> False"

definition alone :: "handle list \<Rightarrow> nat set" where
  "alone hs = {h. h < length hs \<and> h_strong (hs ! h) = 1}"

lemma alone_simps [simp]:
  "alone (set_store d hs h) = alone hs" "alone (set_locked b hs h) = alone hs"
  "alone (hs @ [new_locked_handle k]) = insert (length hs) (alone hs)" "length hs \<notin> alone hs"
  "h \<noteq> h' \<Longrightarrow> h \<in> alone (set_strong n hs h') \<longleftrightarrow> h \<in> alone hs"
  by (auto simp: alone_def set_store_def set_strong_def set_locked_def new_locked_handle_def nth_update nth_append
      split: if_splits)

text \<open>The drop of the loser's handle takes the winner's entry away.\<close>

definition race :: "Key \<Rightarrow> Dagger \<Rightarrow> (nat \<times> act) list" where
  "race k d = [(0, Call k), (0, Run), (0, Run), (1, Call k), (1, Run), (1, Run), (1, Run),
    (0, DropGuard), (0, Run), (0, Run), (1, Run), (1, Run), (1, Store (Some d)), (2, Call k), (2, Run), (2, Run)]"

context skip_map
begin

definition quiet_inv :: "'m lt_sys \<Rightarrow> bool" where
  "quiet_inv s \<longleftrightarrow> wf (s_table s) \<and>
    (\<forall>k. key_free s k \<longrightarrow> sm_get S (s_table s) k = None) \<and>
    (\<forall>t k. pc_key (s_pcs s t) = Some k \<longrightarrow> entry_ok (sm_get S (s_table s) k) (s_pcs s t)) \<and>
    (\<forall>t. set_option (pc_handle (s_pcs s t)) \<subseteq> alone (s_handles s)) \<and>
    (\<forall>t t'. t \<noteq> t' \<longrightarrow> set_option (pc_key (s_pcs s t)) \<inter> set_option (pc_key (s_pcs s t')) = {} \<and>
      set_option (pc_handle (s_pcs s t)) \<inter> set_option (pc_handle (s_pcs s t')) = {})"

lemma quiet_inv_init: "quiet_inv (lt_init S)"
  by (simp add: quiet_inv_def lt_init_def wf_new get_new)

lemma quiet_inv_change:
  assumes inv: "quiet_inv s" and wf': "wf (s_table s')" and pcs: "s_pcs s' = (s_pcs s)(t := p)"
    and key: "set_option (pc_key p) \<subseteq> set_option (pc_key (s_pcs s t)) \<union> {k. key_free s k}"
    and gone: "\<And>k. pc_key (s_pcs s t) = Some k \<Longrightarrow> pc_key p \<noteq> Some k \<Longrightarrow> sm_get S (s_table s') k = None"
    and frame: "\<And>k. pc_key (s_pcs s t) \<noteq> Some k \<Longrightarrow> sm_get S (s_table s') k = sm_get S (s_table s) k"
    and entry: "\<And>k. pc_key p = Some k \<Longrightarrow> entry_ok (sm_get S (s_table s') k) p"
    and hkept: "alone (s_handles s) - set_option (pc_handle (s_pcs s t)) \<subseteq> alone (s_handles s')"
    and hown: "set_option (pc_handle p) \<subseteq> alone (s_handles s')"
    and hfresh: "set_option (pc_handle p) \<inter> alone (s_handles s) \<subseteq> set_option (pc_handle (s_pcs s t))"
  shows "quiet_inv s'"
proof -
  have inv': "key_free s k \<Longrightarrow> sm_get S (s_table s) k = None"
    "pc_key (s_pcs s u) = Some k \<Longrightarrow> entry_ok (sm_get S (s_table s) k) (s_pcs s u)"
    "set_option (pc_handle (s_pcs s u)) \<subseteq> alone (s_handles s)"
    "u \<noteq> u' \<Longrightarrow> set_option (pc_key (s_pcs s u)) \<inter> set_option (pc_key (s_pcs s u')) = {}"
    "u \<noteq> u' \<Longrightarrow> set_option (pc_handle (s_pcs s u)) \<inter> set_option (pc_handle (s_pcs s u')) = {}" for u u' k
    using inv unfolding quiet_inv_def by blast+
  have others: "pc_key (s_pcs s u) = Some k \<Longrightarrow> pc_key (s_pcs s t) \<noteq> Some k"
    "set_option (pc_key (s_pcs s u)) \<inter> set_option (pc_key p) = {}"
    "set_option (pc_handle (s_pcs s u)) \<subseteq> alone (s_handles s')"
    "set_option (pc_handle (s_pcs s u)) \<inter> set_option (pc_handle p) = {}" if "u \<noteq> t" for u k
  proof -
    show "pc_key (s_pcs s t) \<noteq> Some k" if "pc_key (s_pcs s u) = Some k" using inv'(4) [OF \<open>u \<noteq> t\<close>] that by auto
    have "set_option (pc_key (s_pcs s u)) \<inter> {k. key_free s k} = {}" by (auto simp: key_free_def)
    then show "set_option (pc_key (s_pcs s u)) \<inter> set_option (pc_key p) = {}" using key inv'(4) [OF that] by blast
    show "set_option (pc_handle (s_pcs s u)) \<subseteq> alone (s_handles s')" using hkept inv'(3) [of u] inv'(5) [OF that] by blast
    show "set_option (pc_handle (s_pcs s u)) \<inter> set_option (pc_handle p) = {}" using hfresh inv'(3) [of u] inv'(5) [OF that] by blast
  qed
  have "sm_get S (s_table s') k = None" if "key_free s' k" for k
  proof (cases "pc_key (s_pcs s t) = Some k")
    case True
    then show ?thesis using gone [of k] that pcs unfolding key_free_def by (metis fun_upd_same)
  next
    case False
    then have "key_free s k" using that pcs unfolding key_free_def by (metis fun_upd_other)
    then show ?thesis using False frame inv'(1) by simp
  qed
  moreover have "entry_ok (sm_get S (s_table s') k) (s_pcs s' u)" if "pc_key (s_pcs s' u) = Some k" for u k
    using that pcs entry others(1) [of u k] frame [of k] inv'(2) [of u k] by (cases "u = t") auto
  moreover have "set_option (pc_key (s_pcs s' u)) \<inter> set_option (pc_key (s_pcs s' u')) = {}"
    "set_option (pc_handle (s_pcs s' u)) \<inter> set_option (pc_handle (s_pcs s' u')) = {}" if "u \<noteq> u'" for u u'
    using that others(2,4) inv'(4,5) [OF that] pcs by (cases "u = t"; cases "u' = t"; simp add: Int_commute)+
  ultimately show ?thesis unfolding quiet_inv_def using wf' pcs hown others(3) by simp
qed

lemma quiet_inv_step:
  assumes inv: "quiet_inv s" and call: "\<And>k. a = Call k \<Longrightarrow> key_free s k"
    and step: "task_step S s t (s_pcs s t) a = Some s'"
  shows "quiet_inv s'"
proof -
  have wf: "wf (s_table s)" and free: "\<And>k. key_free s k \<Longrightarrow> sm_get S (s_table s) k = None"
    and here: "\<And>k. pc_key (s_pcs s t) = Some k \<Longrightarrow> entry_ok (sm_get S (s_table s) k) (s_pcs s t)"
      "set_option (pc_handle (s_pcs s t)) \<subseteq> alone (s_handles s)"
    using inv unfolding quiet_inv_def by blast+
  note laws = wf_goi [OF wf] goi_value [OF wf] goi_get [OF wf] wf_remove [OF wf] get_remove [OF wf] wf LockBlock_remove_def
  show ?thesis
  proof (cases "s_pcs s t")
    case Idle
    then show ?thesis using step call free
      by (cases a) (auto intro!: quiet_inv_change [OF inv, of _ t] simp: laws)
  next
    case (LockStart k)
    then show ?thesis using step here
      by (cases a) (auto intro!: quiet_inv_change [OF inv, of _ t] simp: laws)
  next
    case (TempLocked k h)
    obtain m w where mw: "sm_get_or_insert S k h (s_table s) = (m, w)" by (cases "sm_get_or_insert S k h (s_table s)")
    have "sm_get S (s_table s) k = None" using here TempLocked by simp
    then have "wf m" "w = h" and "\<And>k'. sm_get S m k' = (if k' = k then Some h else sm_get S (s_table s) k')"
      using mw laws(1,2,3) [of k h] by auto
    then show ?thesis using step here TempLocked mw
      by (cases a) (auto intro!: quiet_inv_change [OF inv, of _ t])
  next
    case (Holding k h)
    then show ?thesis using step here
      by (cases a) (auto intro!: quiet_inv_change [OF inv, of _ t] simp: laws)
  next
    case (Cleared k h)
    then show ?thesis using step here
      by (cases a) (auto intro!: quiet_inv_change [OF inv, of _ t] simp: laws)
  next
    case (Unlocked k h)
    then have "h_strong (s_handles s ! h) = 1" using here by (simp add: alone_def)
    then show ?thesis using step here Unlocked
      by (cases a) (auto intro!: quiet_inv_change [OF inv, of _ t] simp: laws Let_def, metis alone_simps(5))
  next
    case (Removing k)
    then show ?thesis using step here
      by (cases a) (auto intro!: quiet_inv_change [OF inv, of _ t] simp: laws)
  qed (use here in simp_all)
qed

lemma quiet_inv_run: "lt_run S s es = Some s' \<Longrightarrow> no_contention S s es \<Longrightarrow> quiet_inv s \<Longrightarrow> quiet_inv s'"
proof (induction es arbitrary: s)
  case (Cons e es)
  obtain t a where e: "e = (t, a)" by (cases e)
  obtain s1 where s1: "task_step S s t (s_pcs s t) a = Some s1" "lt_run S s1 es = Some s'"
    using Cons.prems(1) by (auto simp: e bind_eq_Some_conv)
  have "\<And>k. a = Call k \<Longrightarrow> key_free s k" "no_contention S s1 es" using Cons.prems(2) s1(1) by (auto simp: e)
  then show ?case using quiet_inv_step [OF Cons.prems(3) _ s1(1)] Cons.IH [OF s1(2)] by blast
qed simp

lemma goi_obtain:
  assumes "wf m"
  obtains m' where "sm_get_or_insert S k h m = (m', case sm_get S m k of Some w \<Rightarrow> w | None \<Rightarrow> h)" "wf m'"
    "sm_get S m' k = Some (case sm_get S m k of Some w \<Rightarrow> w | None \<Rightarrow> h)"
  using that [of "fst (sm_get_or_insert S k h m)"] wf_goi [OF assms, of k h] goi_value [OF assms, of k h]
    goi_get [OF assms, of k h k] by (cases "sm_get_or_insert S k h m") (auto split: option.splits)

lemma race_run:
  obtains m where "wf m" "sm_get S m k = Some 2" "lt_run S (lt_init S) (race k d) = Some
    \<lparr> s_table = m, s_handles = [\<lparr> h_key = k, h_locked = True, h_store = Some d, h_strong = 1 \<rparr>,
        \<lparr> h_key = k, h_locked = False, h_store = None, h_strong = 0 \<rparr>, new_locked_handle k],
      s_pcs = (\<lambda>_. Idle)(1 := Holding k 0, 2 := Holding k 2) \<rparr>"
proof -
  obtain m1 where m1: "sm_get_or_insert S k 0 (sm_new S) = (m1, 0)" "wf m1" "sm_get S m1 k = Some 0"
    using goi_obtain [OF wf_new, where k = k and h = 0] by (auto simp: get_new)
  obtain m2 where m2: "sm_get_or_insert S k 1 m1 = (m2, 0)" "wf m2"
    using goi_obtain [OF m1(2), where k = k and h = 1] by (auto simp: m1(3))
  obtain m3 where m3: "sm_get_or_insert S k 2 (sm_remove S k m2) = (m3, 2)" "wf m3" "sm_get S m3 k = Some 2"
    using goi_obtain [OF wf_remove [OF m2(2), of k], where k = k and h = 2] by (auto simp: get_remove [OF m2(2)])
  note m2' = m2(1) [unfolded One_nat_def] and m3' = m3(1) [unfolded numeral_2_eq_2]
  have "lt_run S (lt_init S) (race k d) = Some
    \<lparr> s_table = m3, s_handles = [\<lparr> h_key = k, h_locked = True, h_store = Some d, h_strong = 1 \<rparr>,
        \<lparr> h_key = k, h_locked = False, h_store = None, h_strong = 0 \<rparr>, new_locked_handle k],
      s_pcs = (\<lambda>_. Idle)(1 := Holding k 0, 2 := Holding k 2) \<rparr>"
    by (simp add: race_def lt_init_def m1(1) m2' m3' set_pc_def upgrade_def set_strong_def set_locked_def set_store_def
        new_locked_handle_def LockBlock_remove_def fun_eq_iff numeral_2_eq_2)
  then show ?thesis using that m3(2,3) by blast
qed

end

lemma check_pred:
  fixes hs :: "handle list" and check_fn :: "Key \<Rightarrow> Dagger \<Rightarrow> ('e, unit) result" and h :: nat
  defines "pred \<equiv> \<lambda>h. with_lock hs h (\<lambda>dagger. Option.bind dagger (\<lambda>d. result_err (check_fn (h_key (hs ! h)) d)))"
  shows check_pred_Some: "pred h = Some e \<longleftrightarrow> (\<exists>d. h_store (hs ! h) = Some d \<and> check_fn (h_key (hs ! h)) d = Err e)"
    and check_pred_None: "pred h = None \<longleftrightarrow> (\<forall>d e. h_store (hs ! h) = Some d \<longrightarrow> check_fn (h_key (hs ! h)) d \<noteq> Err e)"
  unfolding pred_def with_lock_def
  by (cases "h_store (hs ! h)"; simp add: result_err_Some; cases "check_fn (h_key (hs ! h)) (the (h_store (hs ! h)))";
      simp add: result_err_def)+

lemma read_cone_check_find:
  "read_cone_check S cm hs lo hi check_fn = (case LockBlock_find_first S (cm_lock_Block cm) hs lo hi
     (\<lambda>h. with_lock hs h (\<lambda>dagger. Option.bind dagger (\<lambda>d. result_err (check_fn (h_key (hs ! h)) d)))) of
     Some e \<Rightarrow> Err e | None \<Rightarrow> Ok ())"
  by (simp add: read_cone_check_def LockBlock_check_cone_def Let_def)

lemma read_cone_check_Err:
  assumes "skip_map S map_ok" "map_ok (cm_lock_Block cm)"
  shows "read_cone_check S cm hs lo hi check_fn = Err e \<longleftrightarrow>
      (\<exists>k h d. in_cone lo hi k \<and> visible S (cm_lock_Block cm) hs k h d \<and> check_fn (h_key (hs ! h)) d = Err e \<and>
        (\<forall>k' h' d' e'. in_cone lo hi k' \<longrightarrow> k' < k \<longrightarrow> visible S (cm_lock_Block cm) hs k' h' d' \<longrightarrow>
          check_fn (h_key (hs ! h')) d' \<noteq> Err e'))"
proof -
  have "read_cone_check S cm hs lo hi check_fn = Err e \<longleftrightarrow> LockBlock_find_first S (cm_lock_Block cm) hs lo hi
     (\<lambda>h. with_lock hs h (\<lambda>dagger. Option.bind dagger (\<lambda>d. result_err (check_fn (h_key (hs ! h)) d)))) = Some e"
    unfolding read_cone_check_find by (auto split: option.splits)
  then show ?thesis
    unfolding skip_map.find_first_Some [OF assms] check_pred_Some check_pred_None visible_def by blast
qed

lemma read_cone_check_Ok:
  assumes "skip_map S map_ok" "map_ok (cm_lock_Block cm)"
  shows "read_cone_check S cm hs lo hi check_fn = Ok () \<longleftrightarrow>
      (\<forall>k h d e'. in_cone lo hi k \<longrightarrow> visible S (cm_lock_Block cm) hs k h d \<longrightarrow> check_fn (h_key (hs ! h)) d \<noteq> Err e')"
proof -
  have "read_cone_check S cm hs lo hi check_fn = Ok () \<longleftrightarrow> LockBlock_find_first S (cm_lock_Block cm) hs lo hi
     (\<lambda>h. with_lock hs h (\<lambda>dagger. Option.bind dagger (\<lambda>d. result_err (check_fn (h_key (hs ! h)) d)))) = None"
    unfolding read_cone_check_find by (auto split: option.splits)
  then show ?thesis unfolding skip_map.find_first_None [OF assms] check_pred_None visible_def by blast
qed

lemma read_key_check_visible: "visible S (cm_lock_Block cm) hs k h d \<Longrightarrow> read_key_check S cm hs k check = check d"
  by (simp add: visible_def read_key_check_def LockBlock_check_key_def with_lock_def)

lemma read_key_check_none: "\<nexists>h d. visible S (cm_lock_Block cm) hs k h d \<Longrightarrow> read_key_check S cm hs k check = Ok ()"
  by (auto simp: visible_def read_key_check_def LockBlock_check_key_def with_lock_def split: option.splits)

section \<open>Properties\<close>

text \<open>A held handle with a lock, for concrete inputs.\<close>

definition lock_sample :: handle where
  "lock_sample = \<lparr> h_key = Key [1], h_locked = True,
    h_store = Some (Dagger_new LT_Put [7] (TimeStamp 5) 0 None (TimeStamp 0) 0 (TimeStamp 0)), h_strong = 1 \<rparr>"





text \<open>
  (C17) Locking several keys cannot deadlock: tasks that each lock distinct keys with
  \<open>lock_tuplespaceInstanton\<close> and have locked any number of them never wait for each other in a
  circle, because each locks its keys in increasing order.
\<close>

theorem lock_keys_no_deadlock:
  assumes "\<forall>t. distinct (ks t)"
  shows "acyclic (waits_for ks n)"
  unfolding acyclic_def
proof safe
  fix t
  assume cyc: "(t, t) \<in> (waits_for ks n)\<^sup>+"
  then obtain u where "(t, u) \<in> waits_for ks n" by (meson tranclD)
  then have "n t < length (ks t)" by (simp add: waits_for_def)
  then show False using waits_for_increases [OF assms cyc] by simp
qed

theorem lock_keys_no_deadlock_witness:
  "acyclic (waits_for (\<lambda>t :: nat. if t = 0 then [Key [2], Key [1]] else if t = 1 then [Key [1], Key [2]] else [])
     (\<lambda>t. if t = 0 then 1 else 0))"
  by (rule lock_keys_no_deadlock) simp

text \<open>
  The guards come back in the order of the given keys, with every place filled: no
  uninitialised guard is returned, also when a key is given twice.
\<close>

theorem lock_keys_in_given_order:
  "place_guards (length ks) (map (\<lambda>e. (e, G e)) (lock_order ks)) = map (\<lambda>i. Some (G (i, ks ! i))) [0..<length ks]"
  unfolding place_guards_lock_order by (auto intro: nth_equalityI simp: nth_enumerate_eq)

text \<open>
  (C5) In every run from the empty table no two tasks hold the same handle at a time, and the
  mutex of a handle a task holds is locked.
\<close>

theorem handle_held_once:
  assumes "skip_map S map_ok" "lt_run S (lt_init S) es = Some s" "s_pcs s t = Holding k h"
  shows "h_locked (s_handles s ! h) \<and> (\<forall>t' k'. s_pcs s t' = Holding k' h \<longrightarrow> t' = t)"
proof -
  have inv: "skip_map.lock_inv S map_ok s"
    using skip_map.lock_inv_run [OF assms(1,2) skip_map.lock_inv_init [OF assms(1)]] .
  then have "owns (s_pcs s t) \<subseteq> locked_handles (s_handles s)" "\<And>t'. t \<noteq> t' \<Longrightarrow> owns (s_pcs s t) \<inter> owns (s_pcs s t') = {}"
    unfolding skip_map.lock_inv_def [OF assms(1)] by blast+
  then show ?thesis using assms(3) by (fastforce simp: locked_handles_def)
qed

theorem handle_held_once_witness:
  "\<exists>s. lt_run btree_skipmap (lt_init btree_skipmap) [(0, Call (Key [1])), (0, Run), (0, Run)] = Some s \<and>
     s_pcs s 0 = Holding (Key [1]) 0 \<and> h_locked (s_handles s ! 0)"
proof -
  let ?s = "\<lparr> s_table = [(Key [1], 0)], s_handles = [new_locked_handle (Key [1])], s_pcs = (\<lambda>_. Idle)(0 := Holding (Key [1]) 0) \<rparr>"
  have "lt_run btree_skipmap (lt_init btree_skipmap) [(0, Call (Key [1])), (0, Run), (0, Run)] = Some ?s"
    by (simp add: lt_init_def set_pc_def)
  moreover from handle_held_once [OF btree_map.skip_map_axioms this, of 0 "Key [1]" 0] have "h_locked (s_handles ?s ! 0)" by simp
  ultimately show ?thesis by (intro exI [of _ ?s]) simp
qed



text \<open>
  (C23) With contention the promise breaks: there is a run in which one task waits for the handle
  of a key, gets it, and by dropping the handle it had created takes the entry of the key out of the
  table; a third task then locks the same key through a handle of its own. Two tasks hold the key,
  and the lock the first of them stored is not seen by \<open>check_key\<close>, whatever the check.
\<close>

theorem contended_lock_lost:
  assumes "skip_map S map_ok"
  shows "\<exists>es s h h'. lt_run S (lt_init S) es = Some s \<and> s_pcs s 1 = Holding k h \<and> s_pcs s 2 = Holding k h' \<and> h \<noteq> h' \<and>
    h_store (s_handles s ! h) = Some d \<and> (\<forall>check_fn :: Dagger \<Rightarrow> ('e, unit) result. LockBlock_check_key S (s_table s) (s_handles s) k check_fn = Ok ())"
proof -
  obtain m where "map_ok m" and m: "sm_get S m k = Some 2" and run: "lt_run S (lt_init S) (race k d) = Some
    \<lparr> s_table = m, s_handles = [\<lparr> h_key = k, h_locked = True, h_store = Some d, h_strong = 1 \<rparr>,
        \<lparr> h_key = k, h_locked = False, h_store = None, h_strong = 0 \<rparr>, new_locked_handle k],
      s_pcs = (\<lambda>_. Idle)(1 := Holding k 0, 2 := Holding k 2) \<rparr>" (is "_ = Some ?s")
    by (rule skip_map.race_run [OF assms, of k d])
  have "LockBlock_check_key S m (s_handles ?s) k f = Ok ()" for f :: "Dagger \<Rightarrow> ('e, unit) result"
    by (simp add: LockBlock_check_key_def LockBlock_get_def m upgrade_def with_lock_def new_locked_handle_def)
  then show ?thesis using run
    by - (rule exI [of _ "race k d"], rule exI [of _ ?s], rule exI [of _ 0], rule exI [of _ 2], simp)
qed

theorem contended_lock_lost_witness:
  "\<exists>es s h h'. lt_run btree_skipmap (lt_init btree_skipmap) es = Some s \<and> s_pcs s 1 = Holding (Key [1]) h \<and>
     s_pcs s 2 = Holding (Key [1]) h' \<and> h \<noteq> h' \<and> h_store (s_handles s ! h) = h_store lock_sample"
  using contended_lock_lost [OF btree_map.skip_map_axioms, of "Key [1]" "the (h_store lock_sample)"]
  by (fastforce simp: lock_sample_def)

end
