(* ===== verification/Leader_Lease.thy ===== *)
theory Leader_Lease
  imports Prelude
begin

text \<open>
  The leader lease of \<open>violetabftstore/src/store/util.rs\<close>: \<open>Lease\<close>, kept by the leader, and
  \<open>RemoteLease\<close>, the shared cell through which other threads read it. The types of the crate \<open>time\<close>
  are a parameter: a duration is any type, and the operations on instants and durations are the fields
  of a record. An instant is its public fields. Atomic cells live in a store, so that all clones of a
  remote lease share one cell.
\<close>

section \<open>Instants and durations (crate time)\<close>

record Timespec =
  sec :: int
  nsec :: int

record 'd time_api =
  tm_add :: "Timespec \<Rightarrow> 'd \<Rightarrow> Timespec"
  tm_sub :: "Timespec \<Rightarrow> Timespec \<Rightarrow> 'd"
  tm_le :: "Timespec \<Rightarrow> Timespec \<Rightarrow> bool"
  tm_lt :: "Timespec \<Rightarrow> Timespec \<Rightarrow> bool"
  du_div :: "'d \<Rightarrow> int \<Rightarrow> 'd"
  du_gt :: "'d \<Rightarrow> 'd \<Rightarrow> bool"

text \<open>\<open>Timespec::new\<close> asserts that the nanoseconds are normalised.\<close>

definition Timespec_new :: "int \<Rightarrow> int \<Rightarrow> (unit, Timespec) result" where
  "Timespec_new s n = (if 0 \<le> n \<and> n < 1000000000 then Ok \<lparr> sec = s, nsec = n \<rparr> else Panic)"

definition nanos :: "Timespec \<Rightarrow> int" where
  "nanos t = sec t * 1000000000 + nsec t"

definition normalised :: "Timespec \<Rightarrow> bool" where
  "normalised t \<longleftrightarrow> 0 \<le> nsec t \<and> nsec t < 1000000000"

text \<open>Instants that a sum or difference is asked for stay below \<open>2 ^ 60\<close> seconds.\<close>

abbreviation time_range :: int where "time_range \<equiv> 2 ^ 60 * 1000000000"

locale time_crate =
  fixes T :: "'d time_api" and dnanos :: "'d \<Rightarrow> int"
  assumes add_norm: "normalised t \<Longrightarrow> 0 \<le> nanos t \<Longrightarrow> 0 \<le> dnanos d \<Longrightarrow> nanos t + dnanos d < time_range \<Longrightarrow> normalised (tm_add T t d)"
    and add_nanos: "normalised t \<Longrightarrow> 0 \<le> nanos t \<Longrightarrow> 0 \<le> dnanos d \<Longrightarrow> nanos t + dnanos d < time_range \<Longrightarrow>
      nanos (tm_add T t d) = nanos t + dnanos d"
    and le_nanos: "normalised a \<Longrightarrow> normalised b \<Longrightarrow> tm_le T a b \<longleftrightarrow> nanos a \<le> nanos b"
    and lt_nanos: "normalised a \<Longrightarrow> normalised b \<Longrightarrow> tm_lt T a b \<longleftrightarrow> nanos a < nanos b"

section \<open>Conversion to one word (timespec_to_u64, u64_to_timespec)\<close>

definition TIMESPEC_NSEC_SHIFT :: nat where [simp]: "TIMESPEC_NSEC_SHIFT = 20"
definition TIMESPEC_SEC_SHIFT :: nat where [simp]: "TIMESPEC_SEC_SHIFT = 10"
definition TIMESPEC_NSEC_MASK :: u64 where [simp]: "TIMESPEC_NSEC_MASK = 1023"

definition timespec_to_u64 :: "Timespec \<Rightarrow> (unit, u64) result" where
  "timespec_to_u64 ts =
    (if \<not> (sec ts \<ge> 0 \<and> sec ts < 2 ^ (64 - TIMESPEC_SEC_SHIFT)) then Panic
     else if \<not> nsec ts \<ge> 0 then Panic
     else let ms = drop_bit TIMESPEC_NSEC_SHIFT (nsec ts); s = push_bit TIMESPEC_SEC_SHIFT (sec ts) in
       Ok (word_of_int s OR word_of_int ms))"

definition u64_to_timespec :: "u64 \<Rightarrow> (unit, Timespec) result" where
  "u64_to_timespec u =
    (let s = drop_bit TIMESPEC_SEC_SHIFT u; n = push_bit TIMESPEC_NSEC_SHIFT (u AND TIMESPEC_NSEC_MASK) in
     Timespec_new (sint s) (sint (ucast n :: 32 word)))"

section \<open>Remote leases\<close>

record RemoteLease =
  rl_expired_time :: nat
  rl_term :: u64

type_synonym cells = "u64 list"

datatype LeaseState = Suspect | Valid | Expired

definition RemoteLease_inspect :: "'d time_api \<Rightarrow> Timespec \<Rightarrow> cells \<Rightarrow> RemoteLease \<Rightarrow> Timespec option \<Rightarrow> (unit, LeaseState) result" where
  "RemoteLease_inspect T now h self ts =
    (let expired_time = h ! rl_expired_time self in
     bind_result (u64_to_timespec expired_time) (\<lambda>e.
       Ok (if tm_lt T (case ts of Some t \<Rightarrow> t | None \<Rightarrow> now) e then Valid else Expired)))"

definition RemoteLease_renew :: "cells \<Rightarrow> RemoteLease \<Rightarrow> Timespec \<Rightarrow> (unit, cells) result" where
  "RemoteLease_renew h self bound =
    bind_result (timespec_to_u64 bound) (\<lambda>v. Ok (h[rl_expired_time self := v]))"

definition RemoteLease_expire :: "cells \<Rightarrow> RemoteLease \<Rightarrow> cells" where
  "RemoteLease_expire h self = h[rl_expired_time self := 0]"

section \<open>Leases\<close>

text \<open>A suspect timestamp is on the left of the sum, a valid one on the right.\<close>

record 'd Lease =
  bound :: "(Timespec + Timespec) option"
  max_lease :: 'd
  max_drift :: 'd
  last_fidelio :: Timespec
  remote :: "RemoteLease option"

type_synonym 'd lease_sys = "'d Lease \<times> cells"

definition Lease_new :: "'d time_api \<Rightarrow> 'd \<Rightarrow> 'd Lease" where
  "Lease_new T ml = \<lparr> bound = None, max_lease = ml, max_drift = du_div T ml 3, last_fidelio = \<lparr> sec = 0, nsec = 0 \<rparr>, remote = None \<rparr>"

definition next_expired_time :: "'d time_api \<Rightarrow> 'd Lease \<Rightarrow> Timespec \<Rightarrow> Timespec" where
  "next_expired_time T self lightlike_ts = tm_add T lightlike_ts (max_lease self)"

text \<open>\<open>renew\<close> in its two parts: first the bound, then the remote lease.\<close>

definition renew_bound :: "'d time_api \<Rightarrow> 'd Lease \<Rightarrow> Timespec \<Rightarrow> 'd Lease" where
  "renew_bound T self lightlike_ts =
    (let b = next_expired_time T self lightlike_ts in
     case bound self of
       Some (Inl ts) \<Rightarrow> if tm_le T ts b then self\<lparr>bound := Some (Inr b)\<rparr> else self
     | Some (Inr ts) \<Rightarrow> if tm_le T ts b then self\<lparr>bound := Some (Inr b)\<rparr> else self
     | None \<Rightarrow> self\<lparr>bound := Some (Inr b)\<rparr>)"

definition renew_remote :: "'d time_api \<Rightarrow> 'd lease_sys \<Rightarrow> (unit, 'd lease_sys) result" where
  "renew_remote T s = (case s of (self, h) \<Rightarrow>
    (case bound self of
       Some (Inr b) \<Rightarrow>
         if du_gt T (tm_sub T b (last_fidelio self)) (max_drift self) then
           let self = self\<lparr>last_fidelio := b\<rparr> in
           (case remote self of
              Some r \<Rightarrow> bind_result (RemoteLease_renew h r b) (\<lambda>h. Ok (self, h))
            | None \<Rightarrow> Ok (self, h))
         else Ok (self, h)
     | _ \<Rightarrow> Ok (self, h)))"

definition Lease_renew :: "'d time_api \<Rightarrow> 'd lease_sys \<Rightarrow> Timespec \<Rightarrow> (unit, 'd lease_sys) result" where
  "Lease_renew T s lightlike_ts = (case s of (self, h) \<Rightarrow> renew_remote T (renew_bound T self lightlike_ts, h))"

definition expire_remote_lease :: "'d lease_sys \<Rightarrow> 'd lease_sys" where
  "expire_remote_lease s = (case s of (self, h) \<Rightarrow>
    (case remote self of Some r \<Rightarrow> (self\<lparr>remote := None\<rparr>, RemoteLease_expire h r) | None \<Rightarrow> (self, h)))"

definition Lease_suspect :: "'d time_api \<Rightarrow> 'd lease_sys \<Rightarrow> Timespec \<Rightarrow> 'd lease_sys" where
  "Lease_suspect T s lightlike_ts = (case expire_remote_lease s of (self, h) \<Rightarrow>
    let b = next_expired_time T self lightlike_ts in (self\<lparr>bound := Some (Inl b)\<rparr>, h))"

definition Lease_expire :: "'d lease_sys \<Rightarrow> 'd lease_sys" where
  "Lease_expire s = (case expire_remote_lease s of (self, h) \<Rightarrow> (self\<lparr>bound := None\<rparr>, h))"

definition Lease_inspect :: "'d time_api \<Rightarrow> Timespec \<Rightarrow> 'd Lease \<Rightarrow> Timespec option \<Rightarrow> LeaseState" where
  "Lease_inspect T now self ts = (case bound self of
     Some (Inl _) \<Rightarrow> Suspect
   | Some (Inr b) \<Rightarrow> if tm_lt T (case ts of Some t \<Rightarrow> t | None \<Rightarrow> now) b then Valid else Expired
   | None \<Rightarrow> Expired)"

definition maybe_new_remote_lease :: "'d lease_sys \<Rightarrow> u64 \<Rightarrow> (unit, 'd lease_sys \<times> RemoteLease option) result" where
  "maybe_new_remote_lease s term = (case s of (self, h) \<Rightarrow>
    (case remote self of
       Some r \<Rightarrow> if rl_term r = term then Ok ((self, h), None) else Panic
     | None \<Rightarrow>
         bind_result (case bound self of Some (Inr ts) \<Rightarrow> timespec_to_u64 ts | _ \<Rightarrow> Ok 0) (\<lambda>expired_time.
           let r = \<lparr> rl_expired_time = length h, rl_term = term \<rparr>; h = h @ [expired_time] in
           Ok ((self\<lparr>remote := Some r\<rparr>, h), Some r))))"

section \<open>The conversion rounds down\<close>

lemma push_bit_or_add: "x < 2 ^ 10 \<Longrightarrow> push_bit 10 y OR x = push_bit 10 y + (x :: u64)"
proof -
  assume "x < 2 ^ 10"
  then have x: "take_bit 10 x = x" by (simp add: less_mask_eq take_bit_eq_mask)
  have "push_bit 10 y AND x = 0"
  proof (rule bit_eqI)
    fix n show "bit (push_bit 10 y AND x) n = bit 0 n"
    proof (cases "n < 10")
      case False
      then have "\<not> bit (take_bit 10 x) n" by (simp add: bit_take_bit_iff)
      then show ?thesis by (simp add: x bit_and_iff)
    qed (simp add: bit_and_iff bit_push_bit_iff)
  qed
  then show ?thesis by (simp add: disjunctive_add_eq_or)
qed

lemma timespec_to_u64_eq:
  assumes "normalised t" "0 \<le> sec t" "sec t < 2 ^ 54"
  obtains u where "timespec_to_u64 t = Ok u" "uint u = sec t * 1024 + nsec t div 2 ^ 20"
proof -
  let ?ms = "nsec t div 2 ^ 20"
  have ms: "0 \<le> ?ms" "?ms < 1024" using assms(1) by (auto simp: normalised_def)
  then have small: "(word_of_int ?ms :: u64) < 2 ^ 10" by (simp add: word_less_def unsigned_of_int take_bit_int_eq_self)
  have "push_bit 10 (sec t) = sec t * 1024" by (simp add: push_bit_eq_mult)
  then have "word_of_int (push_bit 10 (sec t)) OR word_of_int ?ms = push_bit 10 (word_of_int (sec t)) OR (word_of_int ?ms :: u64)"
    by (simp add: push_bit_eq_mult)
  also have "\<dots> = word_of_int (sec t * 1024 + ?ms)"
    unfolding push_bit_or_add [OF small] by (simp add: push_bit_eq_mult)
  finally have "timespec_to_u64 t = Ok (word_of_int (sec t * 1024 + ?ms))"
    using assms by (simp add: timespec_to_u64_def normalised_def drop_bit_eq_div)
  moreover have "uint (word_of_int (sec t * 1024 + ?ms) :: u64) = sec t * 1024 + ?ms"
    using assms ms by (subst unsigned_of_int) (simp add: take_bit_int_eq_self)
  ultimately show ?thesis using that by blast
qed

lemma u64_to_timespec_eq: "u64_to_timespec u = Timespec_new (uint u div 1024) (uint u mod 1024 * 2 ^ 20)"
proof -
  have u: "uint u < 2 ^ 64" "0 \<le> uint u" using unsigned_less [of u] by simp_all
  then have "uint (drop_bit 10 u) = uint u div 1024" "uint u div 1024 < 2 ^ 63"
    by (simp_all add: drop_bit_eq_div uint_div_distrib)
  moreover have "0 \<le> uint u div 1024" using u(2) pos_imp_zdiv_nonneg_iff [of 1024 "uint u"] by simp
  ultimately have s: "sint (drop_bit 10 u) = uint u div 1024"
    using signed_take_bit_int_eq_self [of 63 "uint u div 1024"] by (simp add: sint_uint)
  have "uint (u AND 1023) = uint u AND mask 10" by (simp add: uint_and mask_eq_exp_minus_1)
  also have "\<dots> = uint u mod 1024" by (simp add: take_bit_eq_mask [symmetric] take_bit_eq_mod)
  finally have m: "uint (u AND 1023) = uint u mod 1024" .
  have "push_bit 20 (u AND 1023) = word_of_int (uint u mod 1024 * 2 ^ 20)"
    by (simp add: push_bit_eq_mult m [symmetric])
  then have "sint (ucast (push_bit 20 (u AND 1023)) :: 32 word) = uint u mod 1024 * 2 ^ 20"
    by (simp add: unsigned_of_int sint_sbintrunc' signed_take_bit_int_eq_self take_bit_int_eq_self
        del: of_int_mult)
  then show ?thesis using s by (simp add: u64_to_timespec_def)
qed

lemma conversion_rounds:
  assumes "normalised t" "0 \<le> sec t" "sec t < 2 ^ 54"
  obtains u t' where "timespec_to_u64 t = Ok u" "u64_to_timespec u = Ok t'" "normalised t'"
    "nanos t' \<le> nanos t" "nanos t < nanos t' + 2 ^ 20" "0 \<le> nanos t'"
proof -
  obtain u where u: "timespec_to_u64 t = Ok u" "uint u = sec t * 1024 + nsec t div 2 ^ 20"
    using timespec_to_u64_eq [OF assms] .
  have "0 \<le> nsec t div 2 ^ 20" "nsec t div 2 ^ 20 < 1024" using assms(1) by (auto simp: normalised_def)
  then have fields: "uint u div 1024 = sec t" "uint u mod 1024 = nsec t div 2 ^ 20"
    using u(2) by simp_all
  have n: "nsec t div 2 ^ 20 * 2 ^ 20 \<le> nsec t" "nsec t < nsec t div 2 ^ 20 * 2 ^ 20 + 2 ^ 20"
    by (simp_all add: minus_mod_eq_div_mult [symmetric])
  let ?t = "\<lparr> sec = sec t, nsec = nsec t div 2 ^ 20 * 2 ^ 20 \<rparr>"
  have "u64_to_timespec u = Ok ?t"
    unfolding u64_to_timespec_eq fields Timespec_new_def using n assms(1) by (auto simp: normalised_def)
  then show ?thesis
    using that [OF u(1)] n assms by (simp add: normalised_def nanos_def)
qed

lemma u64_to_timespec_0 [simp]: "u64_to_timespec 0 = Ok \<lparr> sec = 0, nsec = 0 \<rparr>"
  by (simp add: u64_to_timespec_eq Timespec_new_def)

section \<open>The invariant\<close>

text \<open>
  Clock readings and lease lengths the code is used with: the sum of both stays in the range that
  \<open>timespec_to_u64\<close> accepts.
\<close>

definition clock_ok :: "Timespec \<Rightarrow> bool" where
  "clock_ok t \<longleftrightarrow> normalised t \<and> 0 \<le> sec t \<and> sec t < 2 ^ 53"

abbreviation bound_ok :: "Timespec \<Rightarrow> bool" where
  "bound_ok t \<equiv> normalised t \<and> 0 \<le> nanos t \<and> nanos t < 2 ^ 54 * 1000000000"

text \<open>
  A cell other than the connected remote's holds zero, and so does every cell unless the lease is
  valid; the connected remote's time, converted, is at most the bound.
\<close>

definition cell_ok :: "'d Lease \<Rightarrow> cells \<Rightarrow> nat \<Rightarrow> bool" where
  "cell_ok l h i \<longleftrightarrow> h ! i = 0 \<or>
    (\<exists>r b e. remote l = Some r \<and> rl_expired_time r = i \<and> bound l = Some (Inr b) \<and>
      u64_to_timespec (h ! i) = Ok e \<and> normalised e \<and> nanos e \<le> nanos b)"

definition lease_inv :: "('d \<Rightarrow> int) \<Rightarrow> 'd lease_sys \<Rightarrow> bool" where
  "lease_inv dn s \<longleftrightarrow> (case s of (l, h) \<Rightarrow>
    0 \<le> dn (max_lease l) \<and> dn (max_lease l) < 2 ^ 53 * 1000000000 \<and>
    (\<forall>b. bound l = Some (Inl b) \<or> bound l = Some (Inr b) \<longrightarrow> bound_ok b) \<and>
    (\<forall>r. remote l = Some r \<longrightarrow> rl_expired_time r < length h) \<and>
    (\<forall>i < length h. cell_ok l h i))"

lemma bound_sec: "bound_ok b \<Longrightarrow> 0 \<le> sec b \<and> sec b < 2 ^ 54"
  by (auto simp: normalised_def nanos_def)

context time_crate
begin

lemma next_bound_ok:
  assumes "clock_ok t" "0 \<le> dnanos (max_lease l)" "dnanos (max_lease l) < 2 ^ 53 * 1000000000"
  shows "bound_ok (next_expired_time T l t)"
proof -
  have t: "normalised t" "0 \<le> nanos t" "nanos t < 2 ^ 53 * 1000000000"
    using assms(1) by (auto simp: clock_ok_def normalised_def nanos_def)
  then have "nanos t + dnanos (max_lease l) < time_range" using assms(3) by simp
  from add_norm [OF t(1,2) assms(2) this] add_nanos [OF t(1,2) assms(2) this]
  show ?thesis using t assms by (simp add: next_expired_time_def)
qed

lemma renew_bound_inv:
  assumes "lease_inv dnanos (l, h)" "clock_ok t"
  shows "lease_inv dnanos (renew_bound T l t, h)"
proof -
  let ?b = "next_expired_time T l t"
  have b: "bound_ok ?b" using next_bound_ok assms by (simp add: lease_inv_def)
  have grows: "nanos b \<le> nanos ?b" if "bound l = Some (Inr b)" "tm_le T b ?b" for b
    using that b assms(1) le_nanos [of b ?b] by (simp add: lease_inv_def)
  have "cell_ok (l\<lparr>bound := Some (Inr ?b)\<rparr>) h i"
    if "cell_ok l h i" "\<And>b. bound l = Some (Inr b) \<Longrightarrow> tm_le T b ?b" for i
    using that grows unfolding cell_ok_def by fastforce
  then show ?thesis
    using assms(1) b by (auto simp: lease_inv_def renew_bound_def Let_def split: option.splits sum.splits)
qed

lemma cell_ok_store:
  assumes "cell_ok l h i" "i < length h" "remote l = Some r" "bound l = Some (Inr b)" "bound_ok b"
    "timespec_to_u64 b = Ok v"
  shows "cell_ok (l\<lparr>last_fidelio := x\<rparr>) (h[rl_expired_time r := v]) i"
proof (cases "i = rl_expired_time r")
  case True
  obtain u t' where "timespec_to_u64 b = Ok u" "u64_to_timespec u = Ok t'" "normalised t'" "nanos t' \<le> nanos b"
    using conversion_rounds [of b] bound_sec [OF assms(5)] assms(5) by blast
  then show ?thesis using assms True by (simp add: cell_ok_def)
next
  case False
  then show ?thesis using assms by (auto simp: cell_ok_def)
qed

lemma renew_remote_inv:
  assumes "lease_inv dnanos (l, h)"
  shows "\<exists>s'. renew_remote T (l, h) = Ok s' \<and> lease_inv dnanos s'"
proof (cases "bound l")
  case (Some x)
  show ?thesis
  proof (cases x)
    case (Inr b)
    then have b: "bound_ok b" using assms Some by (simp add: lease_inv_def)
    then obtain v where v: "timespec_to_u64 b = Ok v"
      using conversion_rounds [of b] bound_sec [OF b] by blast
    have keep: "lease_inv dnanos (l\<lparr>last_fidelio := b\<rparr>, h)"
      using assms by (simp add: lease_inv_def cell_ok_def)
    show ?thesis
    proof (cases "remote l")
      case None
      then show ?thesis using Some Inr assms keep by (simp add: renew_remote_def)
    next
      case r: (Some r)
      have "lease_inv dnanos (l\<lparr>last_fidelio := b\<rparr>, h[rl_expired_time r := v])"
        using assms cell_ok_store [OF _ _ r _ b v] Some Inr by (simp add: lease_inv_def r)
      then show ?thesis using r Some Inr v assms by (simp add: renew_remote_def RemoteLease_renew_def)
    qed
  qed (use assms Some in \<open>simp add: renew_remote_def\<close>)
qed (use assms in \<open>simp add: renew_remote_def\<close>)

lemma maybe_new_remote_inv:
  assumes "lease_inv dnanos (l, h)" "maybe_new_remote_lease (l, h) term = Ok (s', r)"
  shows "lease_inv dnanos s'"
proof (cases "remote l")
  case (Some r0)
  then show ?thesis using assms by (auto simp: maybe_new_remote_lease_def split: if_splits)
next
  case None
  then obtain v where v: "(case bound l of Some (Inr ts) \<Rightarrow> timespec_to_u64 ts | _ \<Rightarrow> Ok 0) = Ok v"
    and s': "s' = (l\<lparr>remote := Some \<lparr> rl_expired_time = length h, rl_term = term \<rparr>\<rparr>, h @ [v])"
    using assms(2) by (auto simp: maybe_new_remote_lease_def bind_result_Ok_iff Let_def)
  have new: "v = 0 \<or> (\<exists>b e. bound l = Some (Inr b) \<and> u64_to_timespec v = Ok e \<and> normalised e \<and> nanos e \<le> nanos b)"
  proof (cases "\<exists>b. bound l = Some (Inr b)")
    case True
    then obtain b where b: "bound l = Some (Inr b)" "bound_ok b" using assms(1) by (auto simp: lease_inv_def)
    then show ?thesis using conversion_rounds [of b] bound_sec [OF b(2)] v by (metis option.case(2) result.inject(1) sum.case(2))
  next
    case False
    then show ?thesis using v by (auto split: option.splits sum.splits)
  qed
  have "h ! i = 0" if "i < length h" for i
    using assms(1) None that by (auto simp: lease_inv_def cell_ok_def)
  then have "cell_ok (fst s') (snd s') i" if "i < length (snd s')" for i
    using that new unfolding s' by (cases "i < length h") (auto simp: cell_ok_def nth_append)
  then show ?thesis using assms(1) unfolding s' by (simp add: lease_inv_def)
qed

end

lemma expire_remote_lease_inv:
  assumes "lease_inv dn (l, h)" "expire_remote_lease (l, h) = (l', h')"
  shows "lease_inv dn (l', h')" "remote l' = None" "max_lease l' = max_lease l" "\<forall>i < length h'. h' ! i = 0"
proof -
  have zero: "\<forall>i < length h'. h' ! i = 0" and l': "remote l' = None" "max_lease l' = max_lease l" "bound l' = bound l"
    using assms by (auto simp: expire_remote_lease_def RemoteLease_expire_def lease_inv_def cell_ok_def nth_list_update
        split: option.splits)
  then show "lease_inv dn (l', h')" using assms(1) by (auto simp: lease_inv_def cell_ok_def)
  show "remote l' = None" "max_lease l' = max_lease l" "\<forall>i < length h'. h' ! i = 0" using zero l' by blast+
qed

lemma Lease_expire_inv:
  assumes "lease_inv dn s"
  shows "lease_inv dn (Lease_expire s)"
proof -
  obtain l h l' h' where s: "s = (l, h)" "expire_remote_lease (l, h) = (l', h')" by (metis prod.exhaust)
  have "lease_inv dn (l', h')" and "remote l' = None" "\<forall>i < length h'. h' ! i = 0"
    using expire_remote_lease_inv [of dn l h] assms s by auto
  then show ?thesis by (auto simp: s Lease_expire_def lease_inv_def cell_ok_def)
qed

section \<open>Interleavings\<close>

text \<open>
  The steps of the thread that owns the lease, as fine as another thread can observe them: \<open>renew\<close>
  is two steps, since the bound is stored before the remote lease, and the intermediate state of
  \<open>suspect\<close> and \<open>expire\<close> is the one \<open>expire_remote_lease\<close> gives.
\<close>

inductive lease_step :: "'d time_api \<Rightarrow> 'd lease_sys \<Rightarrow> 'd lease_sys \<Rightarrow> bool" for T where
  step_renew_bound: "clock_ok t \<Longrightarrow> lease_step T (l, h) (renew_bound T l t, h)"
| step_renew_remote: "renew_remote T s = Ok s' \<Longrightarrow> lease_step T s s'"
| step_expire_remote: "lease_step T s (expire_remote_lease s)"
| step_suspect: "clock_ok t \<Longrightarrow> lease_step T s (Lease_suspect T s t)"
| step_expire: "lease_step T s (Lease_expire s)"
| step_new_remote: "maybe_new_remote_lease s term = Ok (s', r) \<Longrightarrow> lease_step T s s'"

definition lease_reachable :: "'d time_api \<Rightarrow> 'd \<Rightarrow> 'd lease_sys \<Rightarrow> bool" where
  "lease_reachable T ml s \<longleftrightarrow> (lease_step T)\<^sup>*\<^sup>* (Lease_new T ml, []) s"

context time_crate
begin

lemma Lease_suspect_inv:
  assumes "lease_inv dnanos s" "clock_ok t"
  shows "lease_inv dnanos (Lease_suspect T s t)"
proof -
  obtain l h l' h' where s: "s = (l, h)" "expire_remote_lease (l, h) = (l', h')" by (metis prod.exhaust)
  have inv: "lease_inv dnanos (l', h')" and "remote l' = None" "\<forall>i < length h'. h' ! i = 0"
    using expire_remote_lease_inv [of dnanos l h] assms(1) s by auto
  moreover have "bound_ok (next_expired_time T l' t)"
    using next_bound_ok [OF assms(2)] inv by (simp add: lease_inv_def)
  ultimately show ?thesis by (auto simp: s Lease_suspect_def lease_inv_def cell_ok_def Let_def)
qed

lemma lease_step_inv: "lease_step T s s' \<Longrightarrow> lease_inv dnanos s \<Longrightarrow> lease_inv dnanos s'"
proof (induction rule: lease_step.induct)
  case (step_renew_bound t l h)
  then show ?case using renew_bound_inv by blast
next
  case (step_renew_remote s s')
  then show ?case using renew_remote_inv by (cases s) (metis result.inject(1))
next
  case (step_expire_remote s)
  then show ?case by (cases s; cases "expire_remote_lease s") (auto dest: expire_remote_lease_inv(1))
next
  case (step_suspect t s)
  then show ?case using Lease_suspect_inv by blast
next
  case (step_expire s)
  then show ?case using Lease_expire_inv by blast
next
  case (step_new_remote s tm s' r)
  then show ?case using maybe_new_remote_inv by (cases s) blast
qed

lemma reachable_inv:
  assumes "lease_reachable T ml s" "0 \<le> dnanos ml" "dnanos ml < 2 ^ 53 * 1000000000"
  shows "lease_inv dnanos s"
  using assms(1) unfolding lease_reachable_def
proof (induction rule: rtranclp_induct)
  case base
  then show ?case using assms by (simp add: lease_inv_def Lease_new_def)
next
  case (step s s')
  then show ?case using lease_step_inv by blast
qed

lemma remote_valid_imp:
  assumes "lease_inv dnanos (l, h)" "rl_expired_time r < length h" "clock_ok (case ts of Some t \<Rightarrow> t | None \<Rightarrow> now)"
    "RemoteLease_inspect T now h r ts = Ok Valid"
  shows "Lease_inspect T now l ts = Valid"
proof -
  let ?t = "case ts of Some t \<Rightarrow> t | None \<Rightarrow> now"
  obtain e where e: "u64_to_timespec (h ! rl_expired_time r) = Ok e" "tm_lt T ?t e"
    using assms(4) by (auto simp: RemoteLease_inspect_def bind_result_Ok_iff split: if_splits)
  have t: "normalised ?t" "0 \<le> nanos ?t" using assms(3) by (auto simp: clock_ok_def normalised_def nanos_def)
  have cell: "cell_ok l h (rl_expired_time r)" using assms(1,2) by (simp add: lease_inv_def)
  have "h ! rl_expired_time r \<noteq> 0"
    using e t lt_nanos [of ?t "\<lparr> sec = 0, nsec = 0 \<rparr>"] by (auto simp: normalised_def nanos_def)
  then obtain b where b: "bound l = Some (Inr b)" "normalised e" "nanos e \<le> nanos b"
    using cell e(1) by (auto simp: cell_ok_def)
  moreover have "normalised b" using assms(1) b(1) by (auto simp: lease_inv_def)
  ultimately have "tm_lt T ?t b" using e(2) t(1) lt_nanos by fastforce
  then show ?thesis using b(1) by (simp add: Lease_inspect_def)
qed

lemma remote_inspect_total:
  assumes "lease_inv dnanos (l, h)" "rl_expired_time r < length h"
  shows "\<exists>st. RemoteLease_inspect T now h r ts = Ok st"
proof -
  have "cell_ok l h (rl_expired_time r)" using assms by (simp add: lease_inv_def)
  then have "\<exists>e. u64_to_timespec (h ! rl_expired_time r) = Ok e" by (auto simp: cell_ok_def)
  then show ?thesis by (auto simp: RemoteLease_inspect_def)
qed

lemma renew_valid:
  assumes "lease_inv dnanos (l, h)" "clock_ok t" "clock_ok t'" "nanos t' < nanos t + dnanos (max_lease l)"
    "\<And>ts. bound l = Some (Inl ts) \<Longrightarrow> nanos ts \<le> nanos t + dnanos (max_lease l)"
  shows "\<exists>s'. Lease_renew T (l, h) t = Ok s' \<and> Lease_inspect T now (fst s') (Some t') = Valid"
proof -
  let ?b = "next_expired_time T l t" and ?l = "renew_bound T l t"
  have b: "bound_ok ?b" using next_bound_ok [OF assms(2)] assms(1) by (simp add: lease_inv_def)
  have t: "normalised t" "0 \<le> nanos t" "nanos t < 2 ^ 53 * 1000000000" "normalised t'"
    using assms(2,3) by (auto simp: clock_ok_def normalised_def nanos_def)
  then have nb: "nanos ?b = nanos t + dnanos (max_lease l)"
    using assms(1) by (auto simp: next_expired_time_def lease_inv_def intro!: add_nanos)
  have "\<exists>b'. bound ?l = Some (Inr b') \<and> nanos ?b \<le> nanos b' \<and> normalised b'"
    using assms(1,5) b nb le_nanos [of _ ?b]
    by (auto simp: renew_bound_def lease_inv_def Let_def split: option.split sum.split)
  then have valid: "Lease_inspect T now l' (Some t') = Valid" if "bound l' = bound ?l" for l' :: "'d Lease"
    using that assms(4) nb lt_nanos [OF t(4)] by (auto simp: Lease_inspect_def)
  obtain s' where s': "renew_remote T (?l, h) = Ok s'"
    using renew_remote_inv [OF renew_bound_inv [OF assms(1,2)]] by blast
  then have "bound (fst s') = bound ?l"
    by (auto simp: renew_remote_def bind_result_Ok_iff Let_def split: option.splits sum.splits if_splits)
  then show ?thesis using valid s' by (auto simp: Lease_renew_def)
qed

end

section \<open>A clock with the documented behaviour\<close>

definition from_nanos :: "int \<Rightarrow> Timespec" where
  "from_nanos n = \<lparr> sec = n div 1000000000, nsec = n mod 1000000000 \<rparr>"

definition std_time :: "int time_api" where
  "std_time = \<lparr> tm_add = (\<lambda>t d. from_nanos (nanos t + d)), tm_sub = (\<lambda>a b. nanos a - nanos b),
    tm_le = (\<lambda>a b. nanos a \<le> nanos b), tm_lt = (\<lambda>a b. nanos a < nanos b),
    du_div = (\<lambda>d k. d div k), du_gt = (\<lambda>a b. b < a) \<rparr>"

interpretation nanos_time: time_crate std_time "\<lambda>d. d"
  by unfold_locales (simp_all add: std_time_def from_nanos_def normalised_def nanos_def)

section \<open>Properties\<close>

text \<open>
  (C2) A remote lease never outlives the lease: in every state that another thread can observe, during
  and between any sequence of renewals, suspicions, expirations and hand-outs, if any remote lease ever
  handed out reports that a moment is within the lease, then so does the lease itself.
\<close>

theorem remote_lease_safe:
  assumes "time_crate T dn" "0 \<le> dn ml" "dn ml < 2 ^ 53 * 1000000000" "lease_reachable T ml (l, h)"
    "rl_expired_time r < length h" "clock_ok (case ts of Some t \<Rightarrow> t | None \<Rightarrow> now)"
    "RemoteLease_inspect T now h r ts = Ok Valid"
  shows "Lease_inspect T now l ts = Valid"
  using time_crate.remote_valid_imp [OF assms(1) time_crate.reachable_inv [OF assms(1,4,2,3)] assms(5-7)] .

theorem remote_lease_safe_witness:
  "let l = \<lparr> bound = Some (Inr \<lparr> sec = 11, nsec = 0 \<rparr>), max_lease = 10000000000, max_drift = 3333333333,
      last_fidelio = \<lparr> sec = 0, nsec = 0 \<rparr>, remote = Some \<lparr> rl_expired_time = 0, rl_term = 1 \<rparr> \<rparr>; h = [11264] in
   lease_reachable std_time 10000000000 (l, h) \<and>
   RemoteLease_inspect std_time \<lparr> sec = 2, nsec = 0 \<rparr> h \<lparr> rl_expired_time = 0, rl_term = 1 \<rparr> None = Ok Valid \<and>
   Lease_inspect std_time \<lparr> sec = 2, nsec = 0 \<rparr> l None = Valid"
proof -
  let ?l0 = "Lease_new std_time 10000000000" and ?t = "\<lparr> sec = 1, nsec = 0 \<rparr>"
  let ?l1 = "\<lparr> bound = Some (Inr \<lparr> sec = 11, nsec = 0 \<rparr>), max_lease = 10000000000, max_drift = 3333333333,
      last_fidelio = \<lparr> sec = 0, nsec = 0 \<rparr>, remote = None \<rparr> :: int Lease"
  let ?r = "\<lparr> rl_expired_time = 0, rl_term = 1 \<rparr>" and ?now = "\<lparr> sec = 2, nsec = 0 \<rparr>"
  have "renew_bound std_time ?l0 ?t = ?l1"
    by (simp add: renew_bound_def Lease_new_def next_expired_time_def std_time_def from_nanos_def nanos_def)
  then have first: "lease_step std_time (?l0, []) (?l1, [])"
    using step_renew_bound [of ?t std_time ?l0 "[]"] by (simp add: clock_ok_def normalised_def)
  have "maybe_new_remote_lease (?l1, []) 1 = Ok ((?l1\<lparr>remote := Some ?r\<rparr>, [11264]), Some ?r)"
    by (simp add: maybe_new_remote_lease_def timespec_to_u64_def push_bit_eq_mult Let_def)
  then have second: "lease_step std_time (?l1, []) (?l1\<lparr>remote := Some ?r\<rparr>, [11264])" by (rule step_new_remote)
  have reach: "lease_reachable std_time 10000000000 (?l1\<lparr>remote := Some ?r\<rparr>, [11264])"
    unfolding lease_reachable_def
    by (rule rtranclp.rtrancl_into_rtrancl [OF r_into_rtranclp [of "lease_step std_time", OF first] second])
  have valid: "RemoteLease_inspect std_time ?now [11264] ?r None = Ok Valid"
    by (simp add: RemoteLease_inspect_def u64_to_timespec_eq Timespec_new_def std_time_def nanos_def)
  have "Lease_inspect std_time ?now (?l1\<lparr>remote := Some ?r\<rparr>) None = Valid"
    by (rule remote_lease_safe [OF nanos_time.time_crate_axioms _ _ reach _ _ valid]) (simp_all add: clock_ok_def normalised_def)
  then show ?thesis using reach valid by (simp add: Let_def)
qed

text \<open>
  (C31) A renewal never fails and takes effect: from every reachable state it succeeds and every moment
  before the renewed bound is within the lease, unless the lease was suspected for longer; reading a
  remote lease never fails either, and handing out a remote lease fails exactly when one of another
  term is still connected.
\<close>

theorem lease_operations_succeed:
  assumes "time_crate T dn" "0 \<le> dn ml" "dn ml < 2 ^ 53 * 1000000000" "lease_reachable T ml (l, h)"
    "clock_ok t" "clock_ok t'" "nanos t' < nanos t + dn (max_lease l)"
    "\<And>ts. bound l = Some (Inl ts) \<Longrightarrow> nanos ts \<le> nanos t + dn (max_lease l)"
  shows "(\<exists>s'. Lease_renew T (l, h) t = Ok s' \<and> Lease_inspect T now (fst s') (Some t') = Valid) \<and>
    (rl_expired_time r < length h \<longrightarrow> (\<exists>st. RemoteLease_inspect T now h r x = Ok st)) \<and>
    (maybe_new_remote_lease (l, h) term = Panic \<longleftrightarrow> (\<exists>r. remote l = Some r \<and> rl_term r \<noteq> term))"
proof -
  have inv: "lease_inv dn (l, h)" by (rule time_crate.reachable_inv [OF assms(1,4,2,3)])
  have "\<exists>u. timespec_to_u64 b = Ok u" if "bound l = Some (Inr b)" for b
    using inv that bound_sec [of b] conversion_rounds [of b] by (metis (mono_tags, lifting) lease_inv_def case_prod_conv)
  then have "maybe_new_remote_lease (l, h) term = Panic \<longleftrightarrow> (\<exists>r. remote l = Some r \<and> rl_term r \<noteq> term)"
    by (auto simp: maybe_new_remote_lease_def Let_def split: option.splits sum.splits)
  then show ?thesis
    using time_crate.renew_valid [OF assms(1) inv assms(5-8)] time_crate.remote_inspect_total [OF assms(1) inv] by blast
qed

theorem lease_operations_succeed_witness:
  "lease_reachable std_time 10 (Lease_new std_time 10, []) \<and>
   (\<exists>s'. Lease_renew std_time (Lease_new std_time 10, []) \<lparr> sec = 1, nsec = 0 \<rparr> = Ok s' \<and>
     Lease_inspect std_time \<lparr> sec = 1, nsec = 0 \<rparr> (fst s') (Some \<lparr> sec = 1, nsec = 3 \<rparr>) = Valid)"
proof -
  have reach: "lease_reachable std_time 10 (Lease_new std_time 10, [])" by (simp add: lease_reachable_def)
  show ?thesis
    using reach lease_operations_succeed [OF nanos_time.time_crate_axioms _ _ reach,
        of "\<lparr> sec = 1, nsec = 0 \<rparr>" "\<lparr> sec = 1, nsec = 3 \<rparr>" "\<lparr> sec = 1, nsec = 0 \<rparr>"]
    by (simp add: Lease_new_def clock_ok_def normalised_def nanos_def)
qed

text \<open>
  (C40) The conversion of an instant to one word and back rounds down by less than \<open>2 ^ 20\<close> nanoseconds,
  which is more than a millisecond, and the words compare as the instants do; it succeeds for exactly
  the instants with \<open>0\<close> to \<open>2 ^ 54 - 1\<close> seconds.
\<close>

theorem timespec_u64_rounds_down:
  assumes "normalised a" "normalised b"
  shows "(timespec_to_u64 a \<noteq> Panic \<longleftrightarrow> 0 \<le> sec a \<and> sec a < 2 ^ 54) \<and>
    (timespec_to_u64 a = Ok u \<longrightarrow>
      (\<exists>a'. u64_to_timespec u = Ok a' \<and> nanos a' \<le> nanos a \<and> nanos a < nanos a' + 2 ^ 20)) \<and>
    (timespec_to_u64 a = Ok u \<and> timespec_to_u64 b = Ok v \<and> nanos a \<le> nanos b \<longrightarrow> u \<le> v)"
proof (intro conjI impI)
  show range: "timespec_to_u64 a \<noteq> Panic \<longleftrightarrow> 0 \<le> sec a \<and> sec a < 2 ^ 54"
    using assms(1) by (auto simp: timespec_to_u64_def normalised_def)
  have in_range: "0 \<le> sec t" "sec t < 2 ^ 54" if "timespec_to_u64 t = Ok w" for t w
    using that by (auto simp: timespec_to_u64_def split: if_splits)
  show "\<exists>a'. u64_to_timespec u = Ok a' \<and> nanos a' \<le> nanos a \<and> nanos a < nanos a' + 2 ^ 20"
    if "timespec_to_u64 a = Ok u"
    using conversion_rounds [OF assms(1) in_range [OF that]] that by (metis result.inject(1))
  assume uv: "timespec_to_u64 a = Ok u \<and> timespec_to_u64 b = Ok v \<and> nanos a \<le> nanos b"
  then have "uint u = sec a * 1024 + nsec a div 2 ^ 20" "uint v = sec b * 1024 + nsec b div 2 ^ 20"
    using timespec_to_u64_eq [OF assms(1)] timespec_to_u64_eq [OF assms(2)] in_range by (metis result.inject(1))+
  moreover have "nsec a div 2 ^ 20 < 1024" "0 \<le> nsec b div 2 ^ 20"
    using assms by (auto simp: normalised_def)
  moreover have "sec a < sec b \<or> sec a = sec b \<and> nsec a div 2 ^ 20 \<le> nsec b div 2 ^ 20"
    using uv assms by (auto simp: nanos_def normalised_def intro: zdiv_mono1)
  ultimately show "u \<le> v" by (auto simp: word_le_def)
qed

theorem timespec_u64_rounds_down_witness:
  "timespec_to_u64 \<lparr> sec = 1, nsec = 1048575 \<rparr> = Ok 1024 \<and>
   (\<exists>a'. u64_to_timespec 1024 = Ok a' \<and> nanos a' \<le> 1001048575 \<and> 1001048575 < nanos a' + 2 ^ 20)"
proof -
  have word: "timespec_to_u64 \<lparr> sec = 1, nsec = 1048575 \<rparr> = Ok 1024"
    by (simp add: timespec_to_u64_def push_bit_eq_mult drop_bit_eq_div)
  show ?thesis
    using word timespec_u64_rounds_down [of "\<lparr> sec = 1, nsec = 1048575 \<rparr>" "\<lparr> sec = 1, nsec = 0 \<rparr>" 1024]
    by (simp add: normalised_def nanos_def)
qed

end
