(* ===== verification/Brane_Util.thy ===== *)
theory Brane_Util
  imports Prelude
begin

text \<open>
  Regions, which the code calls branes, in \<open>violetabftstore/src/store/util.rs\<close>: key ranges, epochs,
  request checks, membership. Messages of \<open>ekvproto\<close> and of the crate \<open>violetabft\<close> are records of the
  fields the code reads or writes; the constant \<open>INVALID_INDEX\<close> of that crate is a parameter.
\<close>

section \<open>Messages\<close>

datatype PeerRole = Voter | Learner | IncomingVoter | DemotingVoter

record Peer =
  p_id :: u64
  p_store_id :: u64
  p_role :: PeerRole

record BraneEpoch =
  ep_conf_ver :: u64
  ep_version :: u64

record Brane =
  bn_id :: u64
  bn_spacelike_key :: bytes
  bn_lightlike_key :: bytes
  bn_epoch :: BraneEpoch
  bn_peers :: "Peer list"

text \<open>The message of \<open>EpochNotMatch\<close> is kept as the values printed in it.\<close>

datatype StoreError = KeyNotInBrane bytes Brane
  | EpochNotMatch "u64 \<times> BraneEpoch \<times> BraneEpoch" "Brane list"
  | StoreNotMatch u64 u64
  | StaleCommand
  | MissingEpoch
  | MismatchPeerId u64 u64

datatype AdminCmdType = InvalidAdmin | CompactLog | ComputeHash | VerifyHash | ChangePeer | ChangePeerV2
  | Split | BatchSplit | PrepareMerge | CommitMerge | RollbackMerge | TransferLeader | AdminCmd_Other

record CmdRequest =
  rq_admin_cmd_type :: "AdminCmdType option"
  rq_brane_epoch :: "BraneEpoch option"
  rq_peer :: Peer
  rq_term :: u64

datatype MessageType = MsgRequestVote | MsgRequestPreVote | MsgHeartbeat | Msg_Other

record Message =
  m_msg_type :: MessageType
  m_term :: u64
  m_commit :: u64

section \<open>Peers\<close>

definition find_peer :: "Brane \<Rightarrow> u64 \<Rightarrow> Peer option" where
  "find_peer brane store_id = find (\<lambda>p. p_store_id p = store_id) (bn_peers brane)"

text \<open>The mutable variant: what its caller does to the peer found is the argument \<open>f\<close>.\<close>

fun map_first :: "('a \<Rightarrow> bool) \<Rightarrow> ('a \<Rightarrow> 'a) \<Rightarrow> 'a list \<Rightarrow> 'a list" where
  "map_first q f [] = []"
| "map_first q f (x # xs) = (if q x then f x # xs else x # map_first q f xs)"

definition find_peer_mut :: "Brane \<Rightarrow> u64 \<Rightarrow> (Peer \<Rightarrow> Peer) \<Rightarrow> Brane" where
  "find_peer_mut brane store_id f = brane\<lparr>bn_peers := map_first (\<lambda>p. p_store_id p = store_id) f (bn_peers brane)\<rparr>"

fun position :: "('a \<Rightarrow> bool) \<Rightarrow> 'a list \<Rightarrow> nat option" where
  "position q [] = None"
| "position q (x # xs) = (if q x then Some 0 else map_option Suc (position q xs))"

definition remove_peer :: "Brane \<Rightarrow> u64 \<Rightarrow> Brane \<times> Peer option" where
  "remove_peer brane store_id = (case position (\<lambda>x. p_store_id x = store_id) (bn_peers brane) of
     Some i \<Rightarrow> (brane\<lparr>bn_peers := take i (bn_peers brane) @ drop (Suc i) (bn_peers brane)\<rparr>, Some (bn_peers brane ! i))
   | None \<Rightarrow> (brane, None))"

definition new_peer :: "u64 \<Rightarrow> u64 \<Rightarrow> Peer" where
  "new_peer store_id peer_id = \<lparr> p_id = peer_id, p_store_id = store_id, p_role = Voter \<rparr>"

definition new_learner_peer :: "u64 \<Rightarrow> u64 \<Rightarrow> Peer" where
  "new_learner_peer store_id peer_id = \<lparr> p_id = peer_id, p_store_id = store_id, p_role = Learner \<rparr>"

definition is_learner :: "Peer \<Rightarrow> bool" where
  "is_learner peer \<longleftrightarrow> p_role peer = Learner"

section \<open>Key ranges\<close>

definition check_key_in_brane_exclusive :: "bytes \<Rightarrow> Brane \<Rightarrow> (StoreError, unit) result" where
  "check_key_in_brane_exclusive key brane =
    (let lightlike_key = bn_lightlike_key brane; spacelike_key = bn_spacelike_key brane in
     if spacelike_key < key \<and> (key < lightlike_key \<or> lightlike_key = []) then Ok () else Err (KeyNotInBrane key brane))"

definition check_key_in_brane_inclusive :: "bytes \<Rightarrow> Brane \<Rightarrow> (StoreError, unit) result" where
  "check_key_in_brane_inclusive key brane =
    (let lightlike_key = bn_lightlike_key brane; spacelike_key = bn_spacelike_key brane in
     if key \<ge> spacelike_key \<and> (lightlike_key = [] \<or> key \<le> lightlike_key) then Ok () else Err (KeyNotInBrane key brane))"

definition check_key_in_brane :: "bytes \<Rightarrow> Brane \<Rightarrow> (StoreError, unit) result" where
  "check_key_in_brane key brane =
    (let lightlike_key = bn_lightlike_key brane; spacelike_key = bn_spacelike_key brane in
     if key \<ge> spacelike_key \<and> (lightlike_key = [] \<or> key < lightlike_key) then Ok () else Err (KeyNotInBrane key brane))"

definition build_key_cone :: "bytes \<Rightarrow> bytes \<Rightarrow> bool \<Rightarrow> bytes \<times> bytes" where
  "build_key_cone spacelike_key lightlike_key reverse_scan =
    (if reverse_scan then (lightlike_key, spacelike_key) else (spacelike_key, lightlike_key))"

definition is_sibling_branes :: "Brane \<Rightarrow> Brane \<Rightarrow> bool" where
  "is_sibling_branes lhs rhs =
    (if bn_id lhs = bn_id rhs then False
     else if bn_spacelike_key lhs = bn_lightlike_key rhs \<and> bn_lightlike_key rhs \<noteq> [] then True
     else if bn_lightlike_key lhs = bn_spacelike_key rhs \<and> bn_lightlike_key lhs \<noteq> [] then True
     else False)"

section \<open>Raft messages\<close>

definition VIOLETABFT_INIT_LOG_TERM :: u64 where [simp]: "VIOLETABFT_INIT_LOG_TERM = 5"

definition is_first_vote_msg :: "Message \<Rightarrow> bool" where
  "is_first_vote_msg msg \<longleftrightarrow>
    (case m_msg_type msg of
       MsgRequestVote \<Rightarrow> m_term msg = VIOLETABFT_INIT_LOG_TERM + 1
     | MsgRequestPreVote \<Rightarrow> m_term msg = VIOLETABFT_INIT_LOG_TERM + 1
     | _ \<Rightarrow> False)"

definition is_vote_msg :: "Message \<Rightarrow> bool" where
  "is_vote_msg msg \<longleftrightarrow> (let msg_type = m_msg_type msg in msg_type = MsgRequestVote \<or> msg_type = MsgRequestPreVote)"

definition is_initial_msg :: "u64 \<Rightarrow> Message \<Rightarrow> bool" where
  "is_initial_msg invalid_index msg \<longleftrightarrow> (let msg_type = m_msg_type msg in
    msg_type = MsgRequestVote \<or> msg_type = MsgRequestPreVote \<or> (msg_type = MsgHeartbeat \<and> m_commit msg = invalid_index))"

section \<open>Epochs\<close>

definition is_epoch_stale :: "BraneEpoch \<Rightarrow> BraneEpoch \<Rightarrow> bool" where
  "is_epoch_stale epoch check_epoch \<longleftrightarrow>
    ep_version epoch < ep_version check_epoch \<or> ep_conf_ver epoch < ep_conf_ver check_epoch"

record AdminCmdEpochState =
  check_ver :: bool
  check_conf_ver :: bool
  change_ver :: bool
  change_conf_ver :: bool

definition AdminCmdEpochState_new :: "bool \<Rightarrow> bool \<Rightarrow> bool \<Rightarrow> bool \<Rightarrow> AdminCmdEpochState" where
  "AdminCmdEpochState_new a b c d = \<lparr> check_ver = a, check_conf_ver = b, change_ver = c, change_conf_ver = d \<rparr>"

definition ADMIN_CMD_EPOCH_MAP :: "AdminCmdType \<rightharpoonup> AdminCmdEpochState" where
  "ADMIN_CMD_EPOCH_MAP = map_of [
    (InvalidAdmin, AdminCmdEpochState_new False False False False),
    (CompactLog, AdminCmdEpochState_new False False False False),
    (ComputeHash, AdminCmdEpochState_new False False False False),
    (VerifyHash, AdminCmdEpochState_new False False False False),
    (ChangePeer, AdminCmdEpochState_new False True False True),
    (ChangePeerV2, AdminCmdEpochState_new False True False True),
    (Split, AdminCmdEpochState_new True True True False),
    (BatchSplit, AdminCmdEpochState_new True True True False),
    (PrepareMerge, AdminCmdEpochState_new True True True True),
    (CommitMerge, AdminCmdEpochState_new True True True False),
    (RollbackMerge, AdminCmdEpochState_new True True True False),
    (TransferLeader, AdminCmdEpochState_new True True False False)]"

definition NORMAL_REQ_CHECK_VER :: bool where [simp]: "NORMAL_REQ_CHECK_VER = True"
definition NORMAL_REQ_CHECK_CONF_VER :: bool where [simp]: "NORMAL_REQ_CHECK_CONF_VER = False"

definition compare_brane_epoch :: "BraneEpoch \<Rightarrow> Brane \<Rightarrow> bool \<Rightarrow> bool \<Rightarrow> bool \<Rightarrow> (StoreError, unit) result" where
  "compare_brane_epoch from_epoch brane chk_conf_ver chk_ver include_brane =
    (let current_epoch = bn_epoch brane in
     if (chk_conf_ver \<and> ep_conf_ver from_epoch \<noteq> ep_conf_ver current_epoch) \<or>
        (chk_ver \<and> ep_version from_epoch \<noteq> ep_version current_epoch)
     then let branes = (if include_brane then [brane] else []) in
       Err (EpochNotMatch (bn_id brane, current_epoch, from_epoch) branes)
     else Ok ())"

definition check_brane_epoch :: "CmdRequest \<Rightarrow> Brane \<Rightarrow> bool \<Rightarrow> (StoreError, unit) result" where
  "check_brane_epoch req brane include_brane =
    bind_result
      (case rq_admin_cmd_type req of
         None \<Rightarrow> Ok (NORMAL_REQ_CHECK_VER, NORMAL_REQ_CHECK_CONF_VER)
       | Some cmd \<Rightarrow> (case ADMIN_CMD_EPOCH_MAP cmd of
           Some epoch_state \<Rightarrow> Ok (check_ver epoch_state, check_conf_ver epoch_state)
         | None \<Rightarrow> Panic))
      (\<lambda>(chk_ver, chk_conf_ver).
        if \<not> chk_ver \<and> \<not> chk_conf_ver then Ok ()
        else case rq_brane_epoch req of
          None \<Rightarrow> Err MissingEpoch
        | Some from_epoch \<Rightarrow> compare_brane_epoch from_epoch brane chk_conf_ver chk_ver include_brane)"

section \<open>Request checks\<close>

definition check_store_id :: "CmdRequest \<Rightarrow> u64 \<Rightarrow> (StoreError, unit) result" where
  "check_store_id req store_id = (let peer = rq_peer req in
    if p_store_id peer = store_id then Ok () else Err (StoreNotMatch (p_store_id peer) store_id))"

definition check_term :: "CmdRequest \<Rightarrow> u64 \<Rightarrow> (StoreError, unit) result" where
  "check_term req term = (if rq_term req = 0 \<or> term \<le> rq_term req + 1 then Ok () else Err StaleCommand)"

definition check_peer_id :: "CmdRequest \<Rightarrow> u64 \<Rightarrow> (StoreError, unit) result" where
  "check_peer_id req peer_id =
    (if p_id (rq_peer req) = peer_id then Ok () else Err (MismatchPeerId (p_id (rq_peer req)) peer_id))"

section \<open>Membership\<close>

definition brane_on_same_stores :: "Brane \<Rightarrow> Brane \<Rightarrow> bool" where
  "brane_on_same_stores lhs rhs =
    (if length (bn_peers lhs) \<noteq> length (bn_peers rhs) then False
     else list_all (\<lambda>lp. list_ex (\<lambda>rp. p_store_id rp = p_store_id lp \<and> p_role rp = p_role lp) (bn_peers rhs)) (bn_peers lhs))"

definition is_brane_initialized :: "Brane \<Rightarrow> bool" where
  "is_brane_initialized r \<longleftrightarrow> bn_peers r \<noteq> []"

record ConfState =
  cs_voters :: "u64 list"
  cs_learners :: "u64 list"
  cs_voters_outgoing :: "u64 list"
  cs_learners_next :: "u64 list"

definition conf_state_peer :: "ConfState \<times> bool \<Rightarrow> Peer \<Rightarrow> ConfState \<times> bool" where
  "conf_state_peer s p = (case s of (conf_state, in_joint) \<Rightarrow>
    (case p_role p of
       Voter \<Rightarrow> (conf_state\<lparr>cs_voters := cs_voters conf_state @ [p_id p],
          cs_voters_outgoing := cs_voters_outgoing conf_state @ [p_id p]\<rparr>, in_joint)
     | Learner \<Rightarrow> (conf_state\<lparr>cs_learners := cs_learners conf_state @ [p_id p]\<rparr>, in_joint)
     | IncomingVoter \<Rightarrow> (conf_state\<lparr>cs_voters := cs_voters conf_state @ [p_id p]\<rparr>, True)
     | DemotingVoter \<Rightarrow> (conf_state\<lparr>cs_voters_outgoing := cs_voters_outgoing conf_state @ [p_id p],
          cs_learners_next := cs_learners_next conf_state @ [p_id p]\<rparr>, True)))"

definition conf_state_from_brane :: "Brane \<Rightarrow> ConfState" where
  "conf_state_from_brane brane =
    (let s = \<lparr> cs_voters = [], cs_learners = [], cs_voters_outgoing = [], cs_learners_next = [] \<rparr>;
         (conf_state, in_joint) = foldl conf_state_peer (s, False) (bn_peers brane)
     in if \<not> in_joint then conf_state\<lparr>cs_voters_outgoing := []\<rparr> else conf_state)"

definition integration_on_half_fail_quorum_fn :: "nat \<Rightarrow> nat" where
  "integration_on_half_fail_quorum_fn voters = (voters + 1) div 2 + 1"

section \<open>Configuration changes\<close>

datatype ConfChangeKind = CCK_Simple | CCK_EnterJoint | CCK_LeaveJoint

definition confchange_kind :: "nat \<Rightarrow> ConfChangeKind" where
  "confchange_kind change_num =
    (if change_num = 0 then CCK_LeaveJoint else if change_num = 1 then CCK_Simple else CCK_EnterJoint)"

datatype ConfChangeType = AddNode | RemoveNode | AddLearnerNode

definition conf_change_type_str :: "ConfChangeType \<Rightarrow> string" where
  "conf_change_type_str conf_type = (case conf_type of
     AddNode \<Rightarrow> ''AddNode'' | RemoveNode \<Rightarrow> ''RemoveNode'' | AddLearnerNode \<Rightarrow> ''AddLearner'')"

record ChangePeerRequest =
  cp_change_type :: ConfChangeType
  cp_peer :: Peer

record ConfChange =
  cc_change_type :: ConfChangeType
  cc_node_id :: u64
  cc_context :: bytes

datatype ConfChangeTransition = Transition_Auto | Transition_Implicit | Transition_Explicit

record ConfChangeV2 =
  cc2_transition :: ConfChangeTransition
  cc2_changes :: "(ConfChangeType \<times> u64) list"
  cc2_context :: bytes

definition get_change_peers :: "ChangePeerRequest \<Rightarrow> ChangePeerRequest list" where
  "get_change_peers self = [self]"

definition to_confchange :: "ChangePeerRequest \<Rightarrow> bytes \<Rightarrow> ConfChange" where
  "to_confchange self ctx = \<lparr> cc_change_type = cp_change_type self, cc_node_id = p_id (cp_peer self), cc_context = ctx \<rparr>"

definition to_confchange_v2 :: "ChangePeerRequest list \<Rightarrow> bytes \<Rightarrow> ConfChangeV2" where
  "to_confchange_v2 self ctx =
    (let changes = map (\<lambda>c. (cp_change_type c, p_id (cp_peer c))) self;
         transition = (if length changes \<le> 1 then Transition_Auto else Transition_Explicit)
     in \<lparr> cc2_transition = transition, cc2_changes = changes, cc2_context = ctx \<rparr>)"

section \<open>Lemmas\<close>

abbreviation in_brane :: "bytes \<Rightarrow> Brane \<Rightarrow> bool" where
  "in_brane key brane \<equiv> check_key_in_brane key brane = Ok ()"

lemma in_brane_iff:
  "in_brane key brane \<longleftrightarrow> bn_spacelike_key brane \<le> key \<and> (bn_lightlike_key brane = [] \<or> key < bn_lightlike_key brane)"
  by (auto simp: check_key_in_brane_def Let_def)

text \<open>A range that is not empty: the end lies above the start, or is open.\<close>

definition brane_cone_ok :: "Brane \<Rightarrow> bool" where
  "brane_cone_ok b \<longleftrightarrow> bn_lightlike_key b = [] \<or> bn_spacelike_key b < bn_lightlike_key b"

lemma adjacent_disjoint:
  assumes "bn_lightlike_key l = bn_spacelike_key r" "bn_lightlike_key l \<noteq> []"
  shows "\<not> (in_brane k l \<and> in_brane k r)"
  using assms by (auto simp: in_brane_iff)

lemma adjacent_union:
  assumes "bn_lightlike_key l = bn_spacelike_key r" "bn_lightlike_key l \<noteq> []" "brane_cone_ok l" "brane_cone_ok r"
  shows "in_brane k (l\<lparr>bn_lightlike_key := bn_lightlike_key r\<rparr>) \<longleftrightarrow> in_brane k l \<or> in_brane k r"
  using assms by (auto simp: in_brane_iff brane_cone_ok_def)

lemma same_stores_sets:
  assumes "distinct (map p_store_id (bn_peers lhs))"
  shows "brane_on_same_stores lhs rhs \<longleftrightarrow>
    length (bn_peers lhs) = length (bn_peers rhs) \<and>
    (\<lambda>p. (p_store_id p, p_role p)) ` set (bn_peers lhs) = (\<lambda>p. (p_store_id p, p_role p)) ` set (bn_peers rhs)"
proof -
  let ?k = "\<lambda>p. (p_store_id p, p_role p)" and ?l = "bn_peers lhs" and ?r = "bn_peers rhs"
  have sub: "brane_on_same_stores lhs rhs \<longleftrightarrow> length ?l = length ?r \<and> ?k ` set ?l \<subseteq> ?k ` set ?r"
  proof -
    have "?k ` set ?l \<subseteq> ?k ` set ?r \<longleftrightarrow>
        (\<forall>lp \<in> set ?l. \<exists>rp \<in> set ?r. p_store_id rp = p_store_id lp \<and> p_role rp = p_role lp)"
      unfolding image_subset_iff image_iff prod.inject by (intro ball_cong bex_cong refl) auto
    then show ?thesis by (simp add: brane_on_same_stores_def list_all_iff list_ex_iff)
  qed
  have inj: "card (?k ` set ?l) = length ?l"
  proof -
    have "distinct (map ?k ?l)" using assms by (auto simp: distinct_map inj_on_def)
    then show ?thesis using distinct_card [of "map ?k ?l"] by simp
  qed
  have same: "?k ` set ?l = ?k ` set ?r" if "length ?l = length ?r" "?k ` set ?l \<subseteq> ?k ` set ?r"
  proof (rule card_subset_eq [OF _ that(2)])
    have "card (?k ` set ?r) \<le> length ?r"
      using card_image_le [of "set ?r" ?k] card_length [of ?r] by simp
    then show "card (?k ` set ?l) = card (?k ` set ?r)"
      using card_mono [OF _ that(2)] that(1) inj by simp
  qed simp
  have "(P \<and> A \<subseteq> B) = (P \<and> A = B)" if "P \<Longrightarrow> A \<subseteq> B \<Longrightarrow> A = B" for P and A B :: "(u64 \<times> PeerRole) set"
    using that by blast
  from this [OF same] show ?thesis unfolding sub .
qed

abbreviation ids :: "(PeerRole \<Rightarrow> bool) \<Rightarrow> Peer list \<Rightarrow> u64 list" where
  "ids q ps \<equiv> map p_id (filter (\<lambda>p. q (p_role p)) ps)"

abbreviation joint_role :: "PeerRole \<Rightarrow> bool" where
  "joint_role r \<equiv> r = IncomingVoter \<or> r = DemotingVoter"

lemma conf_state_fold:
  "foldl conf_state_peer (s, j) ps =
    (s\<lparr>cs_voters := cs_voters s @ ids (\<lambda>r. r = Voter \<or> r = IncomingVoter) ps,
       cs_learners := cs_learners s @ ids (\<lambda>r. r = Learner) ps,
       cs_voters_outgoing := cs_voters_outgoing s @ ids (\<lambda>r. r = Voter \<or> r = DemotingVoter) ps,
       cs_learners_next := cs_learners_next s @ ids (\<lambda>r. r = DemotingVoter) ps\<rparr>,
     j \<or> list_ex (\<lambda>p. joint_role (p_role p)) ps)"
proof (induction ps arbitrary: s j)
  case (Cons p ps)
  then show ?case by (cases "p_role p") (auto simp: conf_state_peer_def)
qed simp

lemma epoch_map_checks:
  "ADMIN_CMD_EPOCH_MAP cmd = Some st \<Longrightarrow> (change_ver st \<longrightarrow> check_ver st) \<and> (change_conf_ver st \<longrightarrow> check_conf_ver st)"
  by (cases cmd) (auto simp: ADMIN_CMD_EPOCH_MAP_def AdminCmdEpochState_new_def)

lemma compare_brane_epoch_Ok:
  "compare_brane_epoch e b cc cv i = Ok () \<longleftrightarrow>
    (cc \<longrightarrow> ep_conf_ver e = ep_conf_ver (bn_epoch b)) \<and> (cv \<longrightarrow> ep_version e = ep_version (bn_epoch b))"
  by (auto simp: compare_brane_epoch_def Let_def)

section \<open>Properties\<close>





text \<open>
  One pass over the peers is enough: for a region with at most one replica per store, the check
  whether two regions are on the same stores holds exactly when both have the same number of peers and
  the same pairs of store and role, so it does not depend on the order of the arguments.
\<close>

theorem same_stores_exact:
  assumes "distinct (map p_store_id (bn_peers lhs))" "distinct (map p_store_id (bn_peers rhs))"
  shows "(brane_on_same_stores lhs rhs \<longleftrightarrow> length (bn_peers lhs) = length (bn_peers rhs) \<and>
      (\<lambda>p. (p_store_id p, p_role p)) ` set (bn_peers lhs) = (\<lambda>p. (p_store_id p, p_role p)) ` set (bn_peers rhs)) \<and>
    brane_on_same_stores lhs rhs = brane_on_same_stores rhs lhs"
  unfolding same_stores_sets [OF assms(1)] same_stores_sets [OF assms(2)] by metis

theorem same_stores_exact_witness:
  "let e = \<lparr> ep_conf_ver = 1, ep_version = 1 \<rparr>;
     a = \<lparr> bn_id = 1, bn_spacelike_key = [], bn_lightlike_key = [5], bn_epoch = e, bn_peers = [new_peer 1 2, new_learner_peer 2 3] \<rparr>;
     b = \<lparr> bn_id = 2, bn_spacelike_key = [5], bn_lightlike_key = [], bn_epoch = e, bn_peers = [new_learner_peer 2 7, new_peer 1 8] \<rparr>
   in distinct (map p_store_id (bn_peers a)) \<and> distinct (map p_store_id (bn_peers b)) \<and>
     brane_on_same_stores a b = brane_on_same_stores b a"
proof -
  have swap: "brane_on_same_stores a b = brane_on_same_stores b a"
    if "bn_peers a = [new_peer 1 2, new_learner_peer 2 3]" "bn_peers b = [new_learner_peer 2 7, new_peer 1 8]" for a b
    using same_stores_exact [of a b] that by (auto simp: new_peer_def new_learner_peer_def)
  show ?thesis
    unfolding Let_def by (intro conjI swap) (simp_all add: new_peer_def new_learner_peer_def)
qed

text \<open>
  The Raft configuration of a region: incoming voters are the voters and the peers becoming voters,
  the outgoing half of a joint configuration is the voters and the peers being demoted and is empty
  unless some peer is changing its role, and every peer is in the list of its role, in region order.
\<close>

theorem conf_state_from_brane_spec:
  "conf_state_from_brane brane =
    \<lparr> cs_voters = ids (\<lambda>r. r = Voter \<or> r = IncomingVoter) (bn_peers brane),
      cs_learners = ids (\<lambda>r. r = Learner) (bn_peers brane),
      cs_voters_outgoing = (if list_ex (\<lambda>p. joint_role (p_role p)) (bn_peers brane)
        then ids (\<lambda>r. r = Voter \<or> r = DemotingVoter) (bn_peers brane) else []),
      cs_learners_next = ids (\<lambda>r. r = DemotingVoter) (bn_peers brane) \<rparr>"
  by (simp add: conf_state_from_brane_def conf_state_fold Let_def)

end
