(* ===== verification/Keys.thy ===== *)
theory Keys
  imports Byte_Order Brane_Util Ordered_Map "HOL-Library.Sublist"
begin

text \<open>
  The key space of a store, \<open>sentry/einst_util/data_types/keys/src\<close>: \<open>lib.rs\<close> builds and parses the keys
  under which data, consensus logs and brane metadata are stored, and \<open>rewrite.rs\<close> replaces the
  prefix of keys and of the bounds of a cone of keys.
\<close>

section \<open>Constants\<close>

definition MIN_KEY :: bytes where [simp]: "MIN_KEY = []"
definition MAX_KEY :: bytes where [simp]: "MAX_KEY = [0xFF]"
definition EMPTY_KEY :: bytes where [simp]: "EMPTY_KEY = []"
definition LOCAL_PREFIX :: byte where [simp]: "LOCAL_PREFIX = 1"
definition LOCAL_MIN_KEY :: bytes where [simp]: "LOCAL_MIN_KEY = [LOCAL_PREFIX]"
definition LOCAL_MAX_KEY :: bytes where [simp]: "LOCAL_MAX_KEY = [LOCAL_PREFIX + 1]"
definition DATA_PREFIX :: byte where [simp]: "DATA_PREFIX = 122"
definition DATA_PREFIX_KEY :: bytes where [simp]: "DATA_PREFIX_KEY = [DATA_PREFIX]"
definition DATA_MIN_KEY :: bytes where [simp]: "DATA_MIN_KEY = [DATA_PREFIX]"
definition DATA_MAX_KEY :: bytes where [simp]: "DATA_MAX_KEY = [DATA_PREFIX + 1]"
definition STORE_IDENT_KEY :: bytes where [simp]: "STORE_IDENT_KEY = [LOCAL_PREFIX, 1]"
definition PREPARE_BOOTSTRAP_KEY :: bytes where [simp]: "PREPARE_BOOTSTRAP_KEY = [LOCAL_PREFIX, 2]"
definition REGION_VIOLETABFT_PREFIX :: byte where [simp]: "REGION_VIOLETABFT_PREFIX = 2"
definition REGION_VIOLETABFT_PREFIX_KEY :: bytes where
  [simp]: "REGION_VIOLETABFT_PREFIX_KEY = [LOCAL_PREFIX, REGION_VIOLETABFT_PREFIX]"
definition REGION_META_PREFIX :: byte where [simp]: "REGION_META_PREFIX = 3"
definition REGION_META_PREFIX_KEY :: bytes where [simp]: "REGION_META_PREFIX_KEY = [LOCAL_PREFIX, REGION_META_PREFIX]"
definition REGION_META_MIN_KEY :: bytes where [simp]: "REGION_META_MIN_KEY = [LOCAL_PREFIX, REGION_META_PREFIX]"
definition REGION_META_MAX_KEY :: bytes where [simp]: "REGION_META_MAX_KEY = [LOCAL_PREFIX, REGION_META_PREFIX + 1]"
definition VIOLETABFT_LOG_SUFFIX :: byte where [simp]: "VIOLETABFT_LOG_SUFFIX = 1"
definition VIOLETABFT_STATE_SUFFIX :: byte where [simp]: "VIOLETABFT_STATE_SUFFIX = 2"
definition APPLY_STATE_SUFFIX :: byte where [simp]: "APPLY_STATE_SUFFIX = 3"
definition SNAPSHOT_VIOLETABFT_STATE_SUFFIX :: byte where [simp]: "SNAPSHOT_VIOLETABFT_STATE_SUFFIX = 4"
definition REGION_STATE_SUFFIX :: byte where [simp]: "REGION_STATE_SUFFIX = 1"

datatype KeysError = InvalidVioletaBftLogKey bytes | InvalidBraneKeyLength string bytes | InvalidBranePrefix string bytes

section \<open>Keys of logs and metadata\<close>

definition make_brane_prefix :: "byteorder_api \<Rightarrow> u64 \<Rightarrow> byte \<Rightarrow> bytes" where
  "make_brane_prefix bo brane_id sfx = REGION_VIOLETABFT_PREFIX_KEY @ bo_be_write_u64 bo brane_id @ [sfx]"

definition make_brane_key :: "byteorder_api \<Rightarrow> u64 \<Rightarrow> byte \<Rightarrow> u64 \<Rightarrow> bytes" where
  "make_brane_key bo brane_id sfx sub_id =
    REGION_VIOLETABFT_PREFIX_KEY @ bo_be_write_u64 bo brane_id @ [sfx] @ bo_be_write_u64 bo sub_id"

definition brane_violetabft_prefix :: "byteorder_api \<Rightarrow> u64 \<Rightarrow> bytes" where
  "brane_violetabft_prefix bo brane_id = REGION_VIOLETABFT_PREFIX_KEY @ bo_be_write_u64 bo brane_id"

definition brane_violetabft_prefix_len :: nat where
  "brane_violetabft_prefix_len = length REGION_VIOLETABFT_PREFIX_KEY + 8 + 1"

definition violetabft_log_key :: "byteorder_api \<Rightarrow> u64 \<Rightarrow> u64 \<Rightarrow> bytes" where
  "violetabft_log_key bo brane_id log_index = make_brane_key bo brane_id VIOLETABFT_LOG_SUFFIX log_index"

definition violetabft_state_key :: "byteorder_api \<Rightarrow> u64 \<Rightarrow> bytes" where
  "violetabft_state_key bo brane_id = make_brane_prefix bo brane_id VIOLETABFT_STATE_SUFFIX"

definition snapshot_violetabft_state_key :: "byteorder_api \<Rightarrow> u64 \<Rightarrow> bytes" where
  "snapshot_violetabft_state_key bo brane_id = make_brane_prefix bo brane_id SNAPSHOT_VIOLETABFT_STATE_SUFFIX"

definition apply_state_key :: "byteorder_api \<Rightarrow> u64 \<Rightarrow> bytes" where
  "apply_state_key bo brane_id = make_brane_prefix bo brane_id APPLY_STATE_SUFFIX"

definition violetabft_log_index :: "byteorder_api \<Rightarrow> bytes \<Rightarrow> (KeysError, u64) result" where
  "violetabft_log_index bo key =
    (let expect_key_len = length REGION_VIOLETABFT_PREFIX_KEY + 8 + 1 + 8 in
     if length key \<noteq> expect_key_len then Err (InvalidVioletaBftLogKey key)
     else Ok (bo_be_read_u64 bo (drop (expect_key_len - 8) key)))"

definition decode_violetabft_log_key :: "byteorder_api \<Rightarrow> bytes \<Rightarrow> (KeysError, u64 \<times> u64) result" where
  "decode_violetabft_log_key bo key =
    (let suffix_idx = length REGION_VIOLETABFT_PREFIX_KEY + 8; expect_key_len = suffix_idx + 1 + 8 in
     if length key \<noteq> expect_key_len \<or> \<not> prefix REGION_VIOLETABFT_PREFIX_KEY key \<or> key ! suffix_idx \<noteq> VIOLETABFT_LOG_SUFFIX
     then Err (InvalidVioletaBftLogKey key)
     else let brane_id = bo_be_read_u64 bo (slice_of key (length REGION_VIOLETABFT_PREFIX_KEY) suffix_idx);
              index = bo_be_read_u64 bo (drop (suffix_idx + 1) key)
          in Ok (brane_id, index))"

definition violetabft_log_prefix :: "byteorder_api \<Rightarrow> u64 \<Rightarrow> bytes" where
  "violetabft_log_prefix bo brane_id = make_brane_prefix bo brane_id VIOLETABFT_LOG_SUFFIX"

definition decode_brane_key :: "byteorder_api \<Rightarrow> bytes \<Rightarrow> bytes \<Rightarrow> string \<Rightarrow> (KeysError, u64 \<times> byte) result" where
  "decode_brane_key bo pre key category =
    (if length pre + 8 + 1 \<noteq> length key then Err (InvalidBraneKeyLength category key)
     else if \<not> prefix pre key then Err (InvalidBranePrefix category key)
     else let brane_id = bo_be_read_u64 bo (slice_of key (length pre) (length pre + 8))
          in Ok (brane_id, key ! (length key - 1)))"

definition decode_brane_violetabft_key :: "byteorder_api \<Rightarrow> bytes \<Rightarrow> (KeysError, u64 \<times> byte) result" where
  "decode_brane_violetabft_key bo key = decode_brane_key bo REGION_VIOLETABFT_PREFIX_KEY key ''violetabft''"

definition make_brane_meta_key :: "byteorder_api \<Rightarrow> u64 \<Rightarrow> byte \<Rightarrow> bytes" where
  "make_brane_meta_key bo brane_id sfx = REGION_META_PREFIX_KEY @ bo_be_write_u64 bo brane_id @ [sfx]"

definition decode_brane_meta_key :: "byteorder_api \<Rightarrow> bytes \<Rightarrow> (KeysError, u64 \<times> byte) result" where
  "decode_brane_meta_key bo key = decode_brane_key bo REGION_META_PREFIX_KEY key ''meta''"

definition brane_meta_prefix :: "byteorder_api \<Rightarrow> u64 \<Rightarrow> bytes" where
  "brane_meta_prefix bo brane_id = REGION_META_PREFIX_KEY @ bo_be_write_u64 bo brane_id"

definition brane_state_key :: "byteorder_api \<Rightarrow> u64 \<Rightarrow> bytes" where
  "brane_state_key bo brane_id = make_brane_meta_key bo brane_id REGION_STATE_SUFFIX"

section \<open>Data keys\<close>

definition validate_data_key :: "bytes \<Rightarrow> bool" where
  "validate_data_key key \<longleftrightarrow> prefix DATA_PREFIX_KEY key"

definition data_key :: "bytes \<Rightarrow> bytes" where
  "data_key key = DATA_PREFIX_KEY @ key"

definition origin_key :: "bytes \<Rightarrow> (unit, bytes) result" where
  "origin_key key = (if validate_data_key key then Ok (drop (length DATA_PREFIX_KEY) key) else Panic)"

definition data_lightlike_key :: "bytes \<Rightarrow> bytes" where
  "data_lightlike_key brane_lightlike_key =
    (if brane_lightlike_key = [] then DATA_MAX_KEY else data_key brane_lightlike_key)"

definition enc_spacelike_key :: "Brane \<Rightarrow> (unit, bytes) result" where
  "enc_spacelike_key brane = (if bn_peers brane = [] then Panic else Ok (data_key (bn_spacelike_key brane)))"

definition enc_lightlike_key :: "Brane \<Rightarrow> (unit, bytes) result" where
  "enc_lightlike_key brane = (if bn_peers brane = [] then Panic else Ok (data_lightlike_key (bn_lightlike_key brane)))"

definition origin_lightlike_key :: "bytes \<Rightarrow> (unit, bytes) result" where
  "origin_lightlike_key key = (if key = DATA_MAX_KEY then Ok [] else origin_key key)"

text \<open>\<open>Iterator::rposition\<close> on a slice.\<close>

fun rposition :: "('a \<Rightarrow> bool) \<Rightarrow> 'a list \<Rightarrow> nat option" where
  "rposition p [] = None"
| "rposition p (x # xs) = (case rposition p xs of Some i \<Rightarrow> Some (Suc i) | None \<Rightarrow> if p x then Some 0 else None)"

definition next_key_no_alloc :: "bytes \<Rightarrow> (bytes \<times> byte) option" where
  "next_key_no_alloc key = (case rposition (\<lambda>b. b \<noteq> 0xff) key of
     Some pos \<Rightarrow> Some (take pos key, key ! pos + 1) | None \<Rightarrow> None)"

definition next_key :: "bytes \<Rightarrow> bytes" where
  "next_key key = (case next_key_no_alloc key of Some (s, e) \<Rightarrow> s @ [e] | None \<Rightarrow> [])"

section \<open>Rewriting prefixes (rewrite.rs)\<close>

datatype WrongPrefix = WrongPrefix

definition rewrite_prefix :: "bytes \<Rightarrow> bytes \<Rightarrow> bytes \<Rightarrow> (WrongPrefix, bytes) result" where
  "rewrite_prefix old_prefix new_prefix src =
    (if \<not> prefix old_prefix src then Err WrongPrefix else Ok (new_prefix @ drop (length old_prefix) src))"

definition split_last :: "'a list \<Rightarrow> ('a list \<times> 'a) option" where
  "split_last xs = (if xs = [] then None else Some (butlast xs, last xs))"

definition rewrite_prefix_of_lightlike_key :: "bytes \<Rightarrow> bytes \<Rightarrow> bytes \<Rightarrow> (WrongPrefix, bytes) result" where
  "rewrite_prefix_of_lightlike_key old_prefix new_prefix src = (case rewrite_prefix old_prefix new_prefix src of
     Ok dest \<Rightarrow> Ok dest
   | _ \<Rightarrow> if next_key_no_alloc old_prefix \<noteq> split_last src then Err WrongPrefix else Ok (next_key new_prefix))"

definition rewrite_prefix_of_spacelike_bound :: "bytes \<Rightarrow> bytes \<Rightarrow> bytes Bound \<Rightarrow> (WrongPrefix, bytes Bound) result" where
  "rewrite_prefix_of_spacelike_bound old_prefix new_prefix spacelike = (case spacelike of
     Unbounded \<Rightarrow> Ok (if old_prefix = [] then Included new_prefix else Unbounded)
   | Included s \<Rightarrow> result_map Included (rewrite_prefix old_prefix new_prefix s)
   | Excluded s \<Rightarrow> result_map Excluded (rewrite_prefix old_prefix new_prefix s))"

definition lightlike_key_to_bound :: "bytes \<Rightarrow> bytes Bound" where
  "lightlike_key_to_bound lightlike_key = (if lightlike_key = [] then Unbounded else Excluded lightlike_key)"

definition rewrite_prefix_of_lightlike_bound :: "bytes \<Rightarrow> bytes \<Rightarrow> bytes Bound \<Rightarrow> (WrongPrefix, bytes Bound) result" where
  "rewrite_prefix_of_lightlike_bound old_prefix new_prefix lightlike = (case lightlike of
     Unbounded \<Rightarrow> Ok (if old_prefix = [] then lightlike_key_to_bound (next_key new_prefix) else Unbounded)
   | Included e \<Rightarrow> result_map Included (rewrite_prefix old_prefix new_prefix e)
   | Excluded e \<Rightarrow> result_map lightlike_key_to_bound (rewrite_prefix_of_lightlike_key old_prefix new_prefix e))"

section \<open>Lemmas\<close>

lemma rposition_None_iff: "rposition p xs = None \<longleftrightarrow> (\<forall>x \<in> set xs. \<not> p x)"
  by (induction xs) (auto split: option.splits)

lemma rposition_SomeD: "rposition p xs = Some i \<Longrightarrow> i < length xs \<and> p (xs ! i) \<and> (\<forall>x \<in> set (drop (Suc i) xs). \<not> p x)"
proof (induction xs arbitrary: i)
  case (Cons x xs)
  then show ?case by (auto simp: rposition_None_iff split: option.splits if_splits)
qed simp

lemma next_key_no_alloc_Some:
  assumes "next_key_no_alloc key = Some (s, e)"
  obtains b n where "key = s @ b # replicate n 0xff" "b \<noteq> 0xff" "e = b + 1"
proof -
  obtain i where i: "rposition (\<lambda>b. b \<noteq> 0xff) key = Some i" "s = take i key" "e = key ! i + 1"
    using assms by (auto simp: next_key_no_alloc_def split: option.splits)
  have "drop (Suc i) key = replicate (length key - Suc i) 0xff"
    using rposition_SomeD [OF i(1)] by (intro replicate_eqI) auto
  then have "key = s @ key ! i # replicate (length key - Suc i) 0xff"
    using rposition_SomeD [OF i(1)] i(2) id_take_nth_drop [of i key] by simp
  then show ?thesis using that rposition_SomeD [OF i(1)] i(3) by blast
qed

lemma next_key_no_alloc_None: "next_key_no_alloc key = None \<longleftrightarrow> (\<forall>b \<in> set key. b = 0xff)"
  unfolding rposition_None_iff [of "\<lambda>b. b \<noteq> 0xff" key, simplified, symmetric]
  by (simp add: next_key_no_alloc_def split: option.splits)

lemma next_key_empty_iff: "next_key key = [] \<longleftrightarrow> (\<forall>b \<in> set key. b = 0xff)"
  unfolding next_key_no_alloc_None [symmetric] by (auto simp: next_key_def split: option.splits)

lemma byte_succ_less: "b \<noteq> 0xff \<Longrightarrow> c < b + 1 \<longleftrightarrow> c \<le> (b :: byte)"
  by unat_arith auto

lemma byte_top_le: "0xff \<le> (b :: byte) \<longleftrightarrow> b = 0xff"
  by unat_arith auto

lemma prefix_le: "prefix p k \<Longrightarrow> p \<le> (k :: bytes)"
  by (induction p arbitrary: k) (auto simp: prefix_def)

lemma top_prefix_iff: "\<forall>b \<in> set p. b = 0xff \<Longrightarrow> prefix p k \<longleftrightarrow> p \<le> (k :: bytes)"
proof (induction p arbitrary: k)
  case (Cons b p)
  then show ?case by (cases k) (auto simp: byte_top_le less_le)
qed simp

lemma between_prefix: "s @ xs \<le> k \<Longrightarrow> k < s @ ys \<Longrightarrow> prefix s (k :: bytes)"
proof (induction s arbitrary: k)
  case (Cons b s)
  then show ?case by (cases k) auto
qed simp

lemma lex_le_append_same: "s @ xs \<le> s @ ys \<longleftrightarrow> xs \<le> (ys :: bytes)"
  by (induction s) auto

lemma prefix_cone: "prefix p k \<longleftrightarrow> p \<le> k \<and> (next_key p = [] \<or> k < next_key p)"
proof (cases "next_key_no_alloc p")
  case None
  then show ?thesis
    by (simp add: next_key_empty_iff next_key_no_alloc_None top_prefix_iff)
next
  case (Some se)
  obtain s e where se: "next_key_no_alloc p = Some (s, e)" using Some by (cases se) auto
  obtain b n where p: "p = s @ b # replicate n 0xff" "b \<noteq> 0xff" "e = b + 1"
    using next_key_no_alloc_Some [OF se] by blast
  have next_key: "next_key p = s @ [b + 1]" by (simp add: next_key_def se p(3))
  have tail: "prefix (b # replicate n 0xff) t \<longleftrightarrow> b # replicate n 0xff \<le> t \<and> t < [b + 1]" for t
  proof (cases t)
    case (Cons c u)
    then show ?thesis using p(2) top_prefix_iff [of "replicate n 0xff" u] by (auto simp: byte_succ_less)
  qed simp
  show ?thesis
  proof (cases "prefix s k")
    case True
    then obtain t where "k = s @ t" by (auto simp: prefix_def)
    then show ?thesis using tail [of t] next_key unfolding p(1) by (simp add: lex_append_same lex_le_append_same)
  next
    case False
    then have "\<not> prefix p k" unfolding p(1) by (auto simp: prefix_def)
    moreover have "\<not> (p \<le> k \<and> k < next_key p)" unfolding next_key using False between_prefix p(1) by blast
    ultimately show ?thesis unfolding next_key by auto
  qed
qed

lemma brane_key_split:
  fixes key :: bytes
  assumes "length key = length pre + 8 + 1 + m" "prefix pre key"
  shows "key = pre @ slice_of key (length pre) (length pre + 8) @ [key ! (length pre + 8)] @ drop (length pre + 9) key"
proof -
  obtain t where t: "key = pre @ t" using assms(2) by (auto simp: prefix_def)
  then have "length t = 9 + m" using assms(1) by simp
  then have "t = take 8 t @ [t ! 8] @ drop 9 t"
    using id_take_nth_drop [of 8 t] by simp
  then show ?thesis by (simp add: t slice_of_def nth_append)
qed

context byteorder
begin

lemma decode_log_key_iff: "decode_violetabft_log_key bo key = Ok (i, n) \<longleftrightarrow> key = violetabft_log_key bo i n"
proof
  assume "decode_violetabft_log_key bo key = Ok (i, n)"
  then have len: "length key = 19" and pre: "prefix [1, 2] key" and k10: "key ! 10 = 1"
    and i: "i = bo_be_read_u64 bo (slice_of key 2 10)" and n: "n = bo_be_read_u64 bo (drop 11 key)"
    by (auto simp: decode_violetabft_log_key_def numeral_2_eq_2 split: if_splits)
  have "bo_be_write_u64 bo i = slice_of key 2 10" "bo_be_write_u64 bo n = drop 11 key"
    unfolding i n using len by (simp_all add: be64.wr_rd)
  then show "key = violetabft_log_key bo i n"
    using brane_key_split [of key "[1, 2]" 8] len pre k10
    by (simp add: violetabft_log_key_def make_brane_key_def numeral_2_eq_2)
next
  assume "key = violetabft_log_key bo i n"
  then show "decode_violetabft_log_key bo key = Ok (i, n)"
    by (simp add: decode_violetabft_log_key_def violetabft_log_key_def make_brane_key_def slice_of_def nth_append numeral_2_eq_2)
qed

lemma decode_brane_key_iff:
  "decode_brane_key bo pre key cat = Ok (i, b) \<longleftrightarrow> key = pre @ bo_be_write_u64 bo i @ [b]"
proof
  assume "decode_brane_key bo pre key cat = Ok (i, b)"
  then have len: "length key = length pre + 9" and pre: "prefix pre key" and b: "b = key ! (length key - 1)"
    and i: "i = bo_be_read_u64 bo (slice_of key (length pre) (length pre + 8))"
    by (auto simp: decode_brane_key_def add.commute split: if_splits)
  have "bo_be_write_u64 bo i = slice_of key (length pre) (length pre + 8)" unfolding i using len by (simp add: be64.wr_rd)
  then show "key = pre @ bo_be_write_u64 bo i @ [b]" using brane_key_split [of key pre 0] len pre b
    by (simp add: len add.commute)
qed (simp add: decode_brane_key_def slice_of_def nth_append)

lemma log_key_less_iff:
  "violetabft_log_key bo i n < violetabft_log_key bo j m \<longleftrightarrow> i < j \<or> (i = j \<and> n < m)"
  by (simp add: violetabft_log_key_def make_brane_key_def be64.wr_append_less_iff be64.wr_less_iff)

lemma log_index: "violetabft_log_index bo (violetabft_log_key bo i n) = Ok n"
  by (simp add: violetabft_log_index_def violetabft_log_key_def make_brane_key_def)

end

lemma rewrite_prefix_Ok: "rewrite_prefix old new src = Ok dest \<longleftrightarrow> (\<exists>t. src = old @ t \<and> dest = new @ t)"
  by (auto simp: rewrite_prefix_def prefix_def split: if_splits)

lemma rewrite_spacelike_bound_exact:
  assumes "rewrite_prefix_of_spacelike_bound old new lo = Ok lo'"
  shows "above lo' (new @ t) \<longleftrightarrow> above lo (old @ t)"
  using assms by (cases lo) (auto simp: rewrite_prefix_of_spacelike_bound_def result_map_Ok_iff rewrite_prefix_Ok
      lex_append_same lex_le_append_same prefix_le split: if_splits)

lemma below_lightlike_key: "below (lightlike_key_to_bound (next_key p)) (p @ t)"
  using prefix_cone [of p "p @ t"] by (auto simp: lightlike_key_to_bound_def)

lemma split_last_Some: "split_last xs = Some (s, e) \<longleftrightarrow> xs = s @ [e]"
  by (auto simp: split_last_def)

lemma rewrite_lightlike_key_exact:
  assumes "rewrite_prefix_of_lightlike_key old new e = Ok e'" "e \<noteq> []" "e = old \<Longrightarrow> new \<noteq> []"
  shows "below (lightlike_key_to_bound e') (new @ t) \<longleftrightarrow> old @ t < e"
proof (cases "rewrite_prefix old new e")
  case (Ok d)
  then have "e' = d" using assms(1) by (simp add: rewrite_prefix_of_lightlike_key_def)
  then obtain u where u: "e = old @ u" "e' = new @ u" using Ok by (auto simp: rewrite_prefix_Ok)
  then have "e' \<noteq> []" using assms(3) by auto
  then show ?thesis by (simp add: u lightlike_key_to_bound_def lex_append_same)
next
  case (Err w)
  then have e: "next_key_no_alloc old = split_last e" "e' = next_key new"
    using assms(1) by (auto simp: rewrite_prefix_of_lightlike_key_def split: if_splits)
  then have "next_key old = e" using assms(2) by (auto simp: next_key_def split_last_def)
  then have "old @ t < e" using prefix_cone [of old "old @ t"] assms(2) by auto
  then show ?thesis using below_lightlike_key [of new t] e(2) by simp
qed (auto simp: rewrite_prefix_def split: if_splits)

section \<open>Properties\<close>

text \<open>
  (C27) Data keys keep the cone of a brane: a key belongs to the brane exactly if its data key lies
  between the data keys of the brane's bounds (where an empty end key means no bound), data keys
  compare as the keys do, lie in the data space of the store and are read back exactly.
\<close>

theorem data_keys_keep_cones:
  "(in_brane k b \<longleftrightarrow> data_key (bn_spacelike_key b) \<le> data_key k \<and> data_key k < data_lightlike_key (bn_lightlike_key b)) \<and>
   (data_key k < data_key l \<longleftrightarrow> k < l) \<and> DATA_MIN_KEY \<le> data_key k \<and> data_key k < DATA_MAX_KEY \<and>
   origin_key (data_key k) = Ok k \<and> origin_lightlike_key (data_lightlike_key k) = Ok k"
  by (auto simp: in_brane_iff data_key_def data_lightlike_key_def origin_key_def origin_lightlike_key_def
      validate_data_key_def)

text \<open>
  (C26) The keys of the consensus log parse back exactly: \<open>decode_violetabft_log_key\<close> accepts the keys
  \<open>violetabft_log_key\<close> builds and nothing else, log keys are ordered by brane and then by index, and
  the decoders of state and metadata keys accept exactly the keys of their kind.
\<close>

theorem log_keys_exact:
  assumes "byteorder bo"
  shows "(decode_violetabft_log_key bo key = Ok (i, n) \<longleftrightarrow> key = violetabft_log_key bo i n) \<and>
    (violetabft_log_key bo i n < violetabft_log_key bo j m \<longleftrightarrow> i < j \<or> (i = j \<and> n < m)) \<and>
    violetabft_log_index bo (violetabft_log_key bo i n) = Ok n \<and>
    (decode_brane_violetabft_key bo key = Ok (i, s) \<longleftrightarrow> key = make_brane_prefix bo i s) \<and>
    (decode_brane_meta_key bo key = Ok (i, s) \<longleftrightarrow> key = make_brane_meta_key bo i s)"
  using byteorder.decode_log_key_iff [OF assms] byteorder.log_key_less_iff [OF assms] byteorder.log_index [OF assms]
    byteorder.decode_brane_key_iff [OF assms, of REGION_VIOLETABFT_PREFIX_KEY]
    byteorder.decode_brane_key_iff [OF assms, of REGION_META_PREFIX_KEY]
  by (simp add: decode_brane_violetabft_key_def decode_brane_meta_key_def make_brane_prefix_def make_brane_meta_key_def)

theorem log_keys_exact_witness:
  "decode_violetabft_log_key std_byteorder [1, 2, 0, 0, 0, 0, 0, 0, 0, 7, 1, 0, 0, 0, 0, 0, 0, 1, 0] = Ok (7, 256)"
proof -
  have "[1, 2, 0, 0, 0, 0, 0, 0, 0, 7, 1, 0, 0, 0, 0, 0, 0, 1, 0] = violetabft_log_key std_byteorder 7 256" by code_simp
  then show ?thesis using log_keys_exact [OF byteorder_std] by blast
qed

text \<open>
  \<open>next_key\<close> bounds a prefix: the keys with the given prefix are exactly the keys from the
  prefix on and below its next key, or all keys from the prefix on if there is no next key.
\<close>

theorem next_key_bounds_prefix:
  "prefix p k \<longleftrightarrow> p \<le> k \<and> (next_key p = [] \<or> k < next_key p)"
  by (rule prefix_cone)

text \<open>
  (C25) Rewriting the prefix of a cone of keys moves the keys along: for every key with the old
  prefix, the key with the new prefix lies in the rewritten cone exactly if the key lies in the
  cone. The end bound must not be the empty key, nor be the old prefix itself when the new prefix is empty.
\<close>

theorem rewrite_bounds_exact:
  assumes "rewrite_prefix_of_spacelike_bound old new lo = Ok lo'" "rewrite_prefix_of_lightlike_bound old new hi = Ok hi'"
    and "hi \<noteq> Excluded []" "hi = Excluded old \<longrightarrow> new \<noteq> []"
  shows "above lo' (new @ t) \<and> below hi' (new @ t) \<longleftrightarrow> above lo (old @ t) \<and> below hi (old @ t)"
proof -
  have "below hi' (new @ t) \<longleftrightarrow> below hi (old @ t)"
  proof (cases hi)
    case (Included e)
    then show ?thesis using assms(2)
      by (auto simp: rewrite_prefix_of_lightlike_bound_def result_map_Ok_iff rewrite_prefix_Ok lex_le_append_same)
  next
    case (Excluded e)
    then show ?thesis using assms(2-4) rewrite_lightlike_key_exact [of old new e _ t]
      by (auto simp: rewrite_prefix_of_lightlike_bound_def result_map_Ok_iff)
  next
    case Unbounded
    then show ?thesis using assms(2) below_lightlike_key [of new t]
      by (auto simp: rewrite_prefix_of_lightlike_bound_def split: if_splits)
  qed
  then show ?thesis using rewrite_spacelike_bound_exact [OF assms(1)] by simp
qed

theorem rewrite_bounds_exact_witness:
  "rewrite_prefix_of_lightlike_bound [116, 1] [116, 9, 0xff] (Excluded [116, 2]) = Ok (Excluded [116, 10]) \<and>
   (above (Included [116, 9, 0xff, 3]) ([116, 9, 0xff] @ [4] :: bytes) \<and> below (Excluded [116, 10]) ([116, 9, 0xff] @ [4] :: bytes) \<longleftrightarrow>
    above (Included [116, 1, 3]) ([116, 1] @ [4] :: bytes) \<and> below (Excluded [116, 2]) ([116, 1] @ [4] :: bytes))"
proof -
  have 1: "rewrite_prefix_of_lightlike_bound [116, 1] [116, 9, 0xff] (Excluded [116, 2]) = Ok (Excluded [116, 10])"
    "rewrite_prefix_of_spacelike_bound [116, 1] [116, 9, 0xff] (Included [116, 1, 3]) = Ok (Included [116, 9, 0xff, 3])"
    by code_simp+
  show ?thesis using rewrite_bounds_exact [OF 1(2) 1(1), of "[4]"] 1(1) by simp
qed

end
