(* ===== verification/Brane_Collector.thy ===== *)
theory Brane_Collector
  imports Keys Ordered_Map
begin

text \<open>
  The collection of brane information, \<open>violetabftstore/src/interlock/region_info_accessor.rs\<close>: the
  events a store sends, the collector that keeps the branes by id and by end key, and the queries.
  The worker thread and its channel are not modelled: the collector handles one message after the
  other, which is what the worker does.
\<close>

section \<open>Events and state\<close>

datatype StateRole = Follower | Candidate | Leader | PreCandidate

datatype VioletaBftStoreEvent =
    CreateBrane Brane StateRole
  | fidelioBrane Brane StateRole
  | DestroyBrane Brane
  | RoleChange Brane StateRole

fun get_brane :: "VioletaBftStoreEvent \<Rightarrow> Brane" where
  "get_brane (CreateBrane brane _) = brane"
| "get_brane (fidelioBrane brane _) = brane"
| "get_brane (DestroyBrane brane) = brane"
| "get_brane (RoleChange brane _) = brane"

datatype BraneChangeEvent = BCE_Create | BCE_fidelio | BCE_Destroy

text \<open>What the listener sends to the collector.\<close>

fun on_brane_changed :: "Brane \<Rightarrow> BraneChangeEvent \<Rightarrow> StateRole \<Rightarrow> VioletaBftStoreEvent" where
  "on_brane_changed brane BCE_Create role = CreateBrane brane role"
| "on_brane_changed brane BCE_fidelio role = fidelioBrane brane role"
| "on_brane_changed brane BCE_Destroy role = DestroyBrane brane"

definition on_role_change :: "Brane \<Rightarrow> StateRole \<Rightarrow> VioletaBftStoreEvent" where
  "on_role_change brane role = RoleChange brane role"

record BraneInfo =
  bi_brane :: Brane
  bi_role :: StateRole

definition BraneInfo_new :: "Brane \<Rightarrow> StateRole \<Rightarrow> BraneInfo" where
  "BraneInfo_new brane role = \<lparr> bi_brane = brane, bi_role = role \<rparr>"

record BraneCollector =
  bc_branes :: "u64 \<rightharpoonup> BraneInfo"
  bc_cones :: "(bytes, u64) btree"

definition BraneCollector_new :: BraneCollector where
  "BraneCollector_new = \<lparr> bc_branes = Map.empty, bc_cones = [] \<rparr>"

section \<open>Handlers\<close>

definition create_brane :: "BraneCollector \<Rightarrow> Brane \<Rightarrow> StateRole \<Rightarrow> (unit, BraneCollector) result" where
  "create_brane self brane role =
    (let lightlike_key = data_lightlike_key (bn_lightlike_key brane);
         brane_id = bn_id brane;
         cones = bt_insert lightlike_key brane_id (bc_cones self) in
     if bc_branes self brane_id \<noteq> None then Panic
     else Ok (self\<lparr>bc_branes := (bc_branes self)(brane_id \<mapsto> BraneInfo_new brane role), bc_cones := cones\<rparr>))"

definition fidelio_brane :: "BraneCollector \<Rightarrow> Brane \<Rightarrow> (unit, BraneCollector) result" where
  "fidelio_brane self brane = (case bc_branes self (bn_id brane) of
     None \<Rightarrow> Panic
   | Some existing_brane_info \<Rightarrow>
       let old_brane = bi_brane existing_brane_info;
           branes = (bc_branes self)(bn_id brane \<mapsto> existing_brane_info\<lparr>bi_brane := brane\<rparr>) in
       if bn_id old_brane \<noteq> bn_id brane then Panic
       else if bn_lightlike_key old_brane \<noteq> bn_lightlike_key brane then
         let old_lightlike_key = data_lightlike_key (bn_lightlike_key old_brane) in
         (case bt_get (bc_cones self) old_lightlike_key of
            None \<Rightarrow> Panic
          | Some old_id \<Rightarrow>
              if old_id \<noteq> bn_id brane then Panic
              else let cones = bt_remove old_lightlike_key (bc_cones self);
                       lightlike_key = data_lightlike_key (bn_lightlike_key brane) in
                   if bt_get cones lightlike_key \<noteq> None then Panic
                   else Ok (self\<lparr>bc_branes := branes, bc_cones := bt_insert lightlike_key (bn_id brane) cones\<rparr>))
       else Ok (self\<lparr>bc_branes := branes\<rparr>))"

definition handle_create_brane :: "BraneCollector \<Rightarrow> Brane \<Rightarrow> StateRole \<Rightarrow> (unit, BraneCollector) result" where
  "handle_create_brane self brane role =
    (if bc_branes self (bn_id brane) \<noteq> None then fidelio_brane self brane else create_brane self brane role)"

definition handle_fidelio_brane :: "BraneCollector \<Rightarrow> Brane \<Rightarrow> StateRole \<Rightarrow> (unit, BraneCollector) result" where
  "handle_fidelio_brane self brane role =
    (if bc_branes self (bn_id brane) \<noteq> None then fidelio_brane self brane else create_brane self brane role)"

definition handle_destroy_brane :: "BraneCollector \<Rightarrow> Brane \<Rightarrow> (unit, BraneCollector) result" where
  "handle_destroy_brane self brane = (case bc_branes self (bn_id brane) of
     Some removed_brane_info \<Rightarrow>
       let removed_brane = bi_brane removed_brane_info;
           lightlike_key = data_lightlike_key (bn_lightlike_key removed_brane) in
       if bn_id removed_brane \<noteq> bn_id brane then Panic
       else (case bt_get (bc_cones self) lightlike_key of
          None \<Rightarrow> Panic
        | Some removed_id \<Rightarrow>
            if removed_id \<noteq> bn_id brane then Panic
            else Ok (self\<lparr>bc_branes := (bc_branes self)(bn_id brane := None),
                         bc_cones := bt_remove lightlike_key (bc_cones self)\<rparr>))
   | None \<Rightarrow> Ok self)"

definition handle_role_change :: "BraneCollector \<Rightarrow> Brane \<Rightarrow> StateRole \<Rightarrow> (unit, BraneCollector) result" where
  "handle_role_change self brane new_role = (case bc_branes self (bn_id brane) of
     Some r \<Rightarrow> Ok (self\<lparr>bc_branes := (bc_branes self)(bn_id brane \<mapsto> r\<lparr>bi_role := new_role\<rparr>)\<rparr>)
   | None \<Rightarrow> create_brane self brane new_role)"

definition is_brane_epoch_stale :: "Brane \<Rightarrow> Brane \<Rightarrow> bool" where
  "is_brane_epoch_stale brane_to_check current =
    (let epoch = bn_epoch brane_to_check; current_epoch = bn_epoch current in
     ep_version epoch < ep_version current_epoch \<or>
     (ep_version epoch = ep_version current_epoch \<and> ep_conf_ver epoch < ep_conf_ver current_epoch))"

text \<open>
  The loop over the entries beyond the start key. \<open>Ok None\<close> is the early return of false; otherwise
  the result is the list of outdated branes.
\<close>

fun check_cone_loop ::
  "BraneCollector \<Rightarrow> Brane \<Rightarrow> bool \<Rightarrow> (bytes \<times> u64) list \<Rightarrow> (bytes \<times> u64) list \<Rightarrow> (unit, (bytes \<times> u64) list option) result" where
  "check_cone_loop self brane clear [] stale = Ok (Some stale)"
| "check_cone_loop self brane clear ((key, i) # es) stale =
    (if i = bn_id brane then check_cone_loop self brane clear es stale
     else case bc_branes self i of
       None \<Rightarrow> Panic
     | Some info \<Rightarrow>
         let current_brane = bi_brane info in
         if bn_lightlike_key brane \<noteq> [] \<and> bn_spacelike_key current_brane \<ge> bn_lightlike_key brane then Ok (Some stale)
         else if is_brane_epoch_stale brane current_brane then Ok None
         else if ep_version (bn_epoch brane) = ep_version (bn_epoch current_brane) then Panic
         else check_cone_loop self brane clear es (if clear then stale @ [(key, i)] else stale))"

fun remove_stale :: "BraneCollector \<Rightarrow> (bytes \<times> u64) list \<Rightarrow> (unit, BraneCollector) result" where
  "remove_stale self [] = Ok self"
| "remove_stale self ((key, i) # es) =
    (if bc_branes self i = None then Panic
     else if bt_get (bc_cones self) key = None then Panic
     else remove_stale (self\<lparr>bc_branes := (bc_branes self)(i := None), bc_cones := bt_remove key (bc_cones self)\<rparr>) es)"

definition check_brane_cone :: "BraneCollector \<Rightarrow> Brane \<Rightarrow> bool \<Rightarrow> (unit, BraneCollector \<times> bool) result" where
  "check_brane_cone self brane clear_branes_in_cone =
    (if (case bc_branes self (bn_id brane) of
           Some brane_with_same_id \<Rightarrow> is_brane_epoch_stale brane (bi_brane brane_with_same_id) | None \<Rightarrow> False)
     then Ok (self, False)
     else bind_result (check_cone_loop self brane clear_branes_in_cone
         (filter (\<lambda>(k, _). data_key (bn_spacelike_key brane) < k) (bc_cones self)) [])
       (\<lambda>stale. case stale of None \<Rightarrow> Ok (self, False)
          | Some stale_branes_in_cone \<Rightarrow> result_map (\<lambda>self. (self, True)) (remove_stale self stale_branes_in_cone)))"

fun seek_loop :: "BraneCollector \<Rightarrow> (bytes \<times> u64) list \<Rightarrow> (unit, BraneInfo list) result" where
  "seek_loop self [] = Ok []"
| "seek_loop self ((_, i) # es) = (case bc_branes self i of
     None \<Rightarrow> Panic | Some info \<Rightarrow> result_map ((#) info) (seek_loop self es))"

text \<open>The items the callback of \<open>seek_brane\<close> can draw from the iterator.\<close>

definition handle_seek_brane :: "BraneCollector \<Rightarrow> bytes \<Rightarrow> (unit, BraneInfo list) result" where
  "handle_seek_brane self from_key =
    (let from_key = data_key from_key in seek_loop self (filter (\<lambda>(k, _). from_key < k) (bc_cones self)))"

definition handle_find_brane_by_id :: "BraneCollector \<Rightarrow> u64 \<Rightarrow> BraneInfo option" where
  "handle_find_brane_by_id self brane_id = bc_branes self brane_id"

definition dispatch_event :: "BraneCollector \<Rightarrow> VioletaBftStoreEvent \<Rightarrow> (unit, BraneCollector) result" where
  "dispatch_event self event = (case event of
     CreateBrane brane role \<Rightarrow> handle_create_brane self brane role
   | fidelioBrane brane role \<Rightarrow> handle_fidelio_brane self brane role
   | DestroyBrane brane \<Rightarrow> handle_destroy_brane self brane
   | RoleChange brane role \<Rightarrow> handle_role_change self brane role)"

definition handle_violetabftstore_event :: "BraneCollector \<Rightarrow> VioletaBftStoreEvent \<Rightarrow> (unit, BraneCollector) result" where
  "handle_violetabftstore_event self event =
    (let brane = get_brane event in
     if ep_version (bn_epoch brane) = 0 then Ok self
     else bind_result (check_brane_cone self brane True) (\<lambda>(self, fresh).
       if \<not> fresh then Ok self else dispatch_event self event))"

fun handle_events :: "BraneCollector \<Rightarrow> VioletaBftStoreEvent list \<Rightarrow> (unit, BraneCollector) result" where
  "handle_events self [] = Ok self"
| "handle_events self (e # es) = bind_result (handle_violetabftstore_event self e) (\<lambda>self. handle_events self es)"

section \<open>The invariant\<close>

abbreviation start_of :: "Brane \<Rightarrow> bytes" where "start_of b \<equiv> data_key (bn_spacelike_key b)"
abbreviation end_of :: "Brane \<Rightarrow> bytes" where "end_of b \<equiv> data_lightlike_key (bn_lightlike_key b)"

text \<open>Branes whose cones share a key.\<close>

definition overlap :: "Brane \<Rightarrow> Brane \<Rightarrow> bool" where
  "overlap a b \<longleftrightarrow> start_of a < end_of b \<and> start_of b < end_of a"

definition held :: "BraneCollector \<Rightarrow> Brane \<Rightarrow> bool" where
  "held self b \<longleftrightarrow> (\<exists>info. bc_branes self (bn_id b) = Some info \<and> bi_brane info = b)"

definition collector_ok :: "BraneCollector \<Rightarrow> bool" where
  "collector_ok self \<longleftrightarrow> bt_sorted (bc_cones self) \<and>
    (\<forall>i info. bc_branes self i = Some info \<longrightarrow> bn_id (bi_brane info) = i \<and> brane_cone_ok (bi_brane info)) \<and>
    (\<forall>k i. bt_get (bc_cones self) k = Some i \<longleftrightarrow> (\<exists>info. bc_branes self i = Some info \<and> k = end_of (bi_brane info))) \<and>
    (\<forall>a b. held self a \<longrightarrow> held self b \<longrightarrow> overlap a b \<longrightarrow> a = b)"

lemma end_le_start_iff: "end_of a \<le> start_of b \<longleftrightarrow> bn_lightlike_key a \<noteq> [] \<and> bn_lightlike_key a \<le> bn_spacelike_key b"
  by (auto simp: data_key_def data_lightlike_key_def)

lemma start_less_end: "brane_cone_ok b \<Longrightarrow> start_of b < end_of b"
  by (auto simp: brane_cone_ok_def data_key_def data_lightlike_key_def)

lemma overlap_commute: "overlap a b \<longleftrightarrow> overlap b a"
  by (auto simp: overlap_def)

lemma overlap_same_end: "brane_cone_ok a \<Longrightarrow> brane_cone_ok b \<Longrightarrow> end_of a = end_of b \<Longrightarrow> overlap a b"
  using start_less_end [of a] start_less_end [of b] by (simp add: overlap_def)

lemma overlap_key: "in_brane k a \<Longrightarrow> in_brane k b \<Longrightarrow> overlap a b"
proof -
  assume "in_brane k a" "in_brane k b"
  then have "start_of a \<le> data_key k" "data_key k < end_of a" "start_of b \<le> data_key k" "data_key k < end_of b"
    by (auto simp: in_brane_iff data_key_def data_lightlike_key_def)
  then show "overlap a b" unfolding overlap_def by (meson le_less_trans)
qed

lemma heldI: "bc_branes self i = Some info \<Longrightarrow> bn_id (bi_brane info) = i \<Longrightarrow> held self (bi_brane info)"
  by (auto simp: held_def)

lemma ok_sorted: "collector_ok self \<Longrightarrow> bt_sorted (bc_cones self)"
  by (simp add: collector_ok_def)

lemma ok_info: "collector_ok self \<Longrightarrow> bc_branes self i = Some info \<Longrightarrow> bn_id (bi_brane info) = i \<and> brane_cone_ok (bi_brane info)"
  by (simp add: collector_ok_def)

lemma ok_cones:
  "collector_ok self \<Longrightarrow> bt_get (bc_cones self) k = Some i \<longleftrightarrow> (\<exists>info. bc_branes self i = Some info \<and> k = end_of (bi_brane info))"
  by (simp add: collector_ok_def)

lemma ok_apart: "collector_ok self \<Longrightarrow> held self a \<Longrightarrow> held self b \<Longrightarrow> overlap a b \<Longrightarrow> a = b"
  unfolding collector_ok_def by blast

lemma ok_info_apart:
  assumes "collector_ok self" "bc_branes self i = Some x" "bc_branes self j = Some y" "overlap (bi_brane x) (bi_brane y)"
  shows "i = j"
  using ok_apart [OF assms(1) heldI heldI assms(4)] assms ok_info by metis

text \<open>Branes with larger end keys start beyond the smaller end keys.\<close>

lemma ok_ordered:
  assumes ok: "collector_ok self"
    and "bc_branes self i = Some x" "bc_branes self j = Some y" "end_of (bi_brane x) < end_of (bi_brane y)"
  shows "end_of (bi_brane x) \<le> start_of (bi_brane y)"
proof (rule ccontr)
  assume "\<not> end_of (bi_brane x) \<le> start_of (bi_brane y)"
  moreover have "start_of (bi_brane x) < end_of (bi_brane x)" using start_less_end ok_info [OF assms(1,2)] by blast
  ultimately have "overlap (bi_brane x) (bi_brane y)" unfolding overlap_def using assms(4) by (meson less_trans not_le)
  then show False using ok_info_apart [OF assms(1-3)] assms by simp
qed

lemma collector_ok_put:
  assumes ok: "collector_ok self" and b: "bn_id (bi_brane info) = i" "brane_cone_ok (bi_brane info)"
    and apart: "\<And>c. held self c \<Longrightarrow> bn_id c \<noteq> i \<Longrightarrow> \<not> overlap c (bi_brane info)"
    and sorted: "bt_sorted cones"
    and get: "\<And>k. bt_get cones k = (if k = end_of (bi_brane info) then Some i
      else if bt_get (bc_cones self) k = Some i then None else bt_get (bc_cones self) k)"
  shows "collector_ok (self\<lparr>bc_branes := (bc_branes self)(i \<mapsto> info), bc_cones := cones\<rparr>)"
proof -
  let ?new = "self\<lparr>bc_branes := (bc_branes self)(i \<mapsto> info), bc_cones := cones\<rparr>"
  have other_end: "end_of (bi_brane x) \<noteq> end_of (bi_brane info)" if "bc_branes self j = Some x" "j \<noteq> i" for j x
    using that ok_info [OF ok that(1)] apart [OF heldI] overlap_same_end b by metis
  have "bt_get cones k = Some j \<longleftrightarrow> (\<exists>x. bc_branes ?new j = Some x \<and> k = end_of (bi_brane x))" for k j
  proof (cases "j = i")
    case True
    then show ?thesis by (auto simp: get)
  next
    case False
    then have "bt_get cones k = Some j \<longleftrightarrow> k \<noteq> end_of (bi_brane info) \<and> bt_get (bc_cones self) k = Some j"
      by (auto simp: get)
    then show ?thesis using False other_end [of j] by (auto simp: ok_cones [OF ok])
  qed
  moreover have "x = y" if "held ?new x" "held ?new y" "overlap x y" for x y
  proof -
    have h: "held ?new c \<longleftrightarrow> (if bn_id c = i then c = bi_brane info else held self c)" for c
      using b by (auto simp: held_def)
    show ?thesis using that b apart ok_apart [OF ok] unfolding h by (metis overlap_commute)
  qed
  moreover have "bn_id (bi_brane x) = j \<and> brane_cone_ok (bi_brane x)" if "bc_branes ?new j = Some x" for j x
    using that b ok_info [OF ok] by (cases "j = i") auto
  ultimately show ?thesis unfolding collector_ok_def using sorted by simp
qed

lemma collector_ok_del:
  assumes ok: "collector_ok self" and sorted: "bt_sorted cones"
    and get: "\<And>k. bt_get cones k = (if bt_get (bc_cones self) k = Some i then None else bt_get (bc_cones self) k)"
  shows "collector_ok (self\<lparr>bc_branes := (bc_branes self)(i := None), bc_cones := cones\<rparr>)"
proof -
  let ?new = "self\<lparr>bc_branes := (bc_branes self)(i := None), bc_cones := cones\<rparr>"
  have "held ?new c \<Longrightarrow> held self c" for c by (auto simp: held_def split: if_splits)
  moreover have "bt_get cones k = Some j \<longleftrightarrow> (\<exists>x. bc_branes ?new j = Some x \<and> k = end_of (bi_brane x))" for k j
  proof -
    have "bt_get cones k = Some j \<longleftrightarrow> j \<noteq> i \<and> bt_get (bc_cones self) k = Some j" by (auto simp: get)
    then show ?thesis using ok_cones [OF ok] by auto
  qed
  ultimately show ?thesis unfolding collector_ok_def using sorted ok_info [OF ok] ok_apart [OF ok] by (auto split: if_splits)
qed

section \<open>Checking an event against the branes it overlaps\<close>

abbreviation rival :: "BraneCollector \<Rightarrow> Brane \<Rightarrow> bytes \<times> u64 \<Rightarrow> bool" where
  "rival self b e \<equiv> snd e \<noteq> bn_id b \<and> overlap (bi_brane (the (bc_branes self (snd e)))) b"

abbreviation cone_entries :: "BraneCollector \<Rightarrow> Brane \<Rightarrow> (bytes \<times> u64) list" where
  "cone_entries self b \<equiv> filter (\<lambda>(k, _). start_of b < k) (bc_cones self)"

lemma no_later_rival:
  assumes ok: "collector_ok self" and x: "bc_branes self i = Some x" and far: "end_of b \<le> start_of (bi_brane x)"
    and e: "bt_get (bc_cones self) k = Some j" "end_of (bi_brane x) \<le> k"
  shows "\<not> overlap (bi_brane (the (bc_branes self j))) b"
proof -
  obtain y where y: "bc_branes self j = Some y" "k = end_of (bi_brane y)" using e ok_cones [OF ok] by blast
  have "start_of (bi_brane x) < end_of (bi_brane x)" using start_less_end ok_info [OF ok x] by blast
  then have "start_of (bi_brane x) \<le> start_of (bi_brane y)"
  proof (cases "end_of (bi_brane x) = k")
    case True
    then have "i = j" using ok_cones [OF ok, of k i] x e(1) by simp
    then show ?thesis using x y by simp
  next
    case False
    then show ?thesis using ok_ordered [OF ok x y(1)] e(2) y(2) \<open>start_of (bi_brane x) < _\<close> by (meson less_imp_le less_le order_trans)
  qed
  then show ?thesis using far y(1) unfolding overlap_def by (simp add: not_less) (meson order_trans)
qed

definition loop_post ::
  "BraneCollector \<Rightarrow> Brane \<Rightarrow> (bytes \<times> u64) list \<Rightarrow> (bytes \<times> u64) list \<Rightarrow> (unit, (bytes \<times> u64) list option) result \<Rightarrow> bool" where
  "loop_post self b es st res \<longleftrightarrow> (case res of
      Ok (Some r) \<Rightarrow> r = st @ filter (rival self b) es \<and> (\<forall>e \<in> set es. rival self b e \<longrightarrow>
        \<not> is_brane_epoch_stale b (bi_brane (the (bc_branes self (snd e)))) \<and>
        ep_version (bn_epoch b) \<noteq> ep_version (bn_epoch (bi_brane (the (bc_branes self (snd e))))))
    | Ok None \<Rightarrow> \<exists>e \<in> set es. rival self b e \<and> is_brane_epoch_stale b (bi_brane (the (bc_branes self (snd e))))
    | Panic \<Rightarrow> \<exists>e \<in> set es. rival self b e \<and>
        ep_version (bn_epoch b) = ep_version (bn_epoch (bi_brane (the (bc_branes self (snd e)))))
    | _ \<Rightarrow> False)"

lemma loop_post_skip: "\<not> rival self b e \<Longrightarrow> loop_post self b es st r \<Longrightarrow> loop_post self b (e # es) st r"
  by (auto simp: loop_post_def split: result.splits option.splits)

lemma loop_post_step:
  assumes "rival self b e" "\<not> is_brane_epoch_stale b (bi_brane (the (bc_branes self (snd e))))"
    "ep_version (bn_epoch b) \<noteq> ep_version (bn_epoch (bi_brane (the (bc_branes self (snd e)))))"
    "loop_post self b es (st @ [e]) r"
  shows "loop_post self b (e # es) st r"
  using assms by (auto simp: loop_post_def split: result.splits option.splits)

lemma check_cone_loop_spec:
  assumes ok: "collector_ok self"
    and es: "bt_sorted es" "\<forall>(k, i) \<in> set es. bt_get (bc_cones self) k = Some i \<and> start_of b < k"
  shows "loop_post self b es st (check_cone_loop self b True es st)"
  using es
proof (induction es arbitrary: st)
  case Nil
  then show ?case by (simp add: loop_post_def)
next
  case (Cons e es)
  obtain k i where e: "e = (k, i)" by (cases e)
  have get: "bt_get (bc_cones self) k = Some i" "start_of b < k" using Cons.prems e by auto
  obtain x where x: "bc_branes self i = Some x" "k = end_of (bi_brane x)" using get ok_cones [OF ok] by blast
  have IH: "loop_post self b es st (check_cone_loop self b True es st)" for st
    using Cons.IH Cons.prems e by simp
  show ?case
  proof (cases "i = bn_id b")
    case True
    then show ?thesis using loop_post_skip [where e = e and es = es] IH e by simp
  next
    case other: False
    show ?thesis
    proof (cases "end_of b \<le> start_of (bi_brane x)")
      case far: True
      have "\<not> rival self b y" if "y \<in> set (e # es)" for y
      proof -
        have "bt_get (bc_cones self) (fst y) = Some (snd y)" "k \<le> fst y"
          using that Cons.prems e by (auto simp: less_imp_le)
        then show ?thesis using no_later_rival [OF ok x(1) far, of "fst y" "snd y"] x(2) by simp
      qed
      then have "filter (rival self b) (e # es) = []" "\<forall>y \<in> set (e # es). \<not> rival self b y" by (auto simp: filter_empty_conv)
      then show ?thesis using other far x e by (auto simp: end_le_start_iff loop_post_def)
    next
      case False
      then have riv: "rival self b e" using other x get e by (auto simp: overlap_def not_le)
      let ?x = "bi_brane x"
      have nobreak: "\<not> (bn_lightlike_key b \<noteq> [] \<and> bn_spacelike_key ?x \<ge> bn_lightlike_key b)"
        using False end_le_start_iff by blast
      have loop: "check_cone_loop self b True (e # es) st = (if is_brane_epoch_stale b ?x then Ok None
          else if ep_version (bn_epoch b) = ep_version (bn_epoch ?x) then Panic else check_cone_loop self b True es (st @ [e]))"
        using nobreak other x(1) by (auto simp: e Let_def)
      have the: "bi_brane (the (bc_branes self (snd e))) = ?x" using x(1) e by simp
      have "loop_post self b (e # es) st (Ok None)" if "is_brane_epoch_stale b ?x"
        unfolding loop_post_def using riv the that by auto
      moreover have "loop_post self b (e # es) st Panic" if "ep_version (bn_epoch b) = ep_version (bn_epoch ?x)"
        unfolding loop_post_def using riv the that by auto
      moreover have "loop_post self b (e # es) st (check_cone_loop self b True es (st @ [e]))"
        if "\<not> is_brane_epoch_stale b ?x" "ep_version (bn_epoch b) \<noteq> ep_version (bn_epoch ?x)"
        using loop_post_step [OF riv _ _ IH] the that by simp
      ultimately show ?thesis unfolding loop by simp
    qed
  qed
qed

lemma remove_stale_spec:
  assumes "collector_ok self" "distinct (map fst es)" "\<forall>(k, i) \<in> set es. bt_get (bc_cones self) k = Some i"
  shows "\<exists>self'. remove_stale self es = Ok self' \<and> collector_ok self' \<and>
    bc_branes self' = (\<lambda>j. if j \<in> snd ` set es then None else bc_branes self j)"
  using assms
proof (induction self es rule: remove_stale.induct)
  case (2 self k i es)
  note ok = "2.prems"(1)
  have get: "bt_get (bc_cones self) k = Some i" using "2.prems"(3) by simp
  obtain x where x: "bc_branes self i = Some x" "k = end_of (bi_brane x)" using get ok_cones [OF ok] by blast
  let ?s = "self\<lparr>bc_branes := (bc_branes self)(i := None), bc_cones := bt_remove k (bc_cones self)\<rparr>"
  have only: "bt_get (bc_cones self) l = Some i \<longleftrightarrow> l = k" for l using ok_cones [OF ok] x by auto
  have "collector_ok ?s" using ok_sorted [OF ok] only by (intro collector_ok_del [OF ok]) auto
  moreover have "\<forall>(l, j) \<in> set es. bt_get (bc_cones ?s) l = Some j"
  proof -
    have "l \<noteq> k" if "(l, j) \<in> set es" for l j using "2.prems"(2) that by force
    then show ?thesis using "2.prems"(3) ok_sorted [OF ok] by auto
  qed
  moreover have "bc_branes self i \<noteq> None" "bt_get (bc_cones self) k \<noteq> None" using x get by simp_all
  ultimately obtain self' where "remove_stale ?s es = Ok self'" "collector_ok self'"
    "bc_branes self' = (\<lambda>j. if j \<in> snd ` set es then None else bc_branes ?s j)"
    using "2.IH" "2.prems"(2) by (metis (no_types, lifting) distinct.simps(2) list.simps(9))
  moreover have "remove_stale self ((k, i) # es) = remove_stale ?s es" using x get by simp
  ultimately show ?case by (intro exI [of _ self']) (simp add: fun_eq_iff)
qed simp

lemma cone_entries_ok:
  assumes "collector_ok self"
  shows "bt_sorted (cone_entries self b)" "\<forall>(k, i) \<in> set (cone_entries self b). bt_get (bc_cones self) k = Some i \<and> start_of b < k"
    "\<And>k i. bt_get (bc_cones self) k = Some i \<Longrightarrow> start_of b < k \<Longrightarrow> (k, i) \<in> set (cone_entries self b)"
  using ok_sorted [OF assms] by (auto simp: bt_sorted_def sorted_wrt_map bt_get_Some_iff intro: sorted_wrt_filter)

text \<open>A brane of the collection that a new brane contradicts.\<close>

definition clash :: "BraneCollector \<Rightarrow> Brane \<Rightarrow> bool" where
  "clash self b \<longleftrightarrow> (\<exists>c. held self c \<and> bn_id c \<noteq> bn_id b \<and> overlap c b \<and> ep_version (bn_epoch c) = ep_version (bn_epoch b))"

text \<open>A brane of the collection that is newer than the given one.\<close>

definition outdated :: "BraneCollector \<Rightarrow> Brane \<Rightarrow> bool" where
  "outdated self b \<longleftrightarrow> (\<exists>c. held self c \<and> (bn_id c = bn_id b \<or> overlap c b) \<and> is_brane_epoch_stale b c)"

lemma rival_held:
  assumes ok: "collector_ok self" and e: "e \<in> set (cone_entries self b)" "rival self b e"
  shows "held self (bi_brane (the (bc_branes self (snd e))))" "bn_id (bi_brane (the (bc_branes self (snd e)))) = snd e"
proof -
  have "bt_get (bc_cones self) (fst e) = Some (snd e)" using cone_entries_ok(2) [OF ok, of b] e(1) by auto
  then obtain x where x: "bc_branes self (snd e) = Some x" using ok_cones [OF ok] by blast
  then show "bn_id (bi_brane (the (bc_branes self (snd e)))) = snd e" using ok_info [OF ok x] by simp
  then show "held self (bi_brane (the (bc_branes self (snd e))))" using x by (auto simp: held_def)
qed

lemma held_rival:
  assumes ok: "collector_ok self" and c: "held self c" "bn_id c \<noteq> bn_id b" "overlap c b"
  shows "(end_of c, bn_id c) \<in> set (cone_entries self b)" "rival self b (end_of c, bn_id c)"
proof -
  obtain info where info: "bc_branes self (bn_id c) = Some info" "bi_brane info = c" using c(1) by (auto simp: held_def)
  then have "bt_get (bc_cones self) (end_of c) = Some (bn_id c)" using ok_cones [OF ok] by blast
  then show "(end_of c, bn_id c) \<in> set (cone_entries self b)" using cone_entries_ok(3) [OF ok] c(3) overlap_def by blast
  show "rival self b (end_of c, bn_id c)" using info c(2,3) by simp
qed

lemma held_the: "held self c \<Longrightarrow> bi_brane (the (bc_branes self (bn_id c))) = c"
  by (auto simp: held_def)

lemma rival_ids:
  assumes ok: "collector_ok self" and c: "held self c"
  shows "bn_id c \<in> snd ` set (filter (rival self b) (cone_entries self b)) \<longleftrightarrow> bn_id c \<noteq> bn_id b \<and> overlap c b"
proof
  assume "bn_id c \<in> snd ` set (filter (rival self b) (cone_entries self b))"
  then obtain e where e: "bn_id c = snd e" "e \<in> set (filter (rival self b) (cone_entries self b))" by (rule imageE)
  from e(2) have "rival self b e" unfolding set_filter mem_Collect_eq by (rule conjunct2)
  moreover have "bi_brane (the (bc_branes self (snd e))) = c" using held_the [OF c] by (simp only: e(1))
  ultimately show "bn_id c \<noteq> bn_id b \<and> overlap c b" by (simp only: e(1) simp_thms)
next
  assume "bn_id c \<noteq> bn_id b \<and> overlap c b"
  then have n: "bn_id c \<noteq> bn_id b" "overlap c b" by blast+
  have "(end_of c, bn_id c) \<in> set (filter (rival self b) (cone_entries self b))"
    using held_rival(1) [OF ok c n] held_rival(2) [OF ok c n] by (simp only: set_filter mem_Collect_eq) simp
  then show "bn_id c \<in> snd ` set (filter (rival self b) (cone_entries self b))" by (rule image_eqI [rotated]) simp
qed

lemma remove_rivals:
  assumes ok: "collector_ok self"
  shows "\<exists>self'. remove_stale self (filter (rival self b) (cone_entries self b)) = Ok self' \<and> collector_ok self' \<and>
    (\<forall>c. held self' c \<longleftrightarrow> held self c \<and> (bn_id c = bn_id b \<or> \<not> overlap c b)) \<and>
    bc_branes self' (bn_id b) = bc_branes self (bn_id b)"
proof -
  let ?st = "filter (rival self b) (cone_entries self b)"
  have "distinct (map fst ?st)"
    using bt_sorted_filter [OF cone_entries_ok(1) [OF ok], of "rival self b" b] unfolding bt_sorted_def strict_sorted_iff by blast
  moreover have "\<forall>(k, i) \<in> set ?st. bt_get (bc_cones self) k = Some i" using cone_entries_ok(2) [OF ok, of b] by auto
  ultimately obtain self' where self': "remove_stale self ?st = Ok self'" "collector_ok self'"
    "bc_branes self' = (\<lambda>j. if j \<in> snd ` set ?st then None else bc_branes self j)"
    using remove_stale_spec [OF ok] by blast
  have "held self' c \<longleftrightarrow> bn_id c \<notin> snd ` set ?st \<and> held self c" for c unfolding held_def self'(3) by auto
  then have "held self' c \<longleftrightarrow> held self c \<and> (bn_id c = bn_id b \<or> \<not> overlap c b)" for c using rival_ids [OF ok] by blast
  moreover have "bc_branes self' (bn_id b) = bc_branes self (bn_id b)" unfolding self'(3) by auto
  ultimately show ?thesis using self'(1,2) by blast
qed

lemma check_brane_cone_spec:
  assumes ok: "collector_ok self"
  shows "check_brane_cone self b True = Panic \<and> clash self b \<or>
    check_brane_cone self b True = Ok (self, False) \<and> outdated self b \<or>
    (\<exists>self'. check_brane_cone self b True = Ok (self', True) \<and> collector_ok self' \<and> \<not> outdated self b \<and> \<not> clash self b \<and>
      (\<forall>c. held self' c \<longleftrightarrow> held self c \<and> (bn_id c = bn_id b \<or> \<not> overlap c b)) \<and>
      bc_branes self' (bn_id b) = bc_branes self (bn_id b))"
proof (cases "\<exists>info. bc_branes self (bn_id b) = Some info \<and> is_brane_epoch_stale b (bi_brane info)")
  case True
  then obtain info where info: "bc_branes self (bn_id b) = Some info" "is_brane_epoch_stale b (bi_brane info)" by blast
  then have "held self (bi_brane info)" "bn_id (bi_brane info) = bn_id b" using heldI ok_info [OF ok] by auto
  then have "outdated self b" using info unfolding outdated_def by blast
  then show ?thesis using info by (simp add: check_brane_cone_def)
next
  case False
  let ?es = "cone_entries self b"
  let ?r = "check_cone_loop self b True ?es []"
  have post: "loop_post self b ?es [] ?r" by (rule check_cone_loop_spec [OF ok cone_entries_ok(1,2) [OF ok]])
  have check: "check_brane_cone self b True = bind_result ?r (\<lambda>stale. case stale of None \<Rightarrow> Ok (self, False)
      | Some st \<Rightarrow> result_map (\<lambda>self. (self, True)) (remove_stale self st))"
    using False unfolding check_brane_cone_def by (auto split: option.splits)
  show ?thesis
  proof (cases ?r)
    case (Ok o')
    show ?thesis
    proof (cases o')
      case None
      then obtain e where e: "e \<in> set ?es" "rival self b e" "is_brane_epoch_stale b (bi_brane (the (bc_branes self (snd e))))"
        using post Ok unfolding loop_post_def by (simp only: result.case option.case) blast
      then have "outdated self b" using rival_held(1) [OF ok e(1,2)] unfolding outdated_def by blast
      then show ?thesis using Ok None check by simp
    next
      case (Some st)
      then have st: "st = filter (rival self b) ?es" and fresh: "\<forall>e \<in> set ?es. rival self b e \<longrightarrow>
          \<not> is_brane_epoch_stale b (bi_brane (the (bc_branes self (snd e)))) \<and>
          ep_version (bn_epoch b) \<noteq> ep_version (bn_epoch (bi_brane (the (bc_branes self (snd e)))))"
        using post Ok unfolding loop_post_def by (simp_all only: result.case option.case append_Nil) blast+
      obtain self' where self': "remove_stale self st = result.Ok self'" "collector_ok self'"
        "\<forall>c. held self' c \<longleftrightarrow> held self c \<and> (bn_id c = bn_id b \<or> \<not> overlap c b)"
        "bc_branes self' (bn_id b) = bc_branes self (bn_id b)"
        using remove_rivals [OF ok, of b] unfolding st by blast
      have far: "\<not> is_brane_epoch_stale b c \<and> ep_version (bn_epoch b) \<noteq> ep_version (bn_epoch c)"
        if "held self c" "bn_id c \<noteq> bn_id b" "overlap c b" for c
        using bspec [OF fresh held_rival(1) [OF ok that]] held_rival(2) [OF ok that] held_the [OF that(1)] by simp
      have same: "\<not> is_brane_epoch_stale b c" if "held self c" "bn_id c = bn_id b" for c
        using that False by (auto simp: held_def)
      have "\<not> outdated self b" unfolding outdated_def using far same by blast
      moreover have "\<not> clash self b" unfolding clash_def using far by metis
      moreover have "check_brane_cone self b True = result.Ok (self', True)" unfolding check using Ok Some self'(1) by simp
      ultimately show ?thesis using self'(2,3,4) by blast
    qed
  next
    case Panic
    then obtain e where e: "e \<in> set ?es" "rival self b e"
      "ep_version (bn_epoch b) = ep_version (bn_epoch (bi_brane (the (bc_branes self (snd e)))))"
      using post unfolding loop_post_def by (simp only: result.case) blast
    then have "clash self b" using rival_held [OF ok e(1,2)] unfolding clash_def by metis
    then show ?thesis using Panic check by simp
  qed (use post in \<open>simp_all add: loop_post_def\<close>)
qed

section \<open>Handling an event\<close>

lemma create_brane_spec:
  assumes ok: "collector_ok self" and b: "brane_cone_ok b" "bc_branes self (bn_id b) = None"
    and apart: "\<And>c. held self c \<Longrightarrow> bn_id c \<noteq> bn_id b \<Longrightarrow> \<not> overlap c b"
  shows "\<exists>self'. create_brane self b role = Ok self' \<and> collector_ok self' \<and>
    bc_branes self' = (bc_branes self)(bn_id b \<mapsto> BraneInfo_new b role)"
proof -
  have "bt_get (bc_cones self) k \<noteq> Some (bn_id b)" for k using ok_cones [OF ok] b(2) by simp
  then have "collector_ok (self\<lparr>bc_branes := (bc_branes self)(bn_id b \<mapsto> BraneInfo_new b role),
      bc_cones := bt_insert (end_of b) (bn_id b) (bc_cones self)\<rparr>)"
    using b apart ok_sorted [OF ok] by (intro collector_ok_put [OF ok]) (auto simp: BraneInfo_new_def)
  then show ?thesis using b(2) by (simp add: create_brane_def Let_def)
qed

lemma end_key_free:
  assumes ok: "collector_ok self" and b: "brane_cone_ok b"
    and apart: "\<And>c. held self c \<Longrightarrow> bn_id c \<noteq> bn_id b \<Longrightarrow> \<not> overlap c b"
  shows "bt_get (bc_cones self) (end_of b) \<in> {None, Some (bn_id b)}"
proof (cases "bt_get (bc_cones self) (end_of b)")
  case (Some j)
  then obtain x where x: "bc_branes self j = Some x" "end_of b = end_of (bi_brane x)" using ok_cones [OF ok] by blast
  have "overlap (bi_brane x) b" using overlap_same_end ok_info [OF ok x(1)] x(2) b by metis
  then have "j = bn_id b" using apart heldI [OF x(1)] ok_info [OF ok x(1)] by metis
  then show ?thesis using Some by simp
qed simp

lemma fidelio_brane_spec:
  assumes ok: "collector_ok self" and b: "brane_cone_ok b" "bc_branes self (bn_id b) = Some info"
    and apart: "\<And>c. held self c \<Longrightarrow> bn_id c \<noteq> bn_id b \<Longrightarrow> \<not> overlap c b"
  shows "\<exists>self'. fidelio_brane self b = Ok self' \<and> collector_ok self' \<and>
    bc_branes self' = (bc_branes self)(bn_id b \<mapsto> info\<lparr>bi_brane := b\<rparr>)"
proof -
  let ?old = "bi_brane info" and ?branes = "(bc_branes self)(bn_id b \<mapsto> info\<lparr>bi_brane := b\<rparr>)"
  have old: "bn_id ?old = bn_id b" using ok_info [OF ok b(2)] by simp
  have get: "bt_get (bc_cones self) k = Some (bn_id b) \<longleftrightarrow> k = end_of ?old" for k using ok_cones [OF ok] b(2) by auto
  have sorted: "bt_sorted (bc_cones self)" by (rule ok_sorted [OF ok])
  have put: "collector_ok (self\<lparr>bc_branes := ?branes, bc_cones := cones\<rparr>)"
    if "bt_sorted cones" "\<And>k. bt_get cones k = (if k = end_of b then Some (bn_id b)
      else if bt_get (bc_cones self) k = Some (bn_id b) then None else bt_get (bc_cones self) k)" for cones
    by (rule collector_ok_put [OF ok]) (simp_all add: that b(1), rule apart)
  show ?thesis
  proof (cases "bn_lightlike_key ?old = bn_lightlike_key b")
    case True
    have "collector_ok (self\<lparr>bc_branes := ?branes, bc_cones := bc_cones self\<rparr>)"
      using get True by (intro put sorted) auto
    then show ?thesis using b(2) old True by (simp add: fidelio_brane_def Let_def)
  next
    case False
    then have neq: "end_of ?old \<noteq> end_of b" by (auto simp: data_lightlike_key_def data_key_def)
    then have free: "bt_get (bc_cones self) (end_of b) = None" using end_key_free [OF ok b(1) apart] get by auto
    have "collector_ok (self\<lparr>bc_branes := ?branes, bc_cones := bt_insert (end_of b) (bn_id b) (bt_remove (end_of ?old) (bc_cones self))\<rparr>)"
      using sorted get by (intro put) auto
    moreover have "fidelio_brane self b = Ok (self\<lparr>bc_branes := ?branes,
        bc_cones := bt_insert (end_of b) (bn_id b) (bt_remove (end_of ?old) (bc_cones self))\<rparr>)"
      using free sorted get [of "end_of ?old"] by (simp add: fidelio_brane_def Let_def b(2) old False)
    ultimately show ?thesis by simp
  qed
qed

lemma handle_destroy_brane_spec:
  assumes ok: "collector_ok self"
  shows "\<exists>self'. handle_destroy_brane self b = Ok self' \<and> collector_ok self' \<and> bc_branes self' = (bc_branes self)(bn_id b := None)"
proof (cases "bc_branes self (bn_id b)")
  case None
  then show ?thesis using ok by (auto simp: handle_destroy_brane_def fun_eq_iff)
next
  case (Some info)
  have old: "bn_id (bi_brane info) = bn_id b" using ok_info [OF ok Some] by simp
  have get: "bt_get (bc_cones self) k = Some (bn_id b) \<longleftrightarrow> k = end_of (bi_brane info)" for k
    using ok_cones [OF ok] Some by auto
  have "collector_ok (self\<lparr>bc_branes := (bc_branes self)(bn_id b := None), bc_cones := bt_remove (end_of (bi_brane info)) (bc_cones self)\<rparr>)"
    using ok_sorted [OF ok] get by (intro collector_ok_del [OF ok]) auto
  then show ?thesis using Some old get [of "end_of (bi_brane info)"] by (simp add: handle_destroy_brane_def Let_def)
qed

lemma handle_role_change_spec:
  assumes ok: "collector_ok self" and b: "brane_cone_ok b"
    and apart: "\<And>c. held self c \<Longrightarrow> bn_id c \<noteq> bn_id b \<Longrightarrow> \<not> overlap c b"
  shows "\<exists>self'. handle_role_change self b role = Ok self' \<and> collector_ok self' \<and>
    bc_branes self' = (bc_branes self)(bn_id b \<mapsto> (case bc_branes self (bn_id b) of
      Some info \<Rightarrow> info\<lparr>bi_role := role\<rparr> | None \<Rightarrow> BraneInfo_new b role))"
proof (cases "bc_branes self (bn_id b)")
  case None
  then show ?thesis using create_brane_spec [OF ok b None apart] by (simp add: handle_role_change_def)
next
  case (Some info)
  have held: "held self (bi_brane info)" "bn_id (bi_brane info) = bn_id b" "brane_cone_ok (bi_brane info)"
    using ok_info [OF ok Some] heldI [OF Some] by auto
  have get: "bt_get (bc_cones self) k = Some (bn_id b) \<longleftrightarrow> k = end_of (bi_brane info)" for k
    using ok_cones [OF ok] Some by auto
  have "collector_ok (self\<lparr>bc_branes := (bc_branes self)(bn_id b \<mapsto> info\<lparr>bi_role := role\<rparr>), bc_cones := bc_cones self\<rparr>)"
    using held ok_apart [OF ok] ok_sorted [OF ok] get by (intro collector_ok_put [OF ok]) auto
  then show ?thesis using Some by (simp add: handle_role_change_def)
qed

lemma held_put:
  assumes "bc_branes self' = (bc_branes self)(i \<mapsto> info)" "bn_id (bi_brane info) = i"
  shows "held self' c \<longleftrightarrow> (if bn_id c = i then c = bi_brane info else held self c)"
  using assms by (auto simp: held_def)

lemma held_del:
  assumes "bc_branes self' = (bc_branes self)(i := None)"
  shows "held self' c \<longleftrightarrow> bn_id c \<noteq> i \<and> held self c"
  using assms by (auto simp: held_def)

lemma put_brane_spec:
  assumes ok: "collector_ok self" and b: "brane_cone_ok b"
    and apart: "\<And>c. held self c \<Longrightarrow> bn_id c \<noteq> bn_id b \<Longrightarrow> \<not> overlap c b"
  shows "\<exists>self'. (if bc_branes self (bn_id b) \<noteq> None then fidelio_brane self b else create_brane self b role) = Ok self' \<and>
    collector_ok self' \<and> (\<forall>c. held self' c \<longrightarrow> c = b \<or> held self c)"
proof (cases "bc_branes self (bn_id b)")
  case None
  obtain self' where self': "create_brane self b role = Ok self'" "collector_ok self'"
    "bc_branes self' = (bc_branes self)(bn_id b \<mapsto> BraneInfo_new b role)"
    using create_brane_spec [OF ok b None apart] by blast
  have "held self' c \<longrightarrow> c = b \<or> held self c" for c using held_put [OF self'(3)] by (simp add: BraneInfo_new_def)
  then show ?thesis using self' None by simp
next
  case (Some info)
  obtain self' where self': "fidelio_brane self b = Ok self'" "collector_ok self'"
    "bc_branes self' = (bc_branes self)(bn_id b \<mapsto> info\<lparr>bi_brane := b\<rparr>)"
    using fidelio_brane_spec [OF ok b Some apart] by blast
  have "held self' c \<longrightarrow> c = b \<or> held self c" for c using held_put [OF self'(3)] by simp
  then show ?thesis using self' Some by simp
qed

lemma dispatch_event_spec:
  assumes ok: "collector_ok self" and b: "brane_cone_ok (get_brane ev)"
    and apart: "\<And>c. held self c \<Longrightarrow> bn_id c \<noteq> bn_id (get_brane ev) \<Longrightarrow> \<not> overlap c (get_brane ev)"
  shows "\<exists>self'. dispatch_event self ev = Ok self' \<and> collector_ok self' \<and> (\<forall>c. held self' c \<longrightarrow> c = get_brane ev \<or> held self c)"
proof (cases ev)
  case (DestroyBrane b)
  then show ?thesis using handle_destroy_brane_spec [OF ok, of b] held_del by (fastforce simp: dispatch_event_def)
next
  case (RoleChange b role)
  let ?info = "case bc_branes self (bn_id b) of Some info \<Rightarrow> info\<lparr>bi_role := role\<rparr> | None \<Rightarrow> BraneInfo_new b role"
  have "brane_cone_ok b" "\<And>c. held self c \<Longrightarrow> bn_id c \<noteq> bn_id b \<Longrightarrow> \<not> overlap c b" using b apart RoleChange by auto
  then obtain self' where self': "handle_role_change self b role = Ok self'" "collector_ok self'"
    "bc_branes self' = (bc_branes self)(bn_id b \<mapsto> ?info)"
    using handle_role_change_spec [OF ok, of b role] by blast
  have info: "bn_id (bi_brane ?info) = bn_id b" "bi_brane ?info = b \<or> held self (bi_brane ?info)"
    using ok_info [OF ok] heldI by (auto simp: BraneInfo_new_def split: option.splits)
  have "held self' c \<longrightarrow> c = b \<or> held self c" for c using held_put [OF self'(3) info(1)] info(2) by auto
  then show ?thesis using self'(1,2) RoleChange by (simp add: dispatch_event_def)
next
  case (CreateBrane b role)
  then show ?thesis using put_brane_spec [OF ok, of b role] b apart by (simp add: dispatch_event_def handle_create_brane_def)
next
  case (fidelioBrane b role)
  then show ?thesis using put_brane_spec [OF ok, of b role] b apart by (simp add: dispatch_event_def handle_fidelio_brane_def)
qed

lemma handle_event_spec:
  assumes ok: "collector_ok self" and b: "brane_cone_ok (get_brane ev)"
  shows "handle_violetabftstore_event self ev = Panic \<and> clash self (get_brane ev) \<or>
    (\<exists>self'. handle_violetabftstore_event self ev = Ok self' \<and> collector_ok self' \<and>
      (self' = self \<or> \<not> outdated self (get_brane ev) \<and> \<not> clash self (get_brane ev) \<and>
        (\<forall>c. held self' c \<longrightarrow> c = get_brane ev \<or> held self c)))"
proof -
  consider "ep_version (bn_epoch (get_brane ev)) = 0"
    | "ep_version (bn_epoch (get_brane ev)) \<noteq> 0" "check_brane_cone self (get_brane ev) True = Panic" "clash self (get_brane ev)"
    | "ep_version (bn_epoch (get_brane ev)) \<noteq> 0" "check_brane_cone self (get_brane ev) True = Ok (self, False)"
    | self1 where "ep_version (bn_epoch (get_brane ev)) \<noteq> 0" "check_brane_cone self (get_brane ev) True = Ok (self1, True)"
        "collector_ok self1" "\<not> outdated self (get_brane ev)" "\<not> clash self (get_brane ev)"
        "\<forall>c. held self1 c \<longleftrightarrow> held self c \<and> (bn_id c = bn_id (get_brane ev) \<or> \<not> overlap c (get_brane ev))"
    using check_brane_cone_spec [OF ok, of "get_brane ev"] by blast
  then show ?thesis
  proof cases
    case (4 self1)
    obtain self' where "dispatch_event self1 ev = Ok self'" "collector_ok self'" "\<forall>c. held self' c \<longrightarrow> c = get_brane ev \<or> held self1 c"
      using dispatch_event_spec [OF 4(3) b] 4(6) by metis
    moreover from this have "handle_violetabftstore_event self ev = Ok self'"
      using 4(1,2) by (simp add: handle_violetabftstore_event_def Let_def)
    ultimately show ?thesis using 4(4-6) by blast
  qed (use ok in \<open>simp_all add: handle_violetabftstore_event_def Let_def\<close>)
qed

lemma collector_ok_new: "collector_ok BraneCollector_new"
  by (simp add: collector_ok_def BraneCollector_new_def held_def)

lemma handle_events_ok:
  "handle_events self es = Ok self' \<Longrightarrow> collector_ok self \<Longrightarrow> \<forall>e \<in> set es. brane_cone_ok (get_brane e) \<Longrightarrow> collector_ok self'"
proof (induction self es rule: handle_events.induct)
  case (2 self e es)
  obtain s1 where s1: "handle_violetabftstore_event self e = Ok s1" "handle_events s1 es = Ok self'"
    using "2.prems"(1) by (auto simp: bind_result_Ok_iff)
  have "collector_ok s1" using handle_event_spec [OF "2.prems"(2), of e] "2.prems"(3) s1(1) by auto
  then show ?case using s1 "2.prems"(3) by (auto intro: "2.IH")
qed simp

lemma seek_loop_ok:
  "\<forall>e \<in> set es. bc_branes self (snd e) \<noteq> None \<Longrightarrow> seek_loop self es = Ok (map (\<lambda>e. the (bc_branes self (snd e))) es)"
  by (induction self es rule: seek_loop.induct) auto

section \<open>Properties\<close>

text \<open>Two neighbouring branes and what the collector holds after their creation, for concrete inputs.\<close>

definition left_brane :: Brane where
  "left_brane = \<lparr> bn_id = 1, bn_spacelike_key = [], bn_lightlike_key = [5],
    bn_epoch = \<lparr> ep_conf_ver = 1, ep_version = 2 \<rparr>, bn_peers = [] \<rparr>"

definition right_brane :: Brane where
  "right_brane = \<lparr> bn_id = 2, bn_spacelike_key = [5], bn_lightlike_key = [],
    bn_epoch = \<lparr> ep_conf_ver = 1, ep_version = 2 \<rparr>, bn_peers = [] \<rparr>"

definition sample_collector :: BraneCollector where
  "sample_collector = \<lparr> bc_branes = [1 \<mapsto> BraneInfo_new left_brane Leader, 2 \<mapsto> BraneInfo_new right_brane Follower],
    bc_cones = [([122, 5], 1), ([123], 2)] \<rparr>"

lemmas sample_simps = left_brane_def right_brane_def sample_collector_def brane_cone_ok_def BraneInfo_new_def

lemma sample_events:
  "handle_events BraneCollector_new [CreateBrane left_brane Leader, CreateBrane right_brane Follower] = Ok sample_collector"
  by (simp add: sample_simps BraneCollector_new_def handle_violetabftstore_event_def check_brane_cone_def dispatch_event_def
      handle_create_brane_def create_brane_def data_key_def data_lightlike_key_def Let_def)

lemma sample_ok: "collector_ok sample_collector"
  using handle_events_ok [OF sample_events collector_ok_new] by (simp add: sample_simps)

text \<open>
  (C8) Whatever events arrive, as long as each names a brane with a non-empty cone, the collector
  keeps its two maps consistent and its branes disjoint: the map by end key leads to exactly the
  branes of the map by id, each under its own id, and no two branes share a key. The next event is
  handled without panic unless it names a brane that overlaps another one of the same version.
\<close>

theorem collector_invariant:
  assumes "\<forall>e \<in> set es. brane_cone_ok (get_brane e)" "handle_events BraneCollector_new es = Ok self" "brane_cone_ok (get_brane ev)"
  shows "(\<forall>k i. bt_get (bc_cones self) k = Some i \<longleftrightarrow> (\<exists>info. bc_branes self i = Some info \<and> k = end_of (bi_brane info))) \<and>
    (\<forall>i x j y k. bc_branes self i = Some x \<longrightarrow> bc_branes self j = Some y \<longrightarrow>
       in_brane k (bi_brane x) \<longrightarrow> in_brane k (bi_brane y) \<longrightarrow> i = j) \<and>
    (\<forall>i x. bc_branes self i = Some x \<longrightarrow> bn_id (bi_brane x) = i) \<and>
    (handle_violetabftstore_event self ev \<noteq> Panic \<or> clash self (get_brane ev))"
proof -
  have ok: "collector_ok self" using handle_events_ok [OF assms(2) collector_ok_new assms(1)] .
  have "handle_violetabftstore_event self ev \<noteq> Panic \<or> clash self (get_brane ev)"
    using handle_event_spec [OF ok assms(3)] by auto
  moreover have "i = j" if "bc_branes self i = Some x" "bc_branes self j = Some y" "in_brane k (bi_brane x)" "in_brane k (bi_brane y)"
    for i x j y k using ok_info_apart [OF ok that(1,2)] overlap_key [OF that(3,4)] by blast
  ultimately show ?thesis using ok_cones [OF ok] ok_info [OF ok] by auto
qed

theorem collector_invariant_witness:
  "bt_get (bc_cones sample_collector) [123] = Some 2 \<and>
   (case handle_violetabftstore_event sample_collector (CreateBrane left_brane Leader) of
      Panic \<Rightarrow> clash sample_collector left_brane | _ \<Rightarrow> True)"
  using collector_invariant [OF _ sample_events, of "CreateBrane left_brane Leader"]
  by (simp add: sample_simps split: result.splits)

text \<open>
  (C14) The collection never goes back: if a key lay in a brane of the collection and, after an
  event, lies in a brane again, then that brane's version is not smaller; it is another brane only if
  its epoch is not stale. An event older than a brane of the same id or of an overlapping cone changes nothing.
\<close>

theorem collector_versions_grow:
  assumes ok: "collector_ok self" and b: "brane_cone_ok (get_brane ev)" and h: "handle_violetabftstore_event self ev = Ok self'"
  shows "(\<forall>c c' k. held self c \<longrightarrow> held self' c' \<longrightarrow> in_brane k c \<longrightarrow> in_brane k c' \<longrightarrow>
      ep_version (bn_epoch c) \<le> ep_version (bn_epoch c') \<and> (c' \<noteq> c \<longrightarrow> \<not> is_brane_epoch_stale c' c)) \<and>
    (outdated self (get_brane ev) \<longrightarrow> self' = self)"
proof -
  have spec: "self' = self \<or> \<not> outdated self (get_brane ev) \<and> (\<forall>c. held self' c \<longrightarrow> c = get_brane ev \<or> held self c)"
    using handle_event_spec [OF ok b] h by auto
  have same: "c = c'" if "held self c" "held self c'" "in_brane k c" "in_brane k c'" for c c' k
    using ok_apart [OF ok that(1,2)] overlap_key that by blast
  have "ep_version (bn_epoch c) \<le> ep_version (bn_epoch c') \<and> (c' \<noteq> c \<longrightarrow> \<not> is_brane_epoch_stale c' c)"
    if c: "held self c" "held self' c'" "in_brane k c" "in_brane k c'" for c c' k
  proof (cases "held self c'")
    case True
    then show ?thesis using same c by blast
  next
    case False
    then have "c' = get_brane ev" "\<not> outdated self (get_brane ev)" using spec c(2) by auto
    then have "\<not> is_brane_epoch_stale c' c" using c overlap_key unfolding outdated_def by metis
    then show ?thesis by (auto simp: is_brane_epoch_stale_def Let_def)
  qed
  then show ?thesis using spec by blast
qed

theorem collector_versions_grow_witness:
  "\<exists>self'. handle_violetabftstore_event sample_collector (fidelioBrane (left_brane\<lparr>bn_epoch := \<lparr> ep_conf_ver = 1, ep_version = 3 \<rparr>\<rparr>) Leader) =
     Ok self' \<and> held self' (left_brane\<lparr>bn_epoch := \<lparr> ep_conf_ver = 1, ep_version = 3 \<rparr>\<rparr>) \<and>
     ep_version (bn_epoch left_brane) \<le> ep_version (bn_epoch (left_brane\<lparr>bn_epoch := \<lparr> ep_conf_ver = 1, ep_version = 3 \<rparr>\<rparr>))"
proof -
  let ?new = "left_brane\<lparr>bn_epoch := \<lparr> ep_conf_ver = 1, ep_version = 3 \<rparr>\<rparr>"
  let ?self' = "sample_collector\<lparr>bc_branes := (bc_branes sample_collector)(1 \<mapsto> BraneInfo_new ?new Leader)\<rparr>"
  have "handle_violetabftstore_event sample_collector (fidelioBrane ?new Leader) = Ok ?self'"
    by (simp add: handle_violetabftstore_event_def check_brane_cone_def is_brane_epoch_stale_def dispatch_event_def
        handle_fidelio_brane_def fidelio_brane_def sample_simps Let_def data_key_def data_lightlike_key_def)
  moreover have "held sample_collector left_brane" "held ?self' ?new" by (simp_all add: held_def sample_simps)
  moreover have "in_brane [1] left_brane" "in_brane [1] ?new" by (simp_all add: in_brane_iff sample_simps)
  moreover have "brane_cone_ok (get_brane (fidelioBrane ?new Leader))" by (simp add: sample_simps)
  ultimately show ?thesis using collector_versions_grow [OF sample_ok] by blast
qed

text \<open>
  (C24) Seeking from a key gives, in key order, exactly the branes of the collection that contain
  the key or lie behind it.
\<close>

theorem seek_brane_exact:
  assumes ok: "collector_ok self"
  shows "\<exists>infos. handle_seek_brane self from = Ok infos \<and> sorted_wrt (\<lambda>x y. end_of (bi_brane x) \<le> start_of (bi_brane y)) infos \<and>
    set infos = {info. bc_branes self (bn_id (bi_brane info)) = Some info \<and>
      (bn_lightlike_key (bi_brane info) = [] \<or> from < bn_lightlike_key (bi_brane info))}"
proof -
  let ?es = "filter (\<lambda>(k, _). data_key from < k) (bc_cones self)"
  let ?info = "\<lambda>e. the (bc_branes self (snd e))"
  have es: "e \<in> set ?es \<longleftrightarrow> data_key from < fst e \<and> (\<exists>info. bc_branes self (snd e) = Some info \<and> fst e = end_of (bi_brane info))" for e
    using bt_get_Some_iff [OF ok_sorted [OF ok], of "fst e" "snd e"] ok_cones [OF ok, of "fst e" "snd e"] by (cases e) auto
  have seek: "handle_seek_brane self from = Ok (map ?info ?es)"
    unfolding handle_seek_brane_def Let_def using es by (intro seek_loop_ok) auto
  have "sorted_wrt (\<lambda>e f. fst e < fst f) ?es"
    using bt_sorted_filter [OF ok_sorted [OF ok]] by (simp add: bt_sorted_def sorted_wrt_map)
  then have "sorted_wrt (\<lambda>e f. end_of (bi_brane (?info e)) \<le> start_of (bi_brane (?info f))) ?es"
  proof (rule sorted_wrt_mono_rel [rotated])
    fix e f
    assume "e \<in> set ?es" "f \<in> set ?es" "fst e < fst f"
    then show "end_of (bi_brane (?info e)) \<le> start_of (bi_brane (?info f))"
      using ok_ordered [OF ok, of "snd e" "?info e" "snd f" "?info f"] unfolding es by auto
  qed
  moreover have "data_key from < end_of b \<longleftrightarrow> bn_lightlike_key b = [] \<or> from < bn_lightlike_key b" for b
    by (auto simp: data_key_def data_lightlike_key_def)
  moreover have "info \<in> ?info ` set ?es \<longleftrightarrow> bc_branes self (bn_id (bi_brane info)) = Some info \<and> data_key from < end_of (bi_brane info)" for info
  proof
    assume "info \<in> ?info ` set ?es"
    then obtain e where e: "info = ?info e" "e \<in> set ?es" by (rule imageE)
    then have "bc_branes self (snd e) = Some info" "data_key from < end_of (bi_brane info)" using es [of e] by auto
    then show "bc_branes self (bn_id (bi_brane info)) = Some info \<and> data_key from < end_of (bi_brane info)"
      using ok_info [OF ok] by auto
  next
    assume "bc_branes self (bn_id (bi_brane info)) = Some info \<and> data_key from < end_of (bi_brane info)"
    then have "(end_of (bi_brane info), bn_id (bi_brane info)) \<in> set ?es" "info = ?info (end_of (bi_brane info), bn_id (bi_brane info))"
      unfolding es by auto
    then show "info \<in> ?info ` set ?es" by (rule rev_image_eqI)
  qed
  ultimately show ?thesis using seek by (simp add: sorted_wrt_map) blast
qed

theorem seek_brane_exact_witness:
  "\<exists>infos. handle_seek_brane sample_collector [7] = Ok infos \<and> BraneInfo_new right_brane Follower \<in> set infos"
  using seek_brane_exact [OF sample_ok, of "[7]"] by (auto simp: sample_simps)

end
