(* ===== verification/Lru_Cache.thy ===== *)
theory Lru_Cache
  imports Prelude "HOL-Library.AList"
begin

text \<open>
  The least-recently-used cache of \<open>edbn/einsteindb_util/src/lru.rs\<close>: a hash map whose entries point
  into a doubly linked list of keys, most recently used first. The list is made of raw pointers, so
  the model has a heap of records; following a pointer that is not allocated, or reading a key that
  was never written, is undefined behaviour. The hash map is an association list with distinct keys.
  The counter \<open>tick\<close> wraps around.
\<close>

section \<open>The heap and the list (Trace)\<close>

record 'k Record =
  r_prev :: nat
  r_next :: nat
  r_key :: "'k option"

text \<open>Allocated records by address, and the next address \<open>Box::new\<close> hands out.\<close>

type_synonym 'k cells = "nat \<rightharpoonup> 'k Record"

record 'k heap =
  cells :: "'k cells"
  fresh :: nat

record Trace =
  t_head :: nat
  t_tail :: nat
  t_tick :: u64
  t_sample_mask :: u64

definition deref :: "'k heap \<Rightarrow> nat \<Rightarrow> (unit, 'k Record) result" where
  "deref h a = (case cells h a of Some r \<Rightarrow> Ok r | None \<Rightarrow> Undef)"

definition set_next :: "'k heap \<Rightarrow> nat \<Rightarrow> nat \<Rightarrow> (unit, 'k heap) result" where
  "set_next h a b = result_map (\<lambda>r. h\<lparr>cells := (cells h)(a \<mapsto> r\<lparr>r_next := b\<rparr>)\<rparr>) (deref h a)"

definition set_prev :: "'k heap \<Rightarrow> nat \<Rightarrow> nat \<Rightarrow> (unit, 'k heap) result" where
  "set_prev h a b = result_map (\<lambda>r. h\<lparr>cells := (cells h)(a \<mapsto> r\<lparr>r_prev := b\<rparr>)\<rparr>) (deref h a)"

definition set_key :: "'k heap \<Rightarrow> nat \<Rightarrow> 'k \<Rightarrow> (unit, 'k heap) result" where
  "set_key h a k = result_map (\<lambda>r. h\<lparr>cells := (cells h)(a \<mapsto> r\<lparr>r_key := Some k\<rparr>)\<rparr>) (deref h a)"

definition box_new :: "'k heap \<Rightarrow> 'k Record \<Rightarrow> 'k heap \<times> nat" where
  "box_new h r = (h\<lparr>cells := (cells h)(fresh h \<mapsto> r), fresh := Suc (fresh h)\<rparr>, fresh h)"

text \<open>\<open>Box::from_raw\<close> followed by the end of its scope.\<close>

definition free :: "'k heap \<Rightarrow> nat \<Rightarrow> (unit, 'k heap) result" where
  "free h a = result_map (\<lambda>_. h\<lparr>cells := (cells h)(a := None)\<rparr>) (deref h a)"

text \<open>Reading a key out of its \<open>MaybeUninit\<close>.\<close>

definition read_key :: "'k Record \<Rightarrow> (unit, 'k) result" where
  "read_key r = (case r_key r of Some k \<Rightarrow> Ok k | None \<Rightarrow> Undef)"

definition suture :: "'k heap \<Rightarrow> nat \<Rightarrow> nat \<Rightarrow> (unit, 'k heap) result" where
  "suture h leading following =
    bind_result (set_next h leading following) (\<lambda>h. set_prev h following leading)"

definition cut_out :: "'k heap \<Rightarrow> nat \<Rightarrow> (unit, 'k heap) result" where
  "cut_out h record = bind_result (deref h record) (\<lambda>r. suture h (r_prev r) (r_next r))"

definition Trace_new :: "'k heap \<Rightarrow> u64 \<Rightarrow> (unit, 'k heap \<times> Trace) result" where
  "Trace_new h sample_mask =
    (let (h, head) = box_new h \<lparr> r_prev = 1, r_next = 1, r_key = None \<rparr>;
         (h, tail) = box_new h \<lparr> r_prev = 1, r_next = 1, r_key = None \<rparr>
     in result_map (\<lambda>h. (h, \<lparr> t_head = head, t_tail = tail, t_tick = 0, t_sample_mask = sample_mask \<rparr>)) (suture h head tail))"

text \<open>The steps \<open>promote\<close> and \<open>reuse_tail\<close> share.\<close>

definition to_front :: "'k heap \<Rightarrow> Trace \<Rightarrow> nat \<Rightarrow> (unit, 'k heap) result" where
  "to_front h self record =
    bind_result (cut_out h record) (\<lambda>h.
    bind_result (deref h (t_head self)) (\<lambda>head.
    bind_result (suture h record (r_next head)) (\<lambda>h.
    suture h (t_head self) record)))"

definition promote :: "'k heap \<Rightarrow> Trace \<Rightarrow> nat \<Rightarrow> (unit, 'k heap) result" where
  "promote h self record = to_front h self record"

definition maybe_promote :: "'k heap \<Rightarrow> Trace \<Rightarrow> nat \<Rightarrow> (unit, 'k heap \<times> Trace) result" where
  "maybe_promote h self record =
    (let self = self\<lparr>t_tick := t_tick self + 1\<rparr> in
     if t_tick self AND t_sample_mask self = 0 then result_map (\<lambda>h. (h, self)) (promote h self record) else Ok (h, self))"

definition Trace_delete :: "'k heap \<Rightarrow> nat \<Rightarrow> (unit, 'k heap) result" where
  "Trace_delete h record = bind_result (cut_out h record) (\<lambda>h.
    bind_result (deref h record) (\<lambda>r. bind_result (read_key r) (\<lambda>_. free h record)))"

definition Trace_create :: "'k heap \<Rightarrow> Trace \<Rightarrow> 'k \<Rightarrow> (unit, 'k heap \<times> nat) result" where
  "Trace_create h self key =
    bind_result (deref h (t_head self)) (\<lambda>head.
    let (h, record) = box_new h \<lparr> r_prev = t_head self, r_next = r_next head, r_key = Some key \<rparr> in
    bind_result (deref h (t_head self)) (\<lambda>head.
    bind_result (set_prev h (r_next head) record) (\<lambda>h.
    result_map (\<lambda>h. (h, record)) (set_next h (t_head self) record))))"

definition reuse_tail :: "'k heap \<Rightarrow> Trace \<Rightarrow> 'k \<Rightarrow> (unit, 'k heap \<times> 'k \<times> nat) result" where
  "reuse_tail h self key =
    bind_result (deref h (t_tail self)) (\<lambda>tail.
    let record = r_prev tail in
    bind_result (to_front h self record) (\<lambda>h.
    bind_result (deref h record) (\<lambda>r.
    bind_result (read_key r) (\<lambda>old_key.
    result_map (\<lambda>h. (h, old_key, record)) (set_key h record key)))))"

text \<open>The loop of \<open>clear\<close>. None means that the given number of rounds was not enough.\<close>

fun clear_loop :: "nat \<Rightarrow> 'k heap \<Rightarrow> Trace \<Rightarrow> nat \<Rightarrow> (unit, 'k heap) result option" where
  "clear_loop n h self cur =
    (if cur = t_tail self then Some (Ok h)
     else case n of 0 \<Rightarrow> None
     | Suc m \<Rightarrow> (case bind_result (deref h cur) (\<lambda>r. bind_result (read_key r) (\<lambda>_. result_map (\<lambda>h. (h, r_next r)) (free h cur))) of
          Ok (h, tmp) \<Rightarrow> clear_loop m h self tmp
        | Err e \<Rightarrow> Some (Err e) | Panic \<Rightarrow> Some Panic | Undef \<Rightarrow> Some Undef))"

definition Trace_clear :: "nat \<Rightarrow> 'k heap \<Rightarrow> Trace \<Rightarrow> (unit, 'k heap) result option" where
  "Trace_clear n h self = (case deref h (t_head self) of
     Ok head \<Rightarrow> map_option (\<lambda>r. bind_result r (\<lambda>h. suture h (t_head self) (t_tail self))) (clear_loop n h self (r_next head))
   | Err e \<Rightarrow> Some (Err e) | Panic \<Rightarrow> Some Panic | Undef \<Rightarrow> Some Undef)"

definition remove_tail :: "'k heap \<Rightarrow> Trace \<Rightarrow> (unit, 'k heap \<times> 'k) result" where
  "remove_tail h self =
    bind_result (deref h (t_tail self)) (\<lambda>tail.
    let record = r_prev tail in
    bind_result (cut_out h record) (\<lambda>h.
    bind_result (deref h record) (\<lambda>r.
    bind_result (read_key r) (\<lambda>k. result_map (\<lambda>h. (h, k)) (free h record)))))"

section \<open>The cache\<close>

record 'v ValueEntry =
  e_value :: 'v
  e_record :: nat

record ('k, 'v) LruCache =
  c_map :: "('k \<times> 'v ValueEntry) list"
  c_trace :: Trace
  c_capacity :: nat

definition with_capacity_and_sample :: "'k heap \<Rightarrow> nat \<Rightarrow> u64 \<Rightarrow> (unit, 'k heap \<times> ('k, 'v) LruCache) result" where
  "with_capacity_and_sample h capacity sample_mask =
    (let capacity = (if capacity = 0 then 1 else capacity) in
     result_map (\<lambda>(h, trace). (h, \<lparr> c_map = [], c_trace = trace, c_capacity = capacity \<rparr>)) (Trace_new h sample_mask))"

definition with_capacity :: "'k heap \<Rightarrow> nat \<Rightarrow> (unit, 'k heap \<times> ('k, 'v) LruCache) result" where
  "with_capacity h capacity = with_capacity_and_sample h capacity 0"

definition LruCache_clear :: "nat \<Rightarrow> 'k heap \<Rightarrow> ('k, 'v) LruCache \<Rightarrow> (unit, 'k heap \<times> ('k, 'v) LruCache) result option" where
  "LruCache_clear n h self = map_option (result_map (\<lambda>h. (h, self\<lparr>c_map := []\<rparr>))) (Trace_clear n h (c_trace self))"

fun resize_loop :: "nat \<Rightarrow> 'k heap \<Rightarrow> ('k, 'v) LruCache \<Rightarrow> (unit, 'k heap \<times> ('k, 'v) LruCache) result" where
  "resize_loop 0 h self = Ok (h, self)"
| "resize_loop (Suc n) h self = bind_result (remove_tail h (c_trace self)) (\<lambda>(h, key).
    resize_loop n h (self\<lparr>c_map := AList.delete key (c_map self)\<rparr>))"

definition resize :: "'k heap \<Rightarrow> ('k, 'v) LruCache \<Rightarrow> nat \<Rightarrow> (unit, 'k heap \<times> ('k, 'v) LruCache) result" where
  "resize h self new_cap =
    (let new_cap = (if new_cap = 0 then 1 else new_cap) in
     result_map (\<lambda>(h, self). (h, self\<lparr>c_capacity := new_cap\<rparr>))
       (if new_cap < c_capacity self \<and> length (c_map self) > new_cap
        then resize_loop (length (c_map self) - new_cap) h self else Ok (h, self)))"

definition LruCache_insert :: "'k heap \<Rightarrow> ('k, 'v) LruCache \<Rightarrow> 'k \<Rightarrow> 'v \<Rightarrow> (unit, 'k heap \<times> ('k, 'v) LruCache) result" where
  "LruCache_insert h self key val =
    (let map_len = length (c_map self) in
     case map_of (c_map self) key of
       Some entry \<Rightarrow> result_map
         (\<lambda>h. (h, self\<lparr>c_map := AList.update key (entry\<lparr>e_value := val\<rparr>) (c_map self)\<rparr>))
         (promote h (c_trace self) (e_record entry))
     | None \<Rightarrow> bind_result
         (if c_capacity self = map_len
          then result_map (\<lambda>(h, o', r). (h, Some o', r)) (reuse_tail h (c_trace self) key)
          else result_map (\<lambda>(h, r). (h, None, r)) (Trace_create h (c_trace self) key))
         (\<lambda>(h, old_key, record).
           let m = AList.update key \<lparr> e_value = val, e_record = record \<rparr> (c_map self);
               m = (case old_key of Some o' \<Rightarrow> AList.delete o' m | None \<Rightarrow> m)
           in Ok (h, self\<lparr>c_map := m\<rparr>)))"

definition LruCache_remove :: "'k heap \<Rightarrow> ('k, 'v) LruCache \<Rightarrow> 'k \<Rightarrow> (unit, 'k heap \<times> ('k, 'v) LruCache \<times> 'v option) result" where
  "LruCache_remove h self key = (case map_of (c_map self) key of
     Some v \<Rightarrow> result_map (\<lambda>h. (h, self\<lparr>c_map := AList.delete key (c_map self)\<rparr>, Some (e_value v))) (Trace_delete h (e_record v))
   | None \<Rightarrow> Ok (h, self, None))"

definition LruCache_get :: "'k heap \<Rightarrow> ('k, 'v) LruCache \<Rightarrow> 'k \<Rightarrow> (unit, 'k heap \<times> ('k, 'v) LruCache \<times> 'v option) result" where
  "LruCache_get h self key = (case map_of (c_map self) key of
     Some v \<Rightarrow> result_map (\<lambda>(h, trace). (h, self\<lparr>c_trace := trace\<rparr>, Some (e_value v))) (maybe_promote h (c_trace self) (e_record v))
   | None \<Rightarrow> Ok (h, self, None))"

text \<open>\<open>get_mut\<close>, with what the caller does to the value.\<close>

definition LruCache_get_mut ::
  "'k heap \<Rightarrow> ('k, 'v) LruCache \<Rightarrow> 'k \<Rightarrow> ('v \<Rightarrow> 'v) \<Rightarrow> (unit, 'k heap \<times> ('k, 'v) LruCache \<times> 'v option) result" where
  "LruCache_get_mut h self key f = (case map_of (c_map self) key of
     Some v \<Rightarrow> result_map (\<lambda>(h, trace). (h, self\<lparr>c_trace := trace, c_map := AList.update key (v\<lparr>e_value := f (e_value v)\<rparr>) (c_map self)\<rparr>,
         Some (f (e_value v)))) (maybe_promote h (c_trace self) (e_record v))
   | None \<Rightarrow> Ok (h, self, None))"

definition LruCache_iter :: "('k, 'v) LruCache \<Rightarrow> ('k \<times> 'v) list" where
  "LruCache_iter self = map (\<lambda>(k, v). (k, e_value v)) (c_map self)"

section \<open>Linked lists in the heap\<close>

fun linked :: "'k cells \<Rightarrow> nat list \<Rightarrow> bool" where
  "linked c [] \<longleftrightarrow> True"
| "linked c [a] \<longleftrightarrow> c a \<noteq> None"
| "linked c (a # b # zs) \<longleftrightarrow> c a \<noteq> None \<and> r_next (the (c a)) = b \<and> r_prev (the (c b)) = a \<and> linked c (b # zs)"

lemma linked_append: "linked c (xs @ a # ys) \<longleftrightarrow> linked c (xs @ [a]) \<and> linked c (a # ys)"
proof (induction xs)
  case (Cons x xs)
  then show ?case by (cases xs; cases ys) auto
qed (cases ys, auto)

lemma linked_dom: "linked c zs \<Longrightarrow> z \<in> set zs \<Longrightarrow> c z \<noteq> None"
  by (induction c zs rule: linked.induct) auto

lemma linked_other: "x \<notin> set zs \<Longrightarrow> linked (c(x := v)) zs \<longleftrightarrow> linked c zs"
  by (induction c zs rule: linked.induct) auto

lemma linked_set_next:
  assumes "linked c (xs @ [a])" "a \<notin> set xs"
  shows "linked (c(a \<mapsto> (the (c a))\<lparr>r_next := b\<rparr>)) (xs @ [a])"
  using assms
proof (induction xs)
  case (Cons x xs)
  then show ?case by (cases xs) auto
qed simp

lemma linked_set_prev: "linked c (b # ys) \<Longrightarrow> b \<notin> set ys \<Longrightarrow> linked (c(b \<mapsto> (the (c b))\<lparr>r_prev := a\<rparr>)) (b # ys)"
  by (cases ys) (auto simp: linked_other)

definition sewn :: "'k cells \<Rightarrow> nat \<Rightarrow> nat \<Rightarrow> 'k cells" where
  "sewn c a b = (let c1 = c(a \<mapsto> (the (c a))\<lparr>r_next := b\<rparr>) in c1(b \<mapsto> (the (c1 b))\<lparr>r_prev := a\<rparr>))"

lemma deref_eq: "cells h a \<noteq> None \<Longrightarrow> deref h a = Ok (the (cells h a))"
  by (auto simp: deref_def)

lemma set_next_eq: "cells h a \<noteq> None \<Longrightarrow> set_next h a b = Ok (h\<lparr>cells := (cells h)(a \<mapsto> (the (cells h a))\<lparr>r_next := b\<rparr>)\<rparr>)"
  by (simp add: set_next_def deref_eq)

lemma set_prev_eq: "cells h a \<noteq> None \<Longrightarrow> set_prev h a b = Ok (h\<lparr>cells := (cells h)(a \<mapsto> (the (cells h a))\<lparr>r_prev := b\<rparr>)\<rparr>)"
  by (simp add: set_prev_def deref_eq)

lemma suture_eq: "cells h a \<noteq> None \<Longrightarrow> cells h b \<noteq> None \<Longrightarrow> suture h a b = Ok (h\<lparr>cells := sewn (cells h) a b\<rparr>)"
  by (auto simp: suture_def set_next_def set_prev_def deref_def sewn_def Let_def split: option.splits)

lemma sewn_None [simp]: "c a \<noteq> None \<Longrightarrow> c b \<noteq> None \<Longrightarrow> sewn c a b x = None \<longleftrightarrow> c x = None"
  by (auto simp: sewn_def Let_def)

lemma sewn_key [simp]: "c a \<noteq> None \<Longrightarrow> c b \<noteq> None \<Longrightarrow> r_key (the (sewn c a b x)) = r_key (the (c x))"
  by (auto simp: sewn_def Let_def)

lemma linked_sewn:
  assumes "linked c (xs @ [a])" "linked c (b # ys)" "distinct (xs @ a # b # ys)"
  shows "linked (sewn c a b) (xs @ a # b # ys)"
proof -
  let ?c1 = "c(a \<mapsto> (the (c a))\<lparr>r_next := b\<rparr>)"
  have "linked ?c1 (xs @ [a])" "linked ?c1 (b # ys)"
    using linked_set_next [OF assms(1)] assms by (auto simp: linked_other)
  then have "linked (sewn c a b) (xs @ [a])" "linked (sewn c a b) (b # ys)"
    unfolding sewn_def Let_def using linked_set_prev [of ?c1 b ys a] assms(3) by (auto simp: linked_other)
  then show ?thesis
    using assms(3) linked_dom [of "sewn c a b" "xs @ [a]" a] by (auto simp: linked_append [of _ xs a "b # ys"] sewn_def Let_def)
qed

lemma cut_out_spec:
  assumes "linked (cells h) (xs @ p # r # n # ys)" "distinct (xs @ p # r # n # ys)"
  shows "\<exists>c. cut_out h r = Ok (h\<lparr>cells := c\<rparr>) \<and> linked c (xs @ p # n # ys) \<and>
    (\<forall>x. (c x = None \<longleftrightarrow> cells h x = None) \<and> r_key (the (c x)) = r_key (the (cells h x)))"
proof -
  let ?c = "cells h"
  have l: "linked ?c (xs @ [p])" "linked ?c (p # r # n # ys)" using linked_append [of ?c xs p] assms(1) by blast+
  then have ends: "r_prev (the (?c r)) = p" "r_next (the (?c r)) = n" "?c r \<noteq> None" "?c p \<noteq> None" "linked ?c (n # ys)" by auto
  then have "?c n \<noteq> None" using linked_dom by fastforce
  then have "cut_out h r = Ok (h\<lparr>cells := sewn ?c p n\<rparr>)" using ends by (simp add: cut_out_def deref_eq suture_eq)
  moreover have "linked (sewn ?c p n) (xs @ p # n # ys)" using linked_sewn [OF l(1) ends(5)] assms(2) by auto
  ultimately show ?thesis using ends \<open>?c n \<noteq> None\<close> by (intro exI [of _ "sewn ?c p n"]) simp
qed

definition same_keys :: "'k cells \<Rightarrow> 'k cells \<Rightarrow> bool" where
  "same_keys c c' \<longleftrightarrow> (\<forall>x. (c' x = None \<longleftrightarrow> c x = None) \<and> r_key (the (c' x)) = r_key (the (c x)))"

lemma same_keys_dom: "same_keys c c' \<Longrightarrow> dom c' = dom c"
  by (simp add: same_keys_def dom_def)

lemma same_keys_trans: "same_keys a b \<Longrightarrow> same_keys b c \<Longrightarrow> same_keys a c"
  by (simp add: same_keys_def)

lemma same_keys_sewn: "c a \<noteq> None \<Longrightarrow> c b \<noteq> None \<Longrightarrow> same_keys c (sewn c a b)"
  by (simp add: same_keys_def)

lemma cut_out_list:
  assumes "linked (cells h) (u # xs @ r # ys @ [v])" "distinct (u # xs @ r # ys @ [v])"
  shows "\<exists>c. cut_out h r = Ok (h\<lparr>cells := c\<rparr>) \<and> linked c (u # xs @ ys @ [v]) \<and> same_keys (cells h) c"
proof -
  obtain ps p where p: "u # xs = ps @ [p]" by (metis append_butlast_last_id list.distinct(1))
  obtain n ns where n: "ys @ [v] = n # ns" by (metis list.exhaust snoc_eq_iff_butlast)
  have eq: "u # xs @ r # ys @ [v] = ps @ p # r # n # ns" "u # xs @ ys @ [v] = ps @ p # n # ns"
    using p n by (metis append_Cons append_assoc append_Nil)+
  show ?thesis using cut_out_spec [of h ps p r n ns] assms unfolding eq same_keys_def by blast
qed

lemma to_front_list:
  assumes "linked (cells h) (t_head t # xs @ r # ys @ [t_tail t])" "distinct (t_head t # xs @ r # ys @ [t_tail t])"
  shows "\<exists>c. to_front h t r = Ok (h\<lparr>cells := c\<rparr>) \<and> linked c (t_head t # r # xs @ ys @ [t_tail t]) \<and> same_keys (cells h) c"
proof -
  let ?u = "t_head t" and ?v = "t_tail t"
  obtain c1 where c1: "cut_out h r = Ok (h\<lparr>cells := c1\<rparr>)" "linked c1 (?u # xs @ ys @ [?v])" "same_keys (cells h) c1"
    using cut_out_list [OF assms] by blast
  obtain f fs where f: "xs @ ys @ [?v] = f # fs" by (cases "xs @ ys @ [?v]") auto
  have dist: "distinct (?u # r # f # fs)" using assms(2) f [symmetric] by auto
  have dom: "c1 r \<noteq> None" "c1 ?u \<noteq> None" "c1 f \<noteq> None" and nx: "r_next (the (c1 ?u)) = f" and l: "linked c1 (f # fs)"
    using c1(2,3) linked_dom [OF assms(1), of r] linked_dom [OF c1(2)] unfolding f same_keys_def by auto
  let ?c2 = "sewn c1 r f"
  let ?c3 = "sewn ?c2 ?u r"
  have "linked ?c2 (r # f # fs)" using linked_sewn [of c1 "[]" r f fs] dom l dist by simp
  then have "linked ?c3 (?u # r # f # fs)" using linked_sewn [of ?c2 "[]" ?u r "f # fs"] dom dist by simp
  moreover have "to_front h t r = Ok (h\<lparr>cells := ?c3\<rparr>)"
    using c1(1) dom nx by (simp add: to_front_def deref_eq suture_eq)
  moreover have "same_keys (cells h) ?c3" using c1(3) dom by (auto intro!: same_keys_trans [OF c1(3)] simp: same_keys_def)
  ultimately show ?thesis unfolding f by blast
qed

section \<open>What the list promises\<close>

definition trace_rel :: "'k heap \<Rightarrow> Trace \<Rightarrow> ('k \<times> nat) list \<Rightarrow> bool" where
  "trace_rel h t es \<longleftrightarrow> distinct (t_head t # map snd es @ [t_tail t]) \<and> linked (cells h) (t_head t # map snd es @ [t_tail t]) \<and>
    (\<forall>(k, r) \<in> set es. r_key (the (cells h r)) = Some k) \<and> (\<forall>x. cells h x \<noteq> None \<longrightarrow> x < fresh h) \<and>
    dom (cells h) = set (t_head t # map snd es @ [t_tail t])"

lemma trace_relI:
  assumes "distinct (t_head t # map snd es @ [t_tail t])" "linked c (t_head t # map snd es @ [t_tail t])"
    and "\<And>k r. (k, r) \<in> set es \<Longrightarrow> r_key (the (c r)) = Some k" "\<forall>x. c x \<noteq> None \<longrightarrow> x < n"
    and "dom c = set (t_head t # map snd es @ [t_tail t])"
  shows "trace_rel (h\<lparr>cells := c, fresh := n\<rparr>) t es"
proof -
  have "cells (h\<lparr>cells := c, fresh := n\<rparr>) = c" "fresh (h\<lparr>cells := c, fresh := n\<rparr>) = n" by simp_all
  then show ?thesis using assms unfolding trace_rel_def by auto
qed

lemma trace_rel_change:
  assumes "trace_rel h t es" "set es' \<subseteq> set es" "distinct (map snd es')" "linked c (t_head t # map snd es' @ [t_tail t])"
    and "dom c = set (t_head t # map snd es' @ [t_tail t])" "\<forall>(k, r) \<in> set es'. r_key (the (c r)) = r_key (the (cells h r))"
  shows "trace_rel (h\<lparr>cells := c\<rparr>) t es'"
proof -
  have "distinct (t_head t # map snd es' @ [t_tail t])" using assms(1-3) by (auto simp: trace_rel_def)
  moreover have "\<forall>(k, r) \<in> set es'. r_key (the (c r)) = Some k" using assms(1,2,6) by (fastforce simp: trace_rel_def)
  moreover have "dom c \<subseteq> dom (cells h)" using assms(1,2,5) unfolding trace_rel_def by auto
  then have "\<forall>x. c x \<noteq> None \<longrightarrow> x < fresh h" using assms(1) unfolding trace_rel_def dom_def by blast
  ultimately show ?thesis using assms(4,5) by (simp add: trace_rel_def)
qed

lemma trace_new_spec:
  assumes "cells h = Map.empty"
  shows "\<exists>h' t. Trace_new h sm = Ok (h', t) \<and> trace_rel h' t [] \<and> t_tick t = 0 \<and> t_sample_mask t = sm"
  using assms by (simp add: Trace_new_def box_new_def suture_eq trace_rel_def sewn_def less_Suc_eq insert_commute)

lemma to_front_spec:
  assumes "trace_rel h t (xs @ (k, r) # ys)"
  shows "\<exists>h'. to_front h t r = Ok h' \<and> trace_rel h' t ((k, r) # xs @ ys)"
proof -
  obtain c where "to_front h t r = Ok (h\<lparr>cells := c\<rparr>)" "linked c (t_head t # r # map snd xs @ map snd ys @ [t_tail t])" "same_keys (cells h) c"
    using to_front_list [of h t "map snd xs" r "map snd ys"] assms by (auto simp: trace_rel_def)
  moreover from this have "trace_rel (h\<lparr>cells := c\<rparr>) t ((k, r) # xs @ ys)"
  proof (intro trace_rel_change [OF assms])
    show "distinct (map snd ((k, r) # xs @ ys))" using assms by (auto simp: trace_rel_def)
    show "dom c = set (t_head t # map snd ((k, r) # xs @ ys) @ [t_tail t])"
      using assms same_keys_dom [OF \<open>same_keys (cells h) c\<close>] by (auto simp: trace_rel_def)
  qed (auto simp: same_keys_dom, auto simp: same_keys_def)
  ultimately show ?thesis by blast
qed

lemma trace_rel_key: "trace_rel h t es \<Longrightarrow> (k, r) \<in> set es \<Longrightarrow> cells h r \<noteq> None \<and> r_key (the (cells h r)) = Some k"
  using linked_dom [of "cells h" "t_head t # map snd es @ [t_tail t]" r] imageI [of "(k, r)" "set es" snd]
  unfolding trace_rel_def by auto

lemma trace_cut_spec:
  assumes "trace_rel h t (xs @ (k, r) # ys)"
  shows "\<exists>c. cut_out h r = Ok (h\<lparr>cells := c\<rparr>) \<and> c r \<noteq> None \<and> r_key (the (c r)) = Some k \<and>
    trace_rel (h\<lparr>cells := c(r := None)\<rparr>) t (xs @ ys)"
proof -
  obtain c where c: "cut_out h r = Ok (h\<lparr>cells := c\<rparr>)" "linked c (t_head t # map snd xs @ map snd ys @ [t_tail t])" "same_keys (cells h) c"
    using cut_out_list [of h "t_head t" "map snd xs" r "map snd ys" "t_tail t"] assms by (auto simp: trace_rel_def)
  have "c r \<noteq> None \<and> r_key (the (c r)) = Some k"
    using trace_rel_key [OF assms, of k r] c(3) by (simp add: same_keys_def)
  moreover have "trace_rel (h\<lparr>cells := c(r := None)\<rparr>) t (xs @ ys)"
  proof (rule trace_rel_change [OF assms])
    have new: "r \<notin> set (t_head t # map snd (xs @ ys) @ [t_tail t])" "distinct (map snd (xs @ ys))"
      using assms by (auto simp: trace_rel_def)
    show "linked (c(r := None)) (t_head t # map snd (xs @ ys) @ [t_tail t])" using c(2) new by (simp add: linked_other)
    show "\<forall>(k', r') \<in> set (xs @ ys). r_key (the ((c(r := None)) r')) = r_key (the (cells h r'))"
      using c(3) new(1) unfolding same_keys_def by (metis (mono_tags, lifting) UnCI case_prodI2 fun_upd_other image_eqI list.set_intros(2) list.set_map set_append snd_conv)
    show "distinct (map snd (xs @ ys))" by (rule new)
    show "dom (c(r := None)) = set (t_head t # map snd (xs @ ys) @ [t_tail t])"
      using same_keys_dom [OF c(3)] assms unfolding trace_rel_def by auto
  qed auto
  ultimately show ?thesis using c(1) by blast
qed

lemma trace_delete_spec:
  assumes "trace_rel h t (xs @ (k, r) # ys)"
  shows "\<exists>h'. Trace_delete h r = Ok h' \<and> trace_rel h' t (xs @ ys)"
  using trace_cut_spec [OF assms] by (auto simp: Trace_delete_def deref_def read_key_def free_def)

lemma trace_create_spec:
  assumes "trace_rel h t es"
  shows "\<exists>h' r. Trace_create h t k = Ok (h', r) \<and> trace_rel h' t ((k, r) # es)"
proof -
  let ?a = "fresh h" and ?u = "t_head t"
  obtain f fs where f: "map snd es @ [t_tail t] = f # fs" by (cases "map snd es @ [t_tail t]") auto
  have l: "linked (cells h) (?u # f # fs)" "distinct (?u # f # fs)" and bound: "\<forall>x. cells h x \<noteq> None \<longrightarrow> x < ?a"
    using assms unfolding trace_rel_def f by auto
  have dom: "cells h ?u \<noteq> None" "cells h f \<noteq> None" "cells h ?a = None" using linked_dom [OF l(1)] bound by auto
  have new: "?a \<notin> set (?u # f # fs)" using linked_dom [OF l(1)] dom(3) by blast
  let ?c1 = "(cells h)(?a \<mapsto> \<lparr> r_prev = ?u, r_next = f, r_key = Some k \<rparr>)"
  let ?c2 = "?c1(f \<mapsto> (the (?c1 f))\<lparr>r_prev := ?a\<rparr>)"
  let ?c3 = "?c2(?u \<mapsto> (the (?c2 ?u))\<lparr>r_next := ?a\<rparr>)"
  have "linked ?c1 (f # fs)" using l new by (simp add: linked_other del: fun_upd_apply)
  then have "linked ?c2 (f # fs)" using linked_set_prev [of ?c1 f fs ?a] l(2) by simp
  then have "linked ?c3 (f # fs)" using l(2) by (simp add: linked_other del: fun_upd_apply)
  then have li: "linked ?c3 (?u # ?a # f # fs)" using new l(2) by auto
  have tc: "Trace_create h t k = Ok (h\<lparr>cells := ?c3, fresh := Suc ?a\<rparr>, ?a)"
  proof -
    have "r_next (the (cells h ?u)) = f" "?u \<noteq> ?a" "f \<noteq> ?a" "f \<noteq> ?u" using l new by auto
    then show ?thesis using dom(1,2) by (simp add: Trace_create_def box_new_def deref_eq set_prev_eq set_next_eq)
  qed
  have keys: "r_key (the (?c3 r)) = Some k'" if "(k', r) \<in> set es" for k' r
  proof -
    have "r \<in> set (f # fs)" using that f by (metis UnI1 image_eqI set_append set_map snd_conv)
    then show ?thesis using assms that new l(2) unfolding trace_rel_def by auto
  qed
  have bd: "\<forall>x. ?c3 x \<noteq> None \<longrightarrow> x < Suc ?a" using bound linked_dom [OF l(1), of f] linked_dom [OF l(1), of ?u]
    by (auto simp: less_Suc_eq)
  have ka: "r_key (the (?c3 ?a)) = Some k" and di: "distinct (?u # ?a # f # fs)" using new l(2) by auto
  have "trace_rel (h\<lparr>cells := ?c3, fresh := Suc ?a\<rparr>) t ((k, ?a) # es)"
  proof (rule trace_relI)
    show "distinct (?u # map snd ((k, ?a) # es) @ [t_tail t])" using di f by simp
    show "linked ?c3 (?u # map snd ((k, ?a) # es) @ [t_tail t])" using li by (simp only: f list.map append_Cons snd_conv)
    have "dom (cells h) = set (?u # f # fs)" using assms f [symmetric] unfolding trace_rel_def by simp
    then show "dom ?c3 = set (?u # map snd ((k, ?a) # es) @ [t_tail t])" by (simp add: f) blast
    fix k' r assume "(k', r) \<in> set ((k, ?a) # es)"
    then show "r_key (the (?c3 r)) = Some k'" using ka keys by (metis Pair_inject set_ConsD)
  qed (fact bd)
  then show ?thesis using tc by blast
qed

lemma linked_last: "linked c (u # xs @ [r, v]) \<Longrightarrow> r_prev (the (c v)) = r \<and> c v \<noteq> None"
  using linked_append [of c "u # xs" r "[v]"] by simp

lemma tail_of_trace: "trace_rel h t (ys @ [(k, r)]) \<Longrightarrow> deref h (t_tail t) = Ok (the (cells h (t_tail t))) \<and> r_prev (the (cells h (t_tail t))) = r"
  using linked_last [of "cells h" "t_head t" "map snd ys" r "t_tail t"] by (simp add: trace_rel_def deref_eq)

lemma linked_set_key: "cells h r \<noteq> None \<Longrightarrow>
    linked ((cells h)(r \<mapsto> (the (cells h r))\<lparr>r_key := k\<rparr>)) zs \<longleftrightarrow> linked (cells h) zs"
  by (induction "cells h" zs rule: linked.induct) auto

lemma trace_rel_set_key:
  assumes "trace_rel h t ((k0, r) # es)"
  shows "set_key h r k = Ok (h\<lparr>cells := (cells h)(r \<mapsto> (the (cells h r))\<lparr>r_key := Some k\<rparr>)\<rparr>) \<and>
    trace_rel (h\<lparr>cells := (cells h)(r \<mapsto> (the (cells h r))\<lparr>r_key := Some k\<rparr>)\<rparr>) t ((k, r) # es)"
proof -
  have r: "cells h r \<noteq> None" using trace_rel_key [OF assms, of k0 r] by simp
  let ?c = "(cells h)(r \<mapsto> (the (cells h r))\<lparr>r_key := Some k\<rparr>)"
  have "trace_rel (h\<lparr>cells := ?c, fresh := fresh h\<rparr>) t ((k, r) # es)"
  proof (rule trace_relI)
    show "distinct (t_head t # map snd ((k, r) # es) @ [t_tail t])" using assms by (simp add: trace_rel_def)
    show "linked ?c (t_head t # map snd ((k, r) # es) @ [t_tail t])"
      using assms unfolding linked_set_key [OF r] by (simp add: trace_rel_def)
    show "\<forall>x. ?c x \<noteq> None \<longrightarrow> x < fresh h" using assms r by (simp add: trace_rel_def)
    show "dom ?c = set (t_head t # map snd ((k, r) # es) @ [t_tail t])" using assms by (auto simp: trace_rel_def)
    fix k' r' assume kr: "(k', r') \<in> set ((k, r) # es)"
    show "r_key (the (?c r')) = Some k'"
    proof (cases "r' = r")
      case True
      then have "(k', r') \<notin> set es" using assms imageI [of "(k', r')" "set es" snd] by (auto simp: trace_rel_def)
      then show ?thesis using True kr by simp
    next
      case False
      then show ?thesis using trace_rel_key [OF assms, of k' r'] kr by auto
    qed
  qed
  then show ?thesis using r by (simp add: set_key_def deref_eq)
qed

lemma reuse_tail_spec:
  assumes "trace_rel h t (ys @ [(k0, r)])"
  shows "\<exists>h'. reuse_tail h t k = Ok (h', k0, r) \<and> trace_rel h' t ((k, r) # ys)"
proof -
  obtain h1 where h1: "to_front h t r = Ok h1" "trace_rel h1 t ((k0, r) # ys)" using to_front_spec [of h t ys k0 r "[]"] assms by auto
  then show ?thesis using tail_of_trace [OF assms] trace_rel_key [OF h1(2), of k0 r] trace_rel_set_key [OF h1(2), of k]
    by (simp add: reuse_tail_def deref_eq read_key_def)
qed

lemma remove_tail_spec:
  assumes "trace_rel h t (ys @ [(k0, r)])"
  shows "\<exists>h'. remove_tail h t = Ok (h', k0) \<and> trace_rel h' t ys"
  using trace_cut_spec [of h t ys k0 r "[]"] assms tail_of_trace [OF assms]
  by (auto simp: remove_tail_def deref_def read_key_def free_def)

declare clear_loop.simps [simp del]

lemma clear_loop_spec:
  assumes "linked (cells h) (map snd es @ [t_tail t])" "distinct (map snd es @ [t_tail t])"
    and "\<forall>(k, r) \<in> set es. r_key (the (cells h r)) = Some k" "length es \<le> n"
  shows "\<exists>c. clear_loop n h t (hd (map snd es @ [t_tail t])) = Some (Ok (h\<lparr>cells := c\<rparr>)) \<and>
    (\<forall>x. c x = (if x \<in> snd ` set es then None else cells h x))"
  using assms
proof (induction es arbitrary: h n)
  case Nil
  then show ?case by (intro exI [of _ "cells h"]) (simp add: clear_loop.simps)
next
  case (Cons e es)
  obtain k r where e: "e = (k, r)" by fastforce
  obtain m where n: "n = Suc m" using Cons.prems(4) by (cases n) auto
  let ?h = "h\<lparr>cells := (cells h)(r := None)\<rparr>"
  have new: "r \<notin> set (map snd es @ [t_tail t])" using Cons.prems(2) e by simp
  have l: "linked (cells h) (map snd es @ [t_tail t])" "r_next (the (cells h r)) = hd (map snd es @ [t_tail t])" "cells h r \<noteq> None"
    using Cons.prems(1) e by (cases "map snd es @ [t_tail t]"; auto)+
  have "r' \<noteq> r" if "(k', r') \<in> set es" for k' r' using new imageI [OF that, of snd] by auto
  then have keys: "\<forall>(k', r') \<in> set es. r_key (the (cells ?h r')) = Some k'" using Cons.prems(3) by auto
  have "\<exists>c. clear_loop m ?h t (hd (map snd es @ [t_tail t])) = Some (Ok (?h\<lparr>cells := c\<rparr>)) \<and>
      (\<forall>x. c x = (if x \<in> snd ` set es then None else cells ?h x))" (is "\<exists>c. ?P c")
  proof (intro Cons.IH keys)
    show "linked (cells ?h) (map snd es @ [t_tail t])" using l(1) linked_other [OF new, of "cells h" None] by simp
  qed (use Cons.prems(2,4) e n in simp_all)
  then obtain c where c: "?P c" by blast
  moreover have "clear_loop n h t r = clear_loop m ?h t (hd (map snd es @ [t_tail t]))"
    using new l(2,3) Cons.prems(3) unfolding n clear_loop.simps [of "Suc m"] by (simp add: e deref_eq read_key_def free_def)
  ultimately have "clear_loop n h t r = Some (Ok (h\<lparr>cells := c\<rparr>))" by simp
  moreover have "\<forall>x. c x = (if x \<in> snd ` set (e # es) then None else cells h x)" using c e by simp
  ultimately show ?case unfolding e list.map append_Cons list.sel snd_conv by blast
qed

lemma trace_clear_spec:
  assumes "trace_rel h t es" "length es \<le> n"
  shows "\<exists>h'. Trace_clear n h t = Some (Ok h') \<and> trace_rel h' t []"
proof -
  let ?u = "t_head t" and ?v = "t_tail t"
  have t: "distinct (?u # map snd es @ [?v])" "linked (cells h) (?u # map snd es @ [?v])"
    using assms(1) by (auto simp: trace_rel_def)
  obtain f fs where f: "map snd es @ [?v] = f # fs" by (cases "map snd es @ [?v]") auto
  have l: "linked (cells h) (map snd es @ [?v])" "r_next (the (cells h ?u)) = f" "cells h ?u \<noteq> None"
    using t(2) unfolding f by simp_all
  obtain c where c: "clear_loop n h t f = Some (Ok (h\<lparr>cells := c\<rparr>))" "\<forall>x. c x = (if x \<in> snd ` set es then None else cells h x)"
    using clear_loop_spec [OF l(1), of n] t(1) assms f by (auto simp: trace_rel_def)
  have dh: "dom (cells h) = insert ?u (insert ?v (snd ` set es))" using assms(1) by (simp add: trace_rel_def insert_commute)
  have "dom c = dom (cells h) - snd ` set es" using c(2) by (auto simp: dom_def)
  then have dc: "dom c = {?u, ?v}" using dh t(1) by auto
  then have u: "c ?u \<noteq> None" "c ?v \<noteq> None" by blast+
  have ds: "dom (sewn c ?u ?v) = {?u, ?v}" using dc by (auto simp: sewn_def Let_def)
  have "trace_rel (h\<lparr>cells := sewn c ?u ?v, fresh := fresh h\<rparr>) t []"
  proof (rule trace_relI)
    show "linked (sewn c ?u ?v) (?u # map snd [] @ [?v])" using linked_sewn [of c "[]" ?u ?v "[]"] u t(1) by simp
    show "dom (sewn c ?u ?v) = set (?u # map snd [] @ [?v])" using ds by simp
    have "?u < fresh h" "?v < fresh h" using assms(1) dh unfolding trace_rel_def by blast+
    then show "\<forall>x. sewn c ?u ?v x \<noteq> None \<longrightarrow> x < fresh h" using ds by (metis domIff empty_iff insertE)
  qed (use t(1) in simp_all)
  then show ?thesis using c(1) l(2,3) u by (simp add: Trace_clear_def deref_eq suture_eq)
qed

section \<open>What the cache promises\<close>

text \<open>The entries, most recently used first, and how the two structures hold them.\<close>

definition records :: "('k \<times> 'v ValueEntry) list \<Rightarrow> ('k \<times> nat) list" where
  "records es = map (\<lambda>(k, e). (k, e_record e)) es"

definition contents :: "('k \<times> 'v ValueEntry) list \<Rightarrow> ('k \<times> 'v) list" where
  "contents es = map (\<lambda>(k, e). (k, e_value e)) es"

definition cache_rel :: "'k heap \<Rightarrow> ('k, 'v) LruCache \<Rightarrow> ('k \<times> 'v ValueEntry) list \<Rightarrow> bool" where
  "cache_rel h c es \<longleftrightarrow> trace_rel h (c_trace c) (records es) \<and> distinct (map fst es) \<and> distinct (map fst (c_map c)) \<and>
    map_of (c_map c) = map_of es \<and> length es \<le> c_capacity c \<and> 0 < c_capacity c"

text \<open>The promise: entries in order of their last use, the last of them leaving when a new key finds the cache full.\<close>

record ('k, 'v) lru =
  items :: "('k \<times> 'v) list"
  room :: nat
  uses :: u64

definition others :: "'k \<Rightarrow> ('k \<times> 'v) list \<Rightarrow> ('k \<times> 'v) list" where
  "others k xs = filter (\<lambda>(k', _). k' \<noteq> k) xs"

datatype ('k, 'v) lru_op = Insert 'k 'v | Get 'k | Get_mut 'k "'v \<Rightarrow> 'v" | Remove 'k | Resize nat | Clear

fun lru_step :: "u64 \<Rightarrow> ('k, 'v) lru \<Rightarrow> ('k, 'v) lru_op \<Rightarrow> ('k, 'v) lru \<times> 'v option" where
  "lru_step sm s (Insert k v) = (s\<lparr>items := (k, v) #
     (if map_of (items s) k = None \<and> length (items s) = room s then butlast (items s) else others k (items s))\<rparr>, None)"
| "lru_step sm s (Get k) = (case map_of (items s) k of None \<Rightarrow> (s, None)
   | Some v \<Rightarrow> (s\<lparr>items := (if (uses s + 1) AND sm = 0 then (k, v) # others k (items s) else items s), uses := uses s + 1\<rparr>, Some v))"
| "lru_step sm s (Get_mut k f) = (case map_of (items s) k of None \<Rightarrow> (s, None)
   | Some v \<Rightarrow> (s\<lparr>items := (if (uses s + 1) AND sm = 0 then (k, f v) # others k (items s)
        else map (\<lambda>(k', v'). (k', if k' = k then f v' else v')) (items s)), uses := uses s + 1\<rparr>, Some (f v)))"
| "lru_step sm s (Remove k) = (s\<lparr>items := others k (items s)\<rparr>, map_of (items s) k)"
| "lru_step sm s (Resize n) = (s\<lparr>items := take (max 1 n) (items s), room := max 1 n\<rparr>, None)"
| "lru_step sm s Clear = (s\<lparr>items := []\<rparr>, None)"

text \<open>The calls on the cache itself. \<open>clear\<close> gets as many rounds as the map has entries.\<close>

fun cache_step :: "'k heap \<Rightarrow> ('k, 'v) LruCache \<Rightarrow> ('k, 'v) lru_op \<Rightarrow> (unit, 'k heap \<times> ('k, 'v) LruCache \<times> 'v option) result option" where
  "cache_step h c (Insert k v) = Some (result_map (\<lambda>(h, c). (h, c, None)) (LruCache_insert h c k v))"
| "cache_step h c (Get k) = Some (LruCache_get h c k)"
| "cache_step h c (Get_mut k f) = Some (LruCache_get_mut h c k f)"
| "cache_step h c (Remove k) = Some (LruCache_remove h c k)"
| "cache_step h c (Resize n) = Some (result_map (\<lambda>(h, c). (h, c, None)) (resize h c n))"
| "cache_step h c Clear = map_option (result_map (\<lambda>(h, c). (h, c, None))) (LruCache_clear (length (c_map c)) h c)"

lemma cache_len: "cache_rel h c es \<Longrightarrow> length (c_map c) = length es"
  unfolding cache_rel_def by (metis distinct_card dom_map_of_conv_image_fst length_map set_map)

lemma cache_split:
  assumes "cache_rel h c es" "map_of (c_map c) k = Some e"
  obtains xs ys where "es = xs @ (k, e) # ys" "k \<notin> fst ` set xs" "k \<notin> fst ` set ys"
proof -
  have "(k, e) \<in> set es" using assms by (auto simp: cache_rel_def dest: map_of_SomeD)
  then obtain xs ys where "es = xs @ (k, e) # ys" by (meson split_list)
  then show ?thesis using that assms(1) by (auto simp: cache_rel_def)
qed

lemma others_other [simp]: "k \<notin> fst ` set xs \<Longrightarrow> others k xs = xs"
  unfolding others_def by (rule filter_True) force

lemma others_simps [simp]: "others k (xs @ ys) = others k xs @ others k ys" "others k ((k', v) # xs) = (if k' = k then others k xs else (k', v) # others k xs)"
  "others k [] = []"
  by (simp_all add: others_def)

lemma contents_simps [simp]: "contents (xs @ ys) = contents xs @ contents ys" "contents ((k, e) # xs) = (k, e_value e) # contents xs"
  "contents [] = []" "fst ` set (contents xs) = fst ` set xs" "length (contents xs) = length xs"
  by (auto simp: contents_def image_image case_prod_unfold)

lemma records_simps [simp]: "records (xs @ ys) = records xs @ records ys" "records ((k, e) # xs) = (k, e_record e) # records xs"
  "records [] = []" "length (records xs) = length xs"
  by (simp_all add: records_def)

lemma map_of_contents: "map_of (contents es) k = map_option e_value (map_of es k)"
  by (induction es) auto

lemma map_of_in_place: "k \<notin> fst ` set xs \<Longrightarrow> map_of (xs @ (k, e') # ys) = (map_of (xs @ (k, e) # ys))(k \<mapsto> e')"
  by (induction xs) auto

lemma cache_set_value:
  assumes "cache_rel h c (xs @ (k, e) # ys)"
  shows "cache_rel h (c\<lparr>c_map := AList.update k (e\<lparr>e_value := v\<rparr>) (c_map c)\<rparr>) (xs @ (k, e\<lparr>e_value := v\<rparr>) # ys)"
proof -
  have "k \<notin> fst ` set xs" using assms by (auto simp: cache_rel_def)
  from map_of_in_place [OF this, of "e\<lparr>e_value := v\<rparr>" ys e] show ?thesis using assms
    by (simp add: cache_rel_def update_conv' distinct_update)
qed

lemma cache_to_front:
  assumes "cache_rel h c (xs @ (k, e) # ys)"
  shows "\<exists>h'. to_front h (c_trace c) (e_record e) = Ok h' \<and> cache_rel h' c ((k, e) # xs @ ys)"
proof -
  have d: "distinct (map fst (xs @ (k, e) # ys))" "distinct (map fst ((k, e) # xs @ ys))" using assms by (auto simp: cache_rel_def)
  have "map_of (xs @ (k, e) # ys) = map_of ((k, e) # xs @ ys)" by (rule map_of_inject_set [THEN iffD2, OF d]) auto
  then show ?thesis using to_front_spec [of h "c_trace c" "records xs" k "e_record e" "records ys"] assms d(2)
    by (auto simp: cache_rel_def)
qed

lemma map_of_drop:
  assumes "k \<notin> fst ` set xs" "k \<notin> fst ` set ys"
  shows "map_of (xs @ ys) = (map_of (xs @ (k, e) # ys))(k := None)"
  using assms by (induction xs) (auto simp: map_of_eq_None_iff)

lemma cache_drop_key:
  assumes "cache_rel h c (xs @ (k, e) # ys)" "trace_rel h' (c_trace c) (records (xs @ ys))"
  shows "cache_rel h' (c\<lparr>c_map := AList.delete k (c_map c)\<rparr>) (xs @ ys)"
proof -
  have d: "k \<notin> fst ` set xs" "k \<notin> fst ` set ys" using assms by (auto simp: cache_rel_def)
  show ?thesis using assms map_of_drop [OF d, of e] by (auto simp: cache_rel_def delete_conv' distinct_delete)
qed

lemma cache_tick: "cache_rel h (c\<lparr>c_trace := (c_trace c)\<lparr>t_tick := n\<rparr>\<rparr>) es \<longleftrightarrow> cache_rel h c es"
  by (simp add: cache_rel_def trace_rel_def)

section \<open>Each call keeps the promise\<close>

definition lru_of :: "('k, 'v) LruCache \<Rightarrow> ('k \<times> 'v ValueEntry) list \<Rightarrow> ('k, 'v) lru" where
  "lru_of c es = \<lparr> items = contents es, room = c_capacity c, uses = t_tick (c_trace c) \<rparr>"

definition keeps :: "'k heap \<Rightarrow> ('k, 'v) LruCache \<Rightarrow> ('k \<times> 'v ValueEntry) list \<Rightarrow> ('k, 'v) lru_op \<Rightarrow> bool" where
  "keeps h c es op \<longleftrightarrow> (\<exists>h' c' es' out. cache_step h c op = Some (Ok (h', c', out)) \<and> cache_rel h' c' es' \<and>
     lru_step (t_sample_mask (c_trace c)) (lru_of c es) op = (lru_of c' es', out) \<and>
     t_sample_mask (c_trace c') = t_sample_mask (c_trace c))"

lemma keepsI:
  assumes "cache_rel h' c' es'" "cache_step h c op = Some (Ok (h', c', out))"
    and "lru_step (t_sample_mask (c_trace c)) (lru_of c es) op = (lru_of c' es', out)" "t_sample_mask (c_trace c') = t_sample_mask (c_trace c)"
  shows "keeps h c es op"
  using assms unfolding keeps_def by blast

lemma insert_present:
  assumes rel: "cache_rel h c es" and k: "map_of (c_map c) k = Some e"
  shows "keeps h c es (Insert k v)"
proof -
  obtain xs ys where es: "es = xs @ (k, e) # ys" "k \<notin> fst ` set xs" "k \<notin> fst ` set ys" using cache_split [OF rel k] .
  obtain h' where h': "to_front h (c_trace c) (e_record e) = Ok h'" "cache_rel h' c ([] @ (k, e) # xs @ ys)"
    using cache_to_front [of h c xs k e ys] rel es(1) by auto
  have "map_of (contents es) k \<noteq> None" using es(1) by (auto simp: map_of_contents)
  with h'(1) k es show ?thesis
    by (intro keepsI [OF cache_set_value [OF h'(2), of v]]) (simp_all add: LruCache_insert_def promote_def lru_of_def)
qed

lemma cache_absent: "cache_rel h c es \<Longrightarrow> map_of (c_map c) k = None \<Longrightarrow> k \<notin> fst ` set es"
  by (simp add: cache_rel_def map_of_eq_None_iff)

lemma insert_full:
  assumes rel: "cache_rel h c es" and k: "map_of (c_map c) k = None" and full: "length es = c_capacity c"
  shows "keeps h c es (Insert k v)"
proof -
  obtain ys k0 e0 where es: "es = ys @ [(k0, e0)]" using rel full by (cases es rule: rev_cases) (auto simp: cache_rel_def)
  have new: "k \<notin> fst ` set es" by (rule cache_absent [OF rel k])
  have d: "k0 \<notin> fst ` set ys" "distinct (map fst ys)" using rel es by (auto simp: cache_rel_def)
  obtain h' where h': "reuse_tail h (c_trace c) k = Ok (h', k0, e_record e0)" "trace_rel h' (c_trace c) ((k, e_record e0) # records ys)"
    using reuse_tail_spec [of h "c_trace c" "records ys" k0 "e_record e0" k] rel es by (auto simp: cache_rel_def)
  let ?e = "\<lparr> e_value = v, e_record = e_record e0 \<rparr>"
  let ?m = "AList.delete k0 (AList.update k ?e (c_map c))"
  have "map_of ?m = ((map_of es)(k0 := None))(k \<mapsto> ?e)" using new es rel
    by (auto simp: cache_rel_def delete_conv' update_conv')
  then have "map_of ?m = map_of ((k, ?e) # ys)" using map_of_drop [of k0 ys "[]" e0] d(1) es by simp
  then have rel': "cache_rel h' (c\<lparr>c_map := ?m\<rparr>) ((k, ?e) # ys)" using h'(2) rel new es d(2)
    by (auto simp: cache_rel_def distinct_update distinct_delete)
  have "map_of (contents es) k = None" using new by (simp add: map_of_contents map_of_eq_None_iff)
  then show ?thesis using h'(1) k full cache_len [OF rel] es
    by (intro keepsI [OF rel']) (simp_all add: LruCache_insert_def lru_of_def butlast_append)
qed

lemma insert_room:
  assumes rel: "cache_rel h c es" and k: "map_of (c_map c) k = None" and room: "length es \<noteq> c_capacity c"
  shows "keeps h c es (Insert k v)"
proof -
  have new: "k \<notin> fst ` set es" by (rule cache_absent [OF rel k])
  obtain h' r where h': "Trace_create h (c_trace c) k = Ok (h', r)" "trace_rel h' (c_trace c) ((k, r) # records es)"
    using trace_create_spec [of h "c_trace c" "records es" k] rel by (auto simp: cache_rel_def)
  let ?e = "\<lparr> e_value = v, e_record = r \<rparr>"
  have rel': "cache_rel h' (c\<lparr>c_map := AList.update k ?e (c_map c)\<rparr>) ((k, ?e) # es)" using h'(2) rel new room
    by (auto simp: cache_rel_def distinct_update update_conv')
  show ?thesis using h'(1) k room cache_len [OF rel] new
    by (intro keepsI [OF rel']) (auto simp: LruCache_insert_def lru_of_def)
qed

lemma maybe_promote_spec:
  assumes "cache_rel h c (xs @ (k, e) # ys)"
  shows "\<exists>h'. maybe_promote h (c_trace c) (e_record e) = Ok (h', (c_trace c)\<lparr>t_tick := t_tick (c_trace c) + 1\<rparr>) \<and>
    cache_rel h' (c\<lparr>c_trace := (c_trace c)\<lparr>t_tick := t_tick (c_trace c) + 1\<rparr>\<rparr>)
      (if (t_tick (c_trace c) + 1) AND t_sample_mask (c_trace c) = 0 then (k, e) # xs @ ys else xs @ (k, e) # ys)"
proof -
  have "to_front h (t\<lparr>t_tick := n\<rparr>) r = to_front h t r" for t n r by (simp add: to_front_def)
  then show ?thesis using cache_to_front [OF assms] assms by (auto simp: maybe_promote_def promote_def Let_def cache_tick)
qed

lemma get_keeps:
  assumes rel: "cache_rel h c es"
  shows "keeps h c es (Get k)"
proof (cases "map_of (c_map c) k")
  case None
  then show ?thesis using rel by (intro keepsI [OF rel]) (auto simp: LruCache_get_def lru_of_def map_of_contents cache_rel_def)
next
  case (Some e)
  obtain xs ys where es: "es = xs @ (k, e) # ys" "k \<notin> fst ` set xs" "k \<notin> fst ` set ys" using cache_split [OF rel Some] .
  have k: "map_of (contents es) k = Some (e_value e)" using Some rel by (simp add: map_of_contents cache_rel_def)
  obtain h' where h': "maybe_promote h (c_trace c) (e_record e) = Ok (h', (c_trace c)\<lparr>t_tick := t_tick (c_trace c) + 1\<rparr>)"
    "cache_rel h' (c\<lparr>c_trace := (c_trace c)\<lparr>t_tick := t_tick (c_trace c) + 1\<rparr>\<rparr>)
      (if (t_tick (c_trace c) + 1) AND t_sample_mask (c_trace c) = 0 then (k, e) # xs @ ys else xs @ (k, e) # ys)"
    using maybe_promote_spec [of h c xs k e ys] rel es(1) by auto
  show ?thesis using h'(1) Some k es by (intro keepsI [OF h'(2)]) (simp_all add: LruCache_get_def lru_of_def)
qed

lemma get_mut_keeps:
  assumes rel: "cache_rel h c es"
  shows "keeps h c es (Get_mut k f)"
proof (cases "map_of (c_map c) k")
  case None
  then show ?thesis using rel by (intro keepsI [OF rel]) (auto simp: LruCache_get_mut_def lru_of_def map_of_contents cache_rel_def)
next
  case (Some e)
  obtain xs ys where es: "es = xs @ (k, e) # ys" "k \<notin> fst ` set xs" "k \<notin> fst ` set ys" using cache_split [OF rel Some] .
  have k: "map_of (contents es) k = Some (e_value e)" using Some rel by (simp add: map_of_contents cache_rel_def)
  let ?c = "c\<lparr>c_trace := (c_trace c)\<lparr>t_tick := t_tick (c_trace c) + 1\<rparr>\<rparr>" and ?e = "e\<lparr>e_value := f (e_value e)\<rparr>"
  let ?p = "(t_tick (c_trace c) + 1) AND t_sample_mask (c_trace c) = 0"
  obtain h' where h': "maybe_promote h (c_trace c) (e_record e) = Ok (h', c_trace ?c)"
    "cache_rel h' ?c (if ?p then (k, e) # xs @ ys else xs @ (k, e) # ys)"
    using maybe_promote_spec [of h c xs k e ys] rel es(1) by auto
  have "cache_rel h' (?c\<lparr>c_map := AList.update k ?e (c_map ?c)\<rparr>) ((if ?p then [] else xs) @ (k, ?e) # (if ?p then xs @ ys else ys))"
    using h'(2) by (intro cache_set_value) (auto split: if_splits)
  then have rel': "cache_rel h' (?c\<lparr>c_map := AList.update k ?e (c_map c)\<rparr>) (if ?p then (k, ?e) # xs @ ys else xs @ (k, ?e) # ys)"
    by (auto split: if_splits)
  have other: "map (\<lambda>(k', v'). (k', if k' = k then f v' else v')) (contents zs) = contents zs" if "k \<notin> fst ` set zs" for zs :: "('a \<times> 'b ValueEntry) list"
    using that by (induction zs) auto
  show ?thesis using h'(1) Some k es by (intro keepsI [OF rel']) (simp_all add: LruCache_get_mut_def lru_of_def other)
qed

lemma remove_keeps:
  assumes rel: "cache_rel h c es"
  shows "keeps h c es (Remove k)"
proof (cases "map_of (c_map c) k")
  case None
  moreover from this have "map_of es k = None" using rel by (simp add: cache_rel_def)
  ultimately show ?thesis using cache_absent [OF rel None]
    by (intro keepsI [OF rel]) (simp_all add: LruCache_remove_def lru_of_def map_of_contents)
next
  case (Some e)
  obtain xs ys where es: "es = xs @ (k, e) # ys" "k \<notin> fst ` set xs" "k \<notin> fst ` set ys" using cache_split [OF rel Some] .
  have k: "map_of (contents es) k = Some (e_value e)" using Some rel by (simp add: map_of_contents cache_rel_def)
  obtain h' where h': "Trace_delete h (e_record e) = Ok h'" "trace_rel h' (c_trace c) (records (xs @ ys))"
    using trace_delete_spec [of h "c_trace c" "records xs" k "e_record e" "records ys"] rel es by (auto simp: cache_rel_def)
  have "cache_rel h' (c\<lparr>c_map := AList.delete k (c_map c)\<rparr>) (xs @ ys)" using cache_drop_key [OF _ h'(2)] rel es(1) by blast
  from keepsI [OF this] show ?thesis using h'(1) Some k es by (auto simp: LruCache_remove_def lru_of_def)
qed

lemma resize_loop_spec:
  "cache_rel h c es \<Longrightarrow> n \<le> length es \<Longrightarrow>
    \<exists>h' m. resize_loop n h c = Ok (h', c\<lparr>c_map := m\<rparr>) \<and> cache_rel h' (c\<lparr>c_map := m\<rparr>) (take (length es - n) es)"
proof (induction n arbitrary: h c es)
  case 0
  then show ?case by (intro exI [of _ h] exI [of _ "c_map c"]) simp
next
  case (Suc n)
  obtain ys k0 e0 where es: "es = ys @ [(k0, e0)]" using Suc.prems(2) by (cases es rule: rev_cases) auto
  obtain h1 where h1: "remove_tail h (c_trace c) = Ok (h1, k0)" "trace_rel h1 (c_trace c) (records (ys @ []))"
    using remove_tail_spec [of h "c_trace c" "records ys" k0 "e_record e0"] Suc.prems(1) es by (auto simp: cache_rel_def)
  have "cache_rel h1 (c\<lparr>c_map := AList.delete k0 (c_map c)\<rparr>) (ys @ [])"
    using cache_drop_key [OF _ h1(2), of h] Suc.prems(1) es by simp
  from Suc.IH [OF this] show ?case using Suc.prems(2) es h1(1) by simp
qed

lemma resize_keeps:
  assumes rel: "cache_rel h c es"
  shows "keeps h c es (Resize n)"
proof -
  let ?n = "max 1 n" and ?es = "take (max 1 n) es"
  have n: "(if n = 0 then 1 else n) = ?n" by auto
  have contents: "contents ?es = take ?n (contents es)" by (simp add: contents_def take_map)
  have "\<exists>h' m. (if ?n < c_capacity c \<and> length (c_map c) > ?n then resize_loop (length (c_map c) - ?n) h c else Ok (h, c)) =
      Ok (h', c\<lparr>c_map := m\<rparr>) \<and> cache_rel h' (c\<lparr>c_map := m\<rparr>) ?es"
  proof (cases "?n < c_capacity c \<and> length (c_map c) > ?n")
    case True
    then show ?thesis using resize_loop_spec [OF rel, of "length es - ?n"] cache_len [OF rel] by (auto simp: min_def)
  next
    case False
    then have "?es = es" using rel cache_len [OF rel] by (auto simp: cache_rel_def)
    then show ?thesis using False rel by (intro exI [of _ h] exI [of _ "c_map c"]) auto
  qed
  then obtain h' m where m: "resize h c n = Ok (h', c\<lparr>c_map := m, c_capacity := ?n\<rparr>)" "cache_rel h' (c\<lparr>c_map := m\<rparr>) ?es"
    unfolding resize_def Let_def n by auto
  have "cache_rel h' (c\<lparr>c_map := m, c_capacity := ?n\<rparr>) ?es" using m(2) by (simp add: cache_rel_def)
  from keepsI [OF this, of h c "Resize n" None es] show ?thesis using m(1) contents [symmetric] by (simp add: lru_of_def)
qed

lemma clear_spec:
  assumes "cache_rel h c es" "length es \<le> n"
  shows "\<exists>h'. LruCache_clear n h c = Some (Ok (h', c\<lparr>c_map := []\<rparr>)) \<and> cache_rel h' (c\<lparr>c_map := []\<rparr>) []"
  using trace_clear_spec [of h "c_trace c" "records es" n] assms by (auto simp: cache_rel_def LruCache_clear_def)

lemma clear_keeps:
  assumes rel: "cache_rel h c es"
  shows "keeps h c es Clear"
proof -
  obtain h' where h': "LruCache_clear (length (c_map c)) h c = Some (Ok (h', c\<lparr>c_map := []\<rparr>))" "cache_rel h' (c\<lparr>c_map := []\<rparr>) []"
    using clear_spec [OF rel, of "length (c_map c)"] cache_len [OF rel] by auto
  then show ?thesis by (intro keepsI [OF h'(2)]) (simp_all add: lru_of_def)
qed

lemma cache_step_keeps:
  assumes "cache_rel h c es"
  shows "keeps h c es op"
proof (cases op)
  case (Insert k v)
  show ?thesis unfolding Insert using assms
    by (cases "map_of (c_map c) k"; cases "length es = c_capacity c") (blast intro: insert_present insert_full insert_room)+
qed (use assms in \<open>blast intro: get_keeps get_mut_keeps remove_keeps resize_keeps clear_keeps\<close>)+

section \<open>Properties\<close>

text \<open>A cache in use: a sequence of calls and what they return, on the cache and on the promise.\<close>

fun cache_run :: "'k heap \<Rightarrow> ('k, 'v) LruCache \<Rightarrow> ('k, 'v) lru_op list \<Rightarrow>
    (unit, 'k heap \<times> ('k, 'v) LruCache \<times> 'v option list) result option" where
  "cache_run h c [] = Some (Ok (h, c, []))"
| "cache_run h c (op # ops) = (case cache_step h c op of
     Some (Ok (h, c, out)) \<Rightarrow> map_option (result_map (\<lambda>(h, c, outs). (h, c, out # outs))) (cache_run h c ops)
   | Some (Err e) \<Rightarrow> Some (Err e) | Some Panic \<Rightarrow> Some Panic | Some Undef \<Rightarrow> Some Undef | None \<Rightarrow> None)"

fun lru_run :: "u64 \<Rightarrow> ('k, 'v) lru \<Rightarrow> ('k, 'v) lru_op list \<Rightarrow> ('k, 'v) lru \<times> 'v option list" where
  "lru_run sm s [] = (s, [])"
| "lru_run sm s (op # ops) = (let (s, out) = lru_step sm s op; (s, outs) = lru_run sm s ops in (s, out # outs))"

lemma cache_run_keeps:
  "cache_rel h c es \<Longrightarrow> \<exists>h' c' es' outs. cache_run h c ops = Some (Ok (h', c', outs)) \<and> cache_rel h' c' es' \<and>
    lru_run (t_sample_mask (c_trace c)) (lru_of c es) ops = (lru_of c' es', outs)"
proof (induction ops arbitrary: h c es)
  case (Cons op ops)
  obtain h1 c1 es1 out where 1: "cache_step h c op = Some (Ok (h1, c1, out))" "cache_rel h1 c1 es1"
    "lru_step (t_sample_mask (c_trace c)) (lru_of c es) op = (lru_of c1 es1, out)" "t_sample_mask (c_trace c1) = t_sample_mask (c_trace c)"
    using cache_step_keeps [OF Cons.prems, of op] unfolding keeps_def by blast
  from Cons.IH [OF 1(2)] show ?case using 1 by auto
qed auto

lemma new_cache:
  fixes h :: "'k heap"
  assumes "with_capacity_and_sample \<lparr> cells = Map.empty, fresh = n0 \<rparr> n sm = Ok (h, c)"
  shows "cache_rel h c []" "lru_of c [] = \<lparr> items = [], room = max 1 n, uses = 0 \<rparr>" "t_sample_mask (c_trace c) = sm"
  using trace_new_spec [of "\<lparr> cells = Map.empty, fresh = n0 \<rparr> :: 'k heap" sm] assms
  by (auto simp: with_capacity_and_sample_def cache_rel_def lru_of_def Let_def max_def)

lemma new_cache_ok: "\<exists>h c. with_capacity_and_sample (\<lparr> cells = Map.empty, fresh = n0 \<rparr> :: 'k heap) n sm = Ok (h, c)"
  using trace_new_spec [of "\<lparr> cells = Map.empty, fresh = n0 \<rparr> :: 'k heap" sm] by (auto simp: with_capacity_and_sample_def)

text \<open>The records alive are those of the entries and the two ends of the list.\<close>

lemma cache_records: "cache_rel h c es \<Longrightarrow> card (dom (cells h)) = length es + 2"
  unfolding cache_rel_def trace_rel_def using distinct_card [of "t_head (c_trace c) # map snd (records es) @ [t_tail (c_trace c)]"] by auto

lemma cache_iter: "cache_rel h c es \<Longrightarrow> distinct (LruCache_iter c) \<and> set (LruCache_iter c) = set (contents es)"
proof -
  assume rel: "cache_rel h c es"
  then have "set (c_map c) = set es" using map_of_inject_set by (auto simp: cache_rel_def)
  moreover have "distinct (map fst (LruCache_iter c))"
    using rel by (simp add: LruCache_iter_def cache_rel_def comp_def case_prod_unfold)
  ultimately show ?thesis unfolding distinct_map by (simp add: LruCache_iter_def contents_def)
qed

text \<open>
  (C4) A cache used through its own operations, from its creation on, never follows a dangling
  pointer, never reads a key that was not written and never panics, whatever the calls are. What the
  calls return and what \<open>iter\<close> shows afterwards is what a list ordered by last use gives: an insert
  puts its entry first and, when a new key finds the cache full, drops the last one; a lookup moves
  its entry to the front when the sampling mask says so; \<open>resize\<close> keeps the most recent ones. The heap
  holds one record for each entry and two for the ends of the list, so no record leaks.
\<close>

theorem lru_runs_refine:
  fixes ops :: "('a, 'b) lru_op list"
  shows "\<exists>h c h' c' s outs. with_capacity_and_sample \<lparr> cells = Map.empty, fresh = n0 \<rparr> n sm = Ok (h, c) \<and>
    cache_run h c ops = Some (Ok (h', c', outs)) \<and>
    lru_run sm \<lparr> items = [], room = max 1 n, uses = 0 \<rparr> ops = (s, outs) \<and>
    distinct (LruCache_iter c') \<and> set (LruCache_iter c') = set (items s) \<and>
    length (c_map c') = length (items s) \<and> length (items s) \<le> room s \<and> c_capacity c' = room s \<and>
    card (dom (cells h')) = length (items s) + 2"
proof -
  obtain h :: "'a heap" and c :: "('a, 'b) LruCache" where c: "with_capacity_and_sample \<lparr> cells = Map.empty, fresh = n0 \<rparr> n sm = Ok (h, c)"
    using new_cache_ok by blast
  obtain h' c' es' outs where r: "cache_run h c ops = Some (Ok (h', c', outs))" "cache_rel h' c' es'"
    "lru_run sm (lru_of c []) ops = (lru_of c' es', outs)" using cache_run_keeps [OF new_cache(1) [OF c]] new_cache(3) [OF c] by blast
  have "distinct (LruCache_iter c') \<and> set (LruCache_iter c') = set (items (lru_of c' es'))" "c_capacity c' = room (lru_of c' es')"
    "length (c_map c') = length (items (lru_of c' es'))" "length (items (lru_of c' es')) \<le> room (lru_of c' es')"
    "card (dom (cells h')) = length (items (lru_of c' es')) + 2"
    using cache_records [OF r(2)] cache_iter [OF r(2)] cache_len [OF r(2)] r(2) by (simp_all add: lru_of_def cache_rel_def)
  then show ?thesis using c r(1,3) unfolding new_cache(2) [OF c] by blast
qed

text \<open>
  (C28) The loop of \<open>clear\<close> ends after as many rounds as the cache has entries, for every cache a
  sequence of calls leads to: it frees each record once, and leaves the empty cache with its two ends.
\<close>

theorem lru_clear_terminates:
  assumes "with_capacity_and_sample \<lparr> cells = Map.empty, fresh = n0 \<rparr> n sm = Ok (h, c)" "cache_run h c ops = Some (Ok (h', c', outs))"
    and "length (c_map c') \<le> rounds"
  shows "\<exists>h''. LruCache_clear rounds h' c' = Some (Ok (h'', c'\<lparr>c_map := []\<rparr>)) \<and>
    dom (cells h'') = {t_head (c_trace c'), t_tail (c_trace c')}"
proof -
  obtain es where rel: "cache_rel h' c' es" using cache_run_keeps [OF new_cache(1) [OF assms(1)], of ops] assms(2) by auto
  then show ?thesis using clear_spec [OF rel, of rounds] cache_len [OF rel] assms(3) by (auto simp: cache_rel_def trace_rel_def)
qed

theorem lru_clear_terminates_witness:
  "\<exists>h c h' c' outs h''. with_capacity_and_sample \<lparr> cells = Map.empty, fresh = 2 \<rparr> 1 0 = Ok (h, c) \<and>
    cache_run h c [Insert (7 :: nat) True, Insert 8 False, Get 7] = Some (Ok (h', c', outs)) \<and> length (c_map c') = 1 \<and>
    LruCache_clear 1 h' c' = Some (Ok (h'', c'\<lparr>c_map := []\<rparr>)) \<and>
    dom (cells h'') = {t_head (c_trace c'), t_tail (c_trace c')}"
proof -
  define ops where "ops = [Insert (7 :: nat) True, Insert 8 False, Get 7]"
  obtain h :: "nat heap" and c :: "(nat, bool) LruCache" where c: "with_capacity_and_sample \<lparr> cells = Map.empty, fresh = 2 \<rparr> 1 0 = Ok (h, c)"
    using new_cache_ok by blast
  obtain h' c' es' outs where r: "cache_run h c ops = Some (Ok (h', c', outs))" "cache_rel h' c' es'"
    "lru_run 0 (lru_of c []) ops = (lru_of c' es', outs)" using cache_run_keeps [OF new_cache(1) [OF c], of ops] unfolding new_cache(3) [OF c] by blast
  have "lru_run 0 (lru_of c []) ops = (\<lparr> items = [(8, False)], room = 1, uses = 0 \<rparr>, [None, None, None])"
    unfolding new_cache(2) [OF c] ops_def by (simp add: others_def)
  then have "contents es' = [(8, False)]" using r(3) by (simp add: lru_of_def)
  then have len: "length (c_map c') = 1" using cache_len [OF r(2)] contents_simps(5) [of es'] by simp
  then obtain h'' where "LruCache_clear 1 h' c' = Some (Ok (h'', c'\<lparr>c_map := []\<rparr>))" "dom (cells h'') = {t_head (c_trace c'), t_tail (c_trace c')}"
    using lru_clear_terminates [OF c r(1), of 1] by (metis order_refl)
  then show ?thesis using c r(1) len unfolding ops_def by blast
qed

end
