(* ===== verification/Read_Queue.thy ===== *)
theory Read_Queue
  imports Prelude
begin

text \<open>
  The queue of pending read-index requests of a peer (\<open>violetabftstore/src/store/read_queue.rs\<close>).
  A follower sends each request to the leader and learns its read index later, possibly out of order;
  an answer also settles the requests before it. The offsets in \<open>contexts\<close> count from the first
  request ever queued, \<open>handled_cnt\<close> of which have left the queue.

  A command stands for the pair of a request and its callback; calling a callback is a
  \<open>notification\<close> the operation returns. The counters are natural numbers, a subtraction below zero
  panics, and \<open>usize::MAX\<close> in \<open>min_changed_offset\<close> is \<open>None\<close>. The pending-request gauge, the duration
  histogram and the capacity of the buffers (\<open>gc\<close>) are left out.
\<close>

type_synonym Uuid = "128 word"

abbreviation u64_MAX :: u64 where
  "u64_MAX \<equiv> - 1"

record ('c, 't) ReadIndexRequest =
  ri_id :: Uuid
  ri_cmds :: "('c \<times> u64 option) list"
  ri_renew_lease_time :: 't
  ri_read_index :: "u64 option"
  ri_in_contexts :: bool

definition push_command :: "('c, 't) ReadIndexRequest \<Rightarrow> 'c \<Rightarrow> u64 \<Rightarrow> ('c, 't) ReadIndexRequest" where
  "push_command self req read_index = self\<lparr>ri_cmds := ri_cmds self @ [(req, Some read_index)]\<rparr>"

definition with_command :: "Uuid \<Rightarrow> 'c \<Rightarrow> 't \<Rightarrow> ('c, 't) ReadIndexRequest" where
  "with_command i req renew_lease_time =
    \<lparr> ri_id = i, ri_cmds = [(req, None)], ri_renew_lease_time = renew_lease_time, ri_read_index = None, ri_in_contexts = False \<rparr>"

record ('c, 't) ReadIndexQueue =
  rq_reads :: "('c, 't) ReadIndexRequest list"
  rq_ready_cnt :: nat
  rq_handled_cnt :: nat
  rq_contexts :: "Uuid \<rightharpoonup> nat"
  rq_retry_countdown :: u64

definition ReadIndexQueue_default :: "('c, 't) ReadIndexQueue" where
  "ReadIndexQueue_default = \<lparr> rq_reads = [], rq_ready_cnt = 0, rq_handled_cnt = 0, rq_contexts = Map.empty, rq_retry_countdown = 0 \<rparr>"

text \<open>\<open>check_needs_retry\<close> takes the election timeout of the configuration, in ticks.\<close>

definition check_needs_retry :: "('c, 't) ReadIndexQueue \<Rightarrow> u64 \<Rightarrow> ('c, 't) ReadIndexQueue \<times> bool" where
  "check_needs_retry self ticks =
    (if length (rq_reads self) = rq_ready_cnt self then (self, False)
     else if rq_retry_countdown self = u64_MAX then (self\<lparr>rq_retry_countdown := ticks - 1\<rparr>, False)
     else if rq_retry_countdown self > 0 then (self\<lparr>rq_retry_countdown := rq_retry_countdown self - 1\<rparr>, False)
     else (self\<lparr>rq_retry_countdown := ticks\<rparr>, True))"

definition has_unresolved :: "('c, 't) ReadIndexQueue \<Rightarrow> bool" where
  "has_unresolved self \<longleftrightarrow> rq_ready_cnt self \<noteq> length (rq_reads self)"

datatype 'c notification = Brane_removed u64 'c | Stale_req u64 'c

definition clear_all :: "('c, 't) ReadIndexQueue \<Rightarrow> u64 option \<Rightarrow> ('c, 't) ReadIndexQueue \<times> 'c notification list" where
  "clear_all self notify_removed =
    (self\<lparr>rq_reads := [], rq_contexts := Map.empty, rq_ready_cnt := 0, rq_handled_cnt := 0\<rparr>,
     case notify_removed of
       Some brane_id \<Rightarrow> concat (map (\<lambda>read. map (\<lambda>(cb, _). Brane_removed brane_id cb) (ri_cmds read)) (rq_reads self))
     | None \<Rightarrow> [])"

definition clear_uncommitted_on_role_change ::
  "('c, 't) ReadIndexQueue \<Rightarrow> u64 \<Rightarrow> (unit, ('c, 't) ReadIndexQueue \<times> 'c notification list) result" where
  "clear_uncommitted_on_role_change self new_term =
    (if rq_ready_cnt self > length (rq_reads self) then Panic
     else Ok (self\<lparr>rq_reads := take (rq_ready_cnt self) (rq_reads self), rq_contexts := Map.empty\<rparr>,
       concat (map (\<lambda>read. map (\<lambda>(cb, _). Stale_req new_term cb) (ri_cmds read)) (drop (rq_ready_cnt self) (rq_reads self)))))"

definition push_back :: "('c, 't) ReadIndexQueue \<Rightarrow> ('c, 't) ReadIndexRequest \<Rightarrow> bool \<Rightarrow> ('c, 't) ReadIndexQueue" where
  "push_back self read is_leader =
    (let (self, read) =
       (if \<not> is_leader
        then let read = read\<lparr>ri_in_contexts := True\<rparr>;
                 offset = rq_handled_cnt self + length (rq_reads self)
             in (self\<lparr>rq_contexts := (rq_contexts self)(ri_id read \<mapsto> offset)\<rparr>, read)
        else (self, read))
     in self\<lparr>rq_reads := rq_reads self @ [read], rq_retry_countdown := u64_MAX\<rparr>)"

text \<open>\<open>back_mut\<close>, with what the caller does to the last request.\<close>

definition back_mut ::
  "('c, 't) ReadIndexQueue \<Rightarrow> (('c, 't) ReadIndexRequest \<Rightarrow> ('c, 't) ReadIndexRequest) \<Rightarrow> ('c, 't) ReadIndexQueue option" where
  "back_mut self f = (if rq_reads self = [] then None
     else Some (self\<lparr>rq_reads := butlast (rq_reads self) @ [f (last (rq_reads self))]\<rparr>))"

definition last_ready :: "('c, 't) ReadIndexQueue \<Rightarrow> (unit, ('c, 't) ReadIndexRequest option) result" where
  "last_ready self =
    (if rq_ready_cnt self > 0
     then if rq_ready_cnt self - 1 < length (rq_reads self) then Ok (Some (rq_reads self ! (rq_ready_cnt self - 1))) else Panic
     else Ok None)"

definition set_read_index :: "('c, 't) ReadIndexQueue \<Rightarrow> nat \<Rightarrow> u64 \<Rightarrow> ('c, 't) ReadIndexQueue" where
  "set_read_index self i index = self\<lparr>rq_reads := (rq_reads self)[i := (rq_reads self ! i)\<lparr>ri_read_index := Some index\<rparr>]\<rparr>"

fun advance_leader_reads ::
  "('c, 't) ReadIndexQueue \<Rightarrow> (Uuid \<times> u64) list \<Rightarrow> (unit, ('c, 't) ReadIndexQueue) result" where
  "advance_leader_reads self [] = Ok self"
| "advance_leader_reads self ((uuid, index) # states) =
    (if rq_ready_cnt self < length (rq_reads self) \<and> uuid = ri_id (rq_reads self ! rq_ready_cnt self)
     then let self = set_read_index self (rq_ready_cnt self) index
          in advance_leader_reads (self\<lparr>rq_ready_cnt := rq_ready_cnt self + 1\<rparr>) states
     else Panic)"

text \<open>The loop of \<open>advance_replica_reads\<close>, with the least and the greatest offset it changed.\<close>

fun advance_replica_loop ::
  "('c, 't) ReadIndexQueue \<Rightarrow> (Uuid \<times> u64) list \<Rightarrow> nat option \<Rightarrow> nat \<Rightarrow> (unit, ('c, 't) ReadIndexQueue \<times> nat option \<times> nat) result" where
  "advance_replica_loop self [] min_changed_offset max_changed_offset = Ok (self, min_changed_offset, max_changed_offset)"
| "advance_replica_loop self ((uuid, index) # states) min_changed_offset max_changed_offset =
    (case rq_contexts self uuid of
       Some raw_offset \<Rightarrow>
         (let self = self\<lparr>rq_contexts := (rq_contexts self)(uuid := None)\<rparr>;
              offset = raw_offset - rq_handled_cnt self in
          if raw_offset < rq_handled_cnt self then Panic
          else if \<not> (offset < length (rq_reads self) \<and> ri_id (rq_reads self ! offset) = uuid) then Panic
          else let self = self\<lparr>rq_reads := (rq_reads self)[offset := (rq_reads self ! offset)\<lparr>ri_in_contexts := False\<rparr>]\<rparr> in
            (case ri_read_index (rq_reads self ! offset) of
               Some occur_index \<Rightarrow>
                 if occur_index < index then advance_replica_loop self states min_changed_offset max_changed_offset
                 else advance_replica_loop (set_read_index self offset index) states
                   (Some (case min_changed_offset of Some m \<Rightarrow> min m offset | None \<Rightarrow> offset)) (max max_changed_offset offset)
             | None \<Rightarrow> advance_replica_loop (set_read_index self offset index) states
                   (Some (case min_changed_offset of Some m \<Rightarrow> min m offset | None \<Rightarrow> offset)) (max max_changed_offset offset)))
     | None \<Rightarrow> advance_replica_loop self states min_changed_offset max_changed_offset)"

text \<open>The loop of \<open>fold\<close> over the offsets below the given one, the greatest first.\<close>

primrec fold_loop :: "nat \<Rightarrow> ('c, 't) ReadIndexRequest list \<Rightarrow> u64 \<Rightarrow> nat \<Rightarrow> ('c, 't) ReadIndexRequest list" where
  "fold_loop 0 reads r_idx min_changed_offset = reads"
| "fold_loop (Suc check_offset) reads r_idx min_changed_offset =
    (let l_idx = (case ri_read_index (reads ! check_offset) of Some i \<Rightarrow> i | None \<Rightarrow> u64_MAX) in
     if l_idx > r_idx
     then fold_loop check_offset (reads[check_offset := (reads ! check_offset)\<lparr>ri_read_index := Some r_idx\<rparr>]) r_idx min_changed_offset
     else if check_offset < min_changed_offset then reads
     else fold_loop check_offset reads l_idx min_changed_offset)"

definition ReadIndexQueue_fold :: "('c, 't) ReadIndexQueue \<Rightarrow> nat \<Rightarrow> nat \<Rightarrow> (unit, ('c, 't) ReadIndexQueue) result" where
  "ReadIndexQueue_fold self min_changed_offset max_changed_offset =
    (if max_changed_offset < length (rq_reads self) \<and> max_changed_offset > 0
     then case ri_read_index (rq_reads self ! max_changed_offset) of
         Some r_idx \<Rightarrow> Ok (self\<lparr>rq_reads := fold_loop max_changed_offset (rq_reads self) r_idx min_changed_offset\<rparr>)
       | None \<Rightarrow> Panic
     else Panic)"

definition advance_replica_reads ::
  "('c, 't) ReadIndexQueue \<Rightarrow> (Uuid \<times> u64) list \<Rightarrow> (unit, ('c, 't) ReadIndexQueue) result" where
  "advance_replica_reads self states =
    bind_result (advance_replica_loop self states None 0) (\<lambda>(self, min_changed_offset, max_changed_offset).
    let self = (if min_changed_offset \<noteq> None
                then self\<lparr>rq_ready_cnt := max (rq_ready_cnt self) (max_changed_offset + 1)\<rparr> else self) in
    if max_changed_offset > 0
    then ReadIndexQueue_fold self (case min_changed_offset of Some m \<Rightarrow> m | None \<Rightarrow> 0) max_changed_offset
    else Ok self)"

definition pop_front :: "('c, 't) ReadIndexQueue \<Rightarrow> (unit, ('c, 't) ReadIndexQueue \<times> ('c, 't) ReadIndexRequest option) result" where
  "pop_front self =
    (if rq_ready_cnt self = 0 then Ok (self, None)
     else let self = self\<lparr>rq_ready_cnt := rq_ready_cnt self - 1, rq_handled_cnt := rq_handled_cnt self + 1\<rparr> in
       case rq_reads self of
         [] \<Rightarrow> Panic
       | res # reads \<Rightarrow>
           let self = self\<lparr>rq_reads := reads\<rparr> in
           if ri_in_contexts res
           then Ok (self\<lparr>rq_contexts := (rq_contexts self)(ri_id res := None)\<rparr>, Some (res\<lparr>ri_in_contexts := False\<rparr>))
           else Ok (self, Some res))"

definition push_front :: "('c, 't) ReadIndexQueue \<Rightarrow> ('c, 't) ReadIndexRequest \<Rightarrow> (unit, ('c, 't) ReadIndexQueue) result" where
  "push_front self read =
    (if ri_read_index read = None \<or> rq_handled_cnt self = 0 then Panic
     else Ok (self\<lparr>rq_reads := read # rq_reads self, rq_ready_cnt := rq_ready_cnt self + 1, rq_handled_cnt := rq_handled_cnt self - 1\<rparr>))"

section \<open>The answers of the leader\<close>

abbreviation idx :: "('c, 't) ReadIndexQueue \<Rightarrow> nat \<Rightarrow> u64 option" where
  "idx q j \<equiv> ri_read_index (rq_reads q ! j)"

text \<open>Each context leads to the request it names, and no two requests have the same id.\<close>

definition ctx_ok :: "('c, 't) ReadIndexQueue \<Rightarrow> bool" where
  "ctx_ok q \<longleftrightarrow> distinct (map ri_id (rq_reads q)) \<and>
    (\<forall>u off. rq_contexts q u = Some off \<longrightarrow> rq_handled_cnt q \<le> off \<and> off < rq_handled_cnt q + length (rq_reads q) \<and>
       ri_id (rq_reads q ! (off - rq_handled_cnt q)) = u \<and> ri_in_contexts (rq_reads q ! (off - rq_handled_cnt q)))"

text \<open>The answer a batch of states holds for a request that waits for one.\<close>

definition resp :: "('c, 't) ReadIndexQueue \<Rightarrow> (Uuid \<times> u64) list \<Rightarrow> nat \<Rightarrow> u64 option" where
  "resp q states j = (if rq_contexts q (ri_id (rq_reads q ! j)) = None then None else map_of states (ri_id (rq_reads q ! j)))"

fun merge_idx :: "u64 option \<Rightarrow> u64 option \<Rightarrow> u64 option" where
  "merge_idx a None = a"
| "merge_idx None b = b"
| "merge_idx (Some x) (Some y) = Some (min x y)"

lemma merge_idx_None [simp]: "merge_idx None b = b" "merge_idx a b = None \<longleftrightarrow> a = None \<and> b = None"
  by (cases a; cases b; simp)+

lemma merge_idx_Some [simp]: "\<exists>y. merge_idx a (Some x) = Some y"
  by (cases a) auto

text \<open>What the loop has done after a batch, seen from its state before.\<close>

definition loop_done ::
  "('c, 't) ReadIndexQueue \<Rightarrow> (nat \<Rightarrow> u64 option) \<Rightarrow> nat option \<Rightarrow> nat \<Rightarrow> ('c, 't) ReadIndexQueue \<Rightarrow> nat option \<Rightarrow> nat \<Rightarrow> bool" where
  "loop_done q r mn mx q1 mn1 mx1 \<longleftrightarrow> ctx_ok q1 \<and> length (rq_reads q1) = length (rq_reads q) \<and>
    map ri_id (rq_reads q1) = map ri_id (rq_reads q) \<and> rq_ready_cnt q1 = rq_ready_cnt q \<and> rq_handled_cnt q1 = rq_handled_cnt q \<and>
    (\<forall>j < length (rq_reads q). idx q1 j = merge_idx (idx q j) (r j) \<and>
      (idx q1 j \<noteq> idx q j \<longrightarrow> (\<exists>m. mn1 = Some m \<and> m \<le> j) \<and> j \<le> mx1)) \<and>
    (\<forall>m. mn = Some m \<longrightarrow> (\<exists>m1. mn1 = Some m1 \<and> m1 \<le> m)) \<and> mx \<le> mx1 \<and> (mn1 = None \<longrightarrow> mx1 = mx) \<and>
    (\<forall>m1. mn1 = Some m1 \<longrightarrow> mx1 < length (rq_reads q) \<and> idx q1 mx1 \<noteq> None)"

lemma loop_doneD:
  assumes "loop_done q r mn mx q1 mn1 mx1"
  shows "j < length (rq_reads q) \<Longrightarrow> idx q1 j = merge_idx (idx q j) (r j)"
    "j < length (rq_reads q) \<Longrightarrow> idx q1 j \<noteq> idx q j \<Longrightarrow> (\<exists>m. mn1 = Some m \<and> m \<le> j) \<and> j \<le> mx1"
    "mn = Some m \<Longrightarrow> \<exists>m1. mn1 = Some m1 \<and> m1 \<le> m" "mx \<le> mx1" "mn1 = None \<Longrightarrow> mx1 = mx"
    "mn1 = Some m1 \<Longrightarrow> mx1 < length (rq_reads q) \<and> idx q1 mx1 \<noteq> None"
    "ctx_ok q1 \<and> length (rq_reads q1) = length (rq_reads q) \<and> map ri_id (rq_reads q1) = map ri_id (rq_reads q) \<and>
       rq_ready_cnt q1 = rq_ready_cnt q \<and> rq_handled_cnt q1 = rq_handled_cnt q"
  using assms unfolding loop_done_def by blast+

lemma loop_doneI:
  assumes "\<And>j. j < length (rq_reads q) \<Longrightarrow> idx q1 j = merge_idx (idx q j) (r j)"
    "\<And>j. j < length (rq_reads q) \<Longrightarrow> idx q1 j \<noteq> idx q j \<Longrightarrow> (\<exists>m. mn1 = Some m \<and> m \<le> j) \<and> j \<le> mx1"
    "\<And>m. mn = Some m \<Longrightarrow> \<exists>m1. mn1 = Some m1 \<and> m1 \<le> m" "mx \<le> mx1" "mn1 = None \<Longrightarrow> mx1 = mx"
    "\<And>m1. mn1 = Some m1 \<Longrightarrow> mx1 < length (rq_reads q) \<and> idx q1 mx1 \<noteq> None"
    and same: "ctx_ok q1 \<and> length (rq_reads q1) = length (rq_reads q) \<and> map ri_id (rq_reads q1) = map ri_id (rq_reads q) \<and>
       rq_ready_cnt q1 = rq_ready_cnt q \<and> rq_handled_cnt q1 = rq_handled_cnt q"
  shows "loop_done q r mn mx q1 mn1 mx1"
proof -
  have "\<forall>j < length (rq_reads q). idx q1 j = merge_idx (idx q j) (r j) \<and>
      (idx q1 j \<noteq> idx q j \<longrightarrow> (\<exists>m. mn1 = Some m \<and> m \<le> j) \<and> j \<le> mx1)" using assms(1,2) by meson
  with assms(3-6) same show ?thesis unfolding loop_done_def by metis
qed

text \<open>The state after an answer for a request that waits for one.\<close>

abbreviation answered :: "('c, 't) ReadIndexQueue \<Rightarrow> Uuid \<Rightarrow> nat \<Rightarrow> u64 option \<Rightarrow> ('c, 't) ReadIndexQueue" where
  "answered q u j v \<equiv> q\<lparr>rq_contexts := (rq_contexts q)(u := None),
     rq_reads := (rq_reads q)[j := (rq_reads q ! j)\<lparr>ri_in_contexts := False, ri_read_index := v\<rparr>]\<rparr>"

lemma answered_ok:
  assumes ok: "ctx_ok q" and u: "rq_contexts q u = Some off" and j: "j = off - rq_handled_cnt q"
  shows "ctx_ok (answered q u j v)" "j < length (rq_reads q)" "ri_id (rq_reads q ! j) = u" "rq_handled_cnt q \<le> off"
    "map ri_id (rq_reads (answered q u j v)) = map ri_id (rq_reads q)"
proof -
  show *: "j < length (rq_reads q)" "ri_id (rq_reads q ! j) = u" "rq_handled_cnt q \<le> off" using assms unfolding ctx_ok_def by force+
  show **: "map ri_id (rq_reads (answered q u j v)) = map ri_id (rq_reads q)" using * by (simp add: map_update list_update_same_conv)
  have far: "off' - rq_handled_cnt q \<noteq> j" if "rq_contexts q u' = Some off'" "u' \<noteq> u" for u' off'
    using ok that * unfolding ctx_ok_def by metis
  have keep: "rq_reads (answered q u j v) ! (off' - rq_handled_cnt q) = rq_reads q ! (off' - rq_handled_cnt q)"
    if "rq_contexts q u' = Some off'" "u' \<noteq> u" for u' off' using far [OF that] by (simp add: nth_list_update_neq)
  show "ctx_ok (answered q u j v)" unfolding ctx_ok_def **
  proof (intro conjI allI impI)
    show "distinct (map ri_id (rq_reads q))" using ok by (simp add: ctx_ok_def)
    fix u' off' assume "rq_contexts (answered q u j v) u' = Some off'"
    then have c: "rq_contexts q u' = Some off'" "u' \<noteq> u" by (auto split: if_splits)
    show "rq_handled_cnt (answered q u j v) \<le> off'" "off' < rq_handled_cnt (answered q u j v) + length (rq_reads (answered q u j v))"
      "ri_id (rq_reads (answered q u j v) ! (off' - rq_handled_cnt (answered q u j v))) = u'"
      "ri_in_contexts (rq_reads (answered q u j v) ! (off' - rq_handled_cnt (answered q u j v)))"
      using ok c(1) keep [OF c] unfolding ctx_ok_def by auto
  qed
qed

lemma resp_answered:
  assumes ok: "ctx_ok q" and u: "rq_contexts q u = Some off" and j: "j = off - rq_handled_cnt q" and i: "i < length (rq_reads q)"
  shows "resp (answered q u j v) states i = (if i = j then None else resp q ((u, x) # states) i)"
proof -
  note a = answered_ok [OF ok u j]
  have ids: "ri_id (rq_reads (answered q u j v) ! i) = ri_id (rq_reads q ! i)"
    using arg_cong [OF a(5) [of v], of "\<lambda>l. l ! i"] i by simp
  have "ri_id (rq_reads q ! i) = u \<longleftrightarrow> i = j" using ok a(2,3) i nth_eq_iff_index_eq [of "map ri_id (rq_reads q)" i j]
    unfolding ctx_ok_def by auto
  then show ?thesis unfolding resp_def ids by auto
qed

lemma resp_unknown: "rq_contexts q u = None \<Longrightarrow> resp q ((u, x) # states) = resp q states"
  unfolding resp_def by auto

lemma loop_done_step:
  assumes ok: "ctx_ok q" and u: "rq_contexts q u = Some off" and j: "j = off - rq_handled_cnt q"
    and d: "loop_done (answered q u j v) (resp (answered q u j v) states) mn' mx' q1 mn1 mx1"
    and v: "v = merge_idx (idx q j) (Some x)"
    and m: "mn' = mn \<and> mx' = mx \<and> v = idx q j \<or> mn' = Some (case mn of Some m \<Rightarrow> min m j | None \<Rightarrow> j) \<and> mx' = max mx j"
  shows "loop_done q (resp q ((u, x) # states)) mn mx q1 mn1 mx1"
proof -
  note a = answered_ok [OF ok u j]
  have r: "resp (answered q u j v) states i = (if i = j then None else resp q ((u, x) # states) i)" if "i < length (rq_reads q)" for i
    by (rule resp_answered [OF ok u j that])
  have rj: "resp q ((u, x) # states) j = Some x" using a(3) u by (simp add: resp_def)
  have i: "idx (answered q u j v) i = (if i = j then v else idx q i)" for i using a(2) by (simp add: nth_list_update)
  show ?thesis
  proof (rule loop_doneI)
    fix i assume il: "i < length (rq_reads q)"
    show "idx q1 i = merge_idx (idx q i) (resp q ((u, x) # states) i)"
      using loop_doneD(1) [OF d, of i] r [OF il] rj i [of i] il v by (auto split: if_splits)
    assume ne: "idx q1 i \<noteq> idx q i"
    show "(\<exists>m. mn1 = Some m \<and> m \<le> i) \<and> i \<le> mx1"
    proof (cases "idx q1 i = idx (answered q u j v) i")
      case True
      then have "i = j" "v \<noteq> idx q j" using i [of i] ne by (auto split: if_splits)
      then obtain m' where m': "mn' = Some m'" "m' \<le> i" "i \<le> mx'" using m by (auto split: option.splits)
      then show ?thesis using loop_doneD(3) [OF d m'(1)] loop_doneD(4) [OF d] by auto
    next
      case False
      then show ?thesis using loop_doneD(2) [OF d, of i] il by simp
    qed
  next
    fix m0 assume "mn = Some m0"
    then obtain m' where m': "mn' = Some m'" "m' \<le> m0" using m by auto
    then show "\<exists>m1. mn1 = Some m1 \<and> m1 \<le> m0" using loop_doneD(3) [OF d m'(1)] by auto
  next
    show "mx \<le> mx1" using loop_doneD(4) [OF d] m by auto
    assume "mn1 = None"
    then show "mx1 = mx" using loop_doneD(3,5) [OF d] m by auto
  next
    fix m1 assume "mn1 = Some m1"
    then show "mx1 < length (rq_reads q) \<and> idx q1 mx1 \<noteq> None" using loop_doneD(6) [OF d] by simp
  next
    show "ctx_ok q1 \<and> length (rq_reads q1) = length (rq_reads q) \<and> map ri_id (rq_reads q1) = map ri_id (rq_reads q) \<and>
        rq_ready_cnt q1 = rq_ready_cnt q \<and> rq_handled_cnt q1 = rq_handled_cnt q"
      using loop_doneD(7) [OF d] a(5) [of v] by simp
  qed
qed

lemma same_read_index: "ri_read_index r = v \<Longrightarrow> r\<lparr>ri_in_contexts := b, ri_read_index := v\<rparr> = r\<lparr>ri_in_contexts := b\<rparr>"
  by (cases r) auto

lemma advance_replica_loop_spec:
  assumes "ctx_ok q" "if mn = None then mx = 0 else mx < length (rq_reads q) \<and> idx q mx \<noteq> None"
  shows "\<exists>q1 mn1 mx1. advance_replica_loop q states mn mx = Ok (q1, mn1, mx1) \<and> loop_done q (resp q states) mn mx q1 mn1 mx1"
  using assms
proof (induction states arbitrary: q mn mx)
  case Nil
  then show ?case by (auto simp: loop_done_def resp_def)
next
  case (Cons s states)
  obtain u x where s: "s = (u, x)" by fastforce
  show ?case
  proof (cases "rq_contexts q u")
    case None
    then show ?thesis using Cons.IH [OF Cons.prems] by (simp add: s resp_unknown loop_done_def)
  next
    case (Some off)
    define j where j: "j = off - rq_handled_cnt q"
    note a = answered_ok [OF Cons.prems(1) Some j]
    let ?v = "merge_idx (idx q j) (Some x)"
    let ?keep = "\<exists>o'. idx q j = Some o' \<and> o' < x"
    let ?mn = "if ?keep then mn else Some (case mn of Some m \<Rightarrow> min m j | None \<Rightarrow> j)" and ?mx = "if ?keep then mx else max mx j"
    have pre: "if ?mn = None then ?mx = 0 else ?mx < length (rq_reads (answered q u j ?v)) \<and> idx (answered q u j ?v) ?mx \<noteq> None"
      using Cons.prems(2) a(2) by (auto simp: nth_list_update max_def split: option.splits if_splits)
    obtain q1 mn1 mx1 where r: "advance_replica_loop (answered q u j ?v) states ?mn ?mx = Ok (q1, mn1, mx1)"
      "loop_done (answered q u j ?v) (resp (answered q u j ?v) states) ?mn ?mx q1 mn1 mx1"
      using Cons.IH [OF a(1) pre] by blast
    have "?keep \<Longrightarrow> ?v = idx q j" by auto
    then have "loop_done q (resp q (s # states)) mn mx q1 mn1 mx1"
      unfolding s by (intro loop_done_step [OF Cons.prems(1) Some j r(2) refl]) auto
    moreover have "advance_replica_loop q (s # states) mn mx = advance_replica_loop (answered q u j ?v) states ?mn ?mx"
      using a(2-4) unfolding s by (cases "idx q j"; cases mn) (auto simp: Some Let_def j [symmetric] set_read_index_def min_def nth_list_update same_read_index)
    ultimately show ?thesis using r(1) by auto
  qed
qed

section \<open>Settling the requests before an answer\<close>

lemma fold_loop_same:
  "length (fold_loop k reads r mn) = length reads"
  "j < length reads \<Longrightarrow> fold_loop k reads r mn ! j = (reads ! j)\<lparr>ri_read_index := ri_read_index (fold_loop k reads r mn ! j)\<rparr>"
  "k \<le> j \<Longrightarrow> fold_loop k reads r mn ! j = reads ! j"
proof (induction k arbitrary: reads r)
  case (Suc n)
  { case 1 show ?case using Suc.IH(1) by (simp add: Let_def) }
  { case 2 then show ?case using Suc.IH(2) [of "reads[n := (reads ! n)\<lparr>ri_read_index := Some r\<rparr>]" r] Suc.IH(2) [of reads]
      by (cases "n = j") (auto simp: Let_def nth_list_update) }
  { case 3 then show ?case using Suc.IH(3) by (simp add: Let_def) }
qed simp_all

lemma fold_loop_fields:
  assumes "j < length reads"
  shows "ri_id (fold_loop k reads r mn ! j) = ri_id (reads ! j)" "ri_in_contexts (fold_loop k reads r mn ! j) = ri_in_contexts (reads ! j)"
  using arg_cong [OF fold_loop_same(2) [OF assms, of k r mn], of ri_id] arg_cong [OF fold_loop_same(2) [OF assms, of k r mn], of ri_in_contexts]
  by simp_all

lemma fold_loop_some:
  assumes "k \<le> length reads" "r \<noteq> u64_MAX"
    and "\<forall>j < k. j < mn \<longrightarrow> ri_read_index (reads ! j) \<noteq> None \<longrightarrow> (\<forall>i \<le> j. ri_read_index (reads ! i) \<noteq> None)"
  shows "\<forall>j < k. ri_read_index (fold_loop k reads r mn ! j) \<noteq> None"
  using assms
proof (induction k arbitrary: reads r)
  case (Suc n)
  define l where "l = (case ri_read_index (reads ! n) of Some i \<Rightarrow> i | None \<Rightarrow> u64_MAX)"
  have top: "n < length reads" and small: "r < u64_MAX" using Suc.prems(1,2) by (simp_all add: word_order.not_eq_extremum)
  note pre = Suc.prems(3) [rule_format, OF less_SucI]
  consider "l > r" | "l \<le> r" "n < mn" | "l \<le> r" "\<not> n < mn" by fastforce
  then show ?case
  proof cases
    case 1
    let ?reads = "reads[n := (reads ! n)\<lparr>ri_read_index := Some r\<rparr>]"
    have "\<forall>j < n. ri_read_index (fold_loop n ?reads r mn ! j) \<noteq> None" using Suc.prems(1,2) pre by (intro Suc.IH) auto
    moreover have "fold_loop n ?reads r mn ! n = ?reads ! n" by (rule fold_loop_same) simp
    ultimately show ?thesis using 1 top by (auto simp: l_def [symmetric] Let_def less_Suc_eq)
  next
    case 2
    then have "ri_read_index (reads ! n) \<noteq> None" using small by (auto simp: l_def split: option.splits)
    then show ?thesis using 2 Suc.prems(3) by (auto simp: l_def [symmetric] Let_def)
  next
    case 3
    then have l: "ri_read_index (reads ! n) = Some l" "l \<noteq> u64_MAX" using small by (auto simp: l_def split: option.splits)
    have "\<forall>j < n. ri_read_index (fold_loop n reads l mn ! j) \<noteq> None" using Suc.prems(1) l(2) pre by (intro Suc.IH) auto
    moreover have "fold_loop n reads l mn ! n = reads ! n" by (rule fold_loop_same) simp
    ultimately show ?thesis using 3 l(1) by (auto simp: l_def [symmetric] Let_def less_Suc_eq)
  qed
qed simp

text \<open>A value that some request from a position on has, and no such request has a smaller one.\<close>

definition least_from :: "(nat \<Rightarrow> u64 \<Rightarrow> bool) \<Rightarrow> nat \<Rightarrow> u64 \<Rightarrow> bool" where
  "least_from R i x \<longleftrightarrow> (\<exists>j \<ge> i. R j x) \<and> (\<forall>j \<ge> i. \<forall>y. R j y \<longrightarrow> x \<le> y)"

lemma least_from_shift:
  assumes "least_from R' i x" "\<And>j y. i \<le> j \<Longrightarrow> R' j y \<Longrightarrow> \<exists>j' \<ge> i. R j' y" "\<And>j y. i \<le> j \<Longrightarrow> R j y \<Longrightarrow> \<exists>j' \<ge> i. \<exists>y' \<le> y. R' j' y'"
  shows "least_from R i x"
  using assms unfolding least_from_def by (meson order_trans)

lemma fold_loop_least:
  assumes "k \<le> length reads" "r \<noteq> u64_MAX"
    and "\<forall>j < k. j < mn \<longrightarrow> (\<forall>x. ri_read_index (reads ! j) = Some x \<longrightarrow> (\<forall>i \<le> j. \<exists>y. ri_read_index (reads ! i) = Some y \<and> y \<le> x))"
  shows "\<forall>j < k. \<forall>x. ri_read_index (fold_loop k reads r mn ! j) = Some x \<longrightarrow>
    least_from (\<lambda>j y. j < k \<and> ri_read_index (reads ! j) = Some y \<or> j = k \<and> y = r) j x"
  using assms
proof (induction k arbitrary: reads r)
  case (Suc n)
  define l where "l = (case ri_read_index (reads ! n) of Some i \<Rightarrow> i | None \<Rightarrow> u64_MAX)"
  let ?R = "\<lambda>j y. j < Suc n \<and> ri_read_index (reads ! j) = Some y \<or> j = Suc n \<and> y = r"
  have top: "n < length reads" and small: "r < u64_MAX" using Suc.prems(1,2) by (simp_all add: word_order.not_eq_extremum)
  note pre = Suc.prems(3) [rule_format, OF less_SucI]
  consider "l > r" | "l \<le> r" "n < mn" | "l \<le> r" "\<not> n < mn" by fastforce
  then show ?case
  proof cases
    case 1
    let ?reads = "reads[n := (reads ! n)\<lparr>ri_read_index := Some r\<rparr>]"
    have IH: "\<forall>j < n. \<forall>x. ri_read_index (fold_loop n ?reads r mn ! j) = Some x \<longrightarrow>
        least_from (\<lambda>j y. j < n \<and> ri_read_index (?reads ! j) = Some y \<or> j = n \<and> y = r) j x"
      using Suc.prems(1,2) pre by (intro Suc.IH) auto
    have "fold_loop n ?reads r mn ! n = ?reads ! n" by (rule fold_loop_same) simp
    then have n: "ri_read_index (fold_loop n ?reads r mn ! n) = Some r" using top by simp
    have l: "\<forall>y. ri_read_index (reads ! n) = Some y \<longrightarrow> r \<le> y" using 1 by (auto simp: l_def)
    have st: "least_from ?R j x" if "j < n" "least_from (\<lambda>j y. j < n \<and> ri_read_index (?reads ! j) = Some y \<or> j = n \<and> y = r) j x" for j x
    proof (rule least_from_shift [OF that(2)])
      fix i y assume "j \<le> i" "i < n \<and> ri_read_index (?reads ! i) = Some y \<or> i = n \<and> y = r"
      then show "\<exists>j' \<ge> j. ?R j' y" using that(1) by (intro exI [of _ "if i < n then i else Suc n"]) auto
    next
      fix i y assume "j \<le> i" "?R i y"
      then show "\<exists>j' \<ge> j. \<exists>y' \<le> y. j' < n \<and> ri_read_index (?reads ! j') = Some y' \<or> j' = n \<and> y' = r"
        using that(1) l by (intro exI [of _ "min i n"] exI [of _ "if i < n then y else r"]) (auto simp: less_Suc_eq)
    qed
    have bot: "least_from ?R n r" unfolding least_from_def
    proof
      show "\<exists>j \<ge> n. ?R j r" by (intro exI [of _ "Suc n"]) simp
      show "\<forall>j \<ge> n. \<forall>y. ?R j y \<longrightarrow> r \<le> y" using l by (auto simp: less_Suc_eq)
    qed
    have eq: "fold_loop (Suc n) reads r mn = fold_loop n ?reads r mn" using 1 by (simp add: l_def [symmetric])
    show ?thesis unfolding eq
    proof (intro allI impI)
      fix j x assume "j < Suc n" "ri_read_index (fold_loop n ?reads r mn ! j) = Some x"
      then show "least_from ?R j x" by (cases "j = n") (use st bot IH n in auto)
    qed
  next
    case 2
    then have l: "ri_read_index (reads ! n) = Some l" using small by (auto simp: l_def split: option.splits)
    have up: "y \<le> x" if "i \<le> j" "j \<le> n" "ri_read_index (reads ! i) = Some y" "ri_read_index (reads ! j) = Some x" for i j x y
      using Suc.prems(3) [rule_format, of j x i] that 2(2) by auto
    have st: "least_from ?R j x" if "j < Suc n" "ri_read_index (reads ! j) = Some x" for j x
      unfolding least_from_def
    proof
      show "\<exists>i \<ge> j. ?R i x" using that by blast
      have "x \<le> l" using up [of j n x l] that l by simp
      then show "\<forall>i \<ge> j. \<forall>y. ?R i y \<longrightarrow> x \<le> y" using up [of j] that(2) 2(1) by auto
    qed
    have eq: "fold_loop (Suc n) reads r mn = reads" using 2(2) leD [OF 2(1)] by (simp add: l_def [symmetric])
    show ?thesis unfolding eq using st by blast
  next
    case 3
    then have l: "ri_read_index (reads ! n) = Some l" "l \<noteq> u64_MAX" using small by (auto simp: l_def split: option.splits)
    have IH: "\<forall>j < n. \<forall>x. ri_read_index (fold_loop n reads l mn ! j) = Some x \<longrightarrow>
        least_from (\<lambda>j y. j < n \<and> ri_read_index (reads ! j) = Some y \<or> j = n \<and> y = l) j x"
      using Suc.prems(1) l(2) pre by (intro Suc.IH) auto
    have n: "fold_loop n reads l mn ! n = reads ! n" by (rule fold_loop_same) simp
    have st: "least_from ?R j x" if "j < n" "least_from (\<lambda>j y. j < n \<and> ri_read_index (reads ! j) = Some y \<or> j = n \<and> y = l) j x" for j x
    proof (rule least_from_shift [OF that(2)])
      fix i y assume "j \<le> i" "i < n \<and> ri_read_index (reads ! i) = Some y \<or> i = n \<and> y = l"
      then show "\<exists>j' \<ge> j. ?R j' y" using l(1) by (intro exI [of _ i]) auto
    next
      fix i y assume "j \<le> i" "?R i y"
      then show "\<exists>j' \<ge> j. \<exists>y' \<le> y. j' < n \<and> ri_read_index (reads ! j') = Some y' \<or> j' = n \<and> y' = l"
        using that(1) l(1) 3(1) by (intro exI [of _ "min i n"] exI [of _ "if i < n then y else l"]) (auto simp: less_Suc_eq)
    qed
    have bot: "least_from ?R n l" using l 3 by (auto simp: least_from_def less_Suc_eq_le)
    have eq: "fold_loop (Suc n) reads r mn = fold_loop n reads l mn" using 3(2) leD [OF 3(1)] by (simp add: l_def [symmetric])
    show ?thesis unfolding eq
    proof (intro allI impI)
      fix j x assume "j < Suc n" "ri_read_index (fold_loop n reads l mn ! j) = Some x"
      then show "least_from ?R j x" by (cases "j = n") (use st bot IH n l(1) in auto)
    qed
  qed
qed simp

lemma fold_loop_not_max:
  assumes "k \<le> length reads" "r \<noteq> u64_MAX" "\<forall>j < length reads. ri_read_index (reads ! j) \<noteq> Some u64_MAX"
  shows "\<forall>j < length reads. ri_read_index (fold_loop k reads r mn ! j) \<noteq> Some u64_MAX"
  using assms
proof (induction k arbitrary: reads r)
  case (Suc n)
  let ?reads = "reads[n := (reads ! n)\<lparr>ri_read_index := Some r\<rparr>]"
  define l where "l = (case ri_read_index (reads ! n) of Some i \<Rightarrow> i | None \<Rightarrow> u64_MAX)"
  have "\<forall>j < length ?reads. ri_read_index (?reads ! j) \<noteq> Some u64_MAX" using Suc.prems by (auto simp: nth_list_update)
  moreover have "l \<noteq> u64_MAX" if "\<not> r < l" using that Suc.prems(2) by (metis word_order.not_eq_extremum)
  ultimately show ?case using Suc.IH [of ?reads r] Suc.IH [of reads l] Suc.prems by (simp add: l_def [symmetric])
qed simp

section \<open>The invariant\<close>

definition rq_ok :: "('c, 't) ReadIndexQueue \<Rightarrow> bool" where
  "rq_ok q \<longleftrightarrow> ctx_ok q \<and> rq_ready_cnt q \<le> length (rq_reads q) \<and>
    (\<forall>j < length (rq_reads q). (idx q j \<noteq> None \<longleftrightarrow> j < rq_ready_cnt q) \<and> idx q j \<noteq> Some u64_MAX)"

lemma rq_okD:
  assumes "rq_ok q"
  shows "ctx_ok q" "rq_ready_cnt q \<le> length (rq_reads q)" "j < length (rq_reads q) \<Longrightarrow> idx q j \<noteq> None \<longleftrightarrow> j < rq_ready_cnt q"
    "j < length (rq_reads q) \<Longrightarrow> idx q j \<noteq> Some u64_MAX"
  using assms unfolding rq_ok_def by blast+

lemma rq_okI:
  assumes "ctx_ok q" "rq_ready_cnt q \<le> length (rq_reads q)"
    and "\<And>j. j < length (rq_reads q) \<Longrightarrow> (idx q j \<noteq> None \<longleftrightarrow> j < rq_ready_cnt q) \<and> idx q j \<noteq> Some u64_MAX"
  shows "rq_ok q"
  using assms unfolding rq_ok_def by blast

text \<open>In the queue of a follower a request never has a larger read index than a later one.\<close>

definition rq_sorted :: "('c, 't) ReadIndexQueue \<Rightarrow> bool" where
  "rq_sorted q \<longleftrightarrow> (\<forall>i j x y. i \<le> j \<longrightarrow> j < length (rq_reads q) \<longrightarrow> idx q i = Some x \<longrightarrow> idx q j = Some y \<longrightarrow> x \<le> y)"

lemma ctx_ok_same:
  assumes "ctx_ok q" "rq_contexts q' = rq_contexts q" "rq_handled_cnt q' = rq_handled_cnt q" "length (rq_reads q') = length (rq_reads q)"
    and "\<And>j. j < length (rq_reads q) \<Longrightarrow> ri_id (rq_reads q' ! j) = ri_id (rq_reads q ! j) \<and> ri_in_contexts (rq_reads q' ! j) = ri_in_contexts (rq_reads q ! j)"
  shows "ctx_ok q'"
proof -
  have "map ri_id (rq_reads q') = map ri_id (rq_reads q)" using assms(4,5) by (auto intro: nth_equalityI)
  moreover have "off - rq_handled_cnt q < length (rq_reads q)" if "rq_contexts q u = Some off" for u off
    using assms(1) that unfolding ctx_ok_def by force
  ultimately show ?thesis using assms unfolding ctx_ok_def by metis
qed

text \<open>A read index a request has, or gets from a batch of answers.\<close>

definition answer :: "('c, 't) ReadIndexQueue \<Rightarrow> (Uuid \<times> u64) list \<Rightarrow> nat \<Rightarrow> u64 \<Rightarrow> bool" where
  "answer q states j y \<longleftrightarrow> j < length (rq_reads q) \<and> (idx q j = Some y \<or> resp q states j = Some y)"

lemma merge_idx_cases: "merge_idx a b = Some y \<Longrightarrow> a = Some y \<or> b = Some y"
  by (cases a; cases b) (auto simp: min_def split: if_splits)

lemma merge_idx_le: "a = Some y \<or> b = Some y \<Longrightarrow> \<exists>y' \<le> y. merge_idx a b = Some y'"
  by (cases a; cases b) auto

lemma loop_same:
  assumes "loop_done q r mn0 mx0 q1 (Some m) mx" "j < length (rq_reads q)" "j < m \<or> mx < j"
  shows "idx q1 j = idx q j"
proof (rule ccontr)
  assume "idx q1 j \<noteq> idx q j"
  then show False using loop_doneD(2) [OF assms(1,2)] assms(3) by simp
qed

lemma loop_answers:
  assumes "loop_done q (resp q states) mn mx q1 mn1 mx1" "j < length (rq_reads q)"
  shows "idx q1 j = Some y \<Longrightarrow> answer q states j y" "answer q states j y \<Longrightarrow> \<exists>y' \<le> y. idx q1 j = Some y'"
  using loop_doneD(1) [OF assms] merge_idx_cases merge_idx_le assms(2) unfolding answer_def by metis+

lemma resp_small: "\<forall>(u, x) \<in> set states. x \<noteq> u64_MAX \<Longrightarrow> resp q states j \<noteq> Some u64_MAX"
  unfolding resp_def by (auto dest: map_of_SomeD)

text \<open>The queue after a batch that changed something, with the requests before the last change settled.\<close>

definition settled :: "('c, 't) ReadIndexQueue \<Rightarrow> nat \<Rightarrow> nat \<Rightarrow> u64 \<Rightarrow> ('c, 't) ReadIndexQueue" where
  "settled q1 m mx r = q1\<lparr>rq_ready_cnt := max (rq_ready_cnt q1) (mx + 1), rq_reads := fold_loop mx (rq_reads q1) r m\<rparr>"

lemma advance_replica_cases:
  assumes "rq_ok q"
  obtains q1 where "advance_replica_reads q states = Ok q1" "loop_done q (resp q states) None 0 q1 None 0"
  | q1 m mx r where "advance_replica_reads q states = Ok (settled q1 m mx r)" "idx q1 mx = Some r" "mx < length (rq_reads q)"
      "loop_done q (resp q states) None 0 q1 (Some m) mx"
proof -
  obtain q1 mn mx where l: "advance_replica_loop q states None 0 = Ok (q1, mn, mx)" "loop_done q (resp q states) None 0 q1 mn mx"
    using advance_replica_loop_spec [of q None 0 states] rq_okD(1) [OF assms] by auto
  show ?thesis
  proof (cases mn)
    case None
    then have "mx = 0" using loop_doneD(5) [OF l(2)] by simp
    then show ?thesis using that(1) [of q1] l None by (simp add: advance_replica_reads_def)
  next
    case (Some m)
    obtain r where r: "mx < length (rq_reads q)" "idx q1 mx = Some r" using loop_doneD(6) [OF l(2) Some] by auto
    have "advance_replica_reads q states = Ok (settled q1 m mx r)"
      using r loop_doneD(7) [OF l(2)] by (cases q1) (auto simp: advance_replica_reads_def l(1) Some ReadIndexQueue_fold_def settled_def Let_def)
    then show ?thesis using that(2) r l(2) Some by blast
  qed
qed

text \<open>What a batch makes of the queue, whether or not it changed an index.\<close>

definition batch_done :: "('c, 't) ReadIndexQueue \<Rightarrow> (Uuid \<times> u64) list \<Rightarrow> ('c, 't) ReadIndexQueue \<Rightarrow> bool" where
  "batch_done q states q' \<longleftrightarrow> rq_ok q' \<and> rq_handled_cnt q' = rq_handled_cnt q \<and> map ri_id (rq_reads q') = map ri_id (rq_reads q) \<and>
    (\<forall>i. i < rq_ready_cnt q' \<longleftrightarrow> (\<exists>j \<ge> i. \<exists>y. answer q states j y)) \<and>
    (rq_sorted q \<longrightarrow> (\<forall>i x. i < length (rq_reads q) \<longrightarrow> idx q' i = Some x \<longrightarrow> least_from (answer q states) i x))"

lemma batch_sorted:
  assumes d: "batch_done q states q'" and srt: "rq_sorted q"
  shows "rq_sorted q'"
  unfolding rq_sorted_def
proof (intro allI impI)
  fix i j x y assume a: "i \<le> j" "j < length (rq_reads q')" "idx q' i = Some x" "idx q' j = Some y"
  have "length (rq_reads q') = length (rq_reads q)" using d unfolding batch_done_def by (metis length_map)
  then have "least_from (answer q states) i x" "least_from (answer q states) j y" using d srt a unfolding batch_done_def by simp_all
  then show "x \<le> y" using a(1) unfolding least_from_def by (meson order_trans)
qed

lemma unchanged_batch:
  assumes ok: "rq_ok q" and d: "loop_done q (resp q states) None 0 q1 None 0"
  shows "batch_done q states q1"
proof -
  note q1 = loop_doneD(7) [OF d]
  have same: "idx q1 j = idx q j" if "j < length (rq_reads q)" for j using loop_doneD(2) [OF d that] by blast
  have low: "\<exists>y' \<le> y. idx q j = Some y'" if "answer q states j y" for j y
    using loop_answers(2) [OF d, of j y] that same unfolding answer_def by metis
  have has: "answer q states j y" if "idx q j = Some y" "j < length (rq_reads q)" for j y using that by (simp add: answer_def)
  have "rq_ok q1" using ok same q1 unfolding rq_ok_def by simp
  moreover have "i < rq_ready_cnt q1 \<longleftrightarrow> (\<exists>j \<ge> i. \<exists>y. answer q states j y)" for i
  proof
    assume "i < rq_ready_cnt q1"
    then obtain x where "idx q i = Some x" "i < length (rq_reads q)" using rq_okD(2) [OF ok] rq_okD(3) [OF ok, of i] q1 by auto
    then show "\<exists>j \<ge> i. \<exists>y. answer q states j y" using has by blast
  next
    assume "\<exists>j \<ge> i. \<exists>y. answer q states j y"
    then obtain j where "j \<ge> i" "j < length (rq_reads q)" "idx q j \<noteq> None" using low unfolding answer_def by blast
    then show "i < rq_ready_cnt q1" using rq_okD(3) [OF ok, of j] q1 by simp
  qed
  moreover have "least_from (answer q states) i x" if srt: "rq_sorted q" and i: "i < length (rq_reads q)" "idx q1 i = Some x" for i x
    unfolding least_from_def
  proof (intro conjI allI impI)
    have x: "idx q i = Some x" using same [OF i(1)] i(2) by simp
    then show "\<exists>j \<ge> i. answer q states j x" using has [OF _ i(1)] by blast
    fix j y assume j: "i \<le> j" "answer q states j y"
    then obtain y' where y': "y' \<le> y" "idx q j = Some y'" "j < length (rq_reads q)" using low [OF j(2)] unfolding answer_def by blast
    then have "x \<le> y'" using srt x j(1) unfolding rq_sorted_def by blast
    then show "x \<le> y" using y'(1) by simp
  qed
  ultimately show ?thesis using q1 unfolding batch_done_def by blast
qed

lemma settled_idx:
  assumes ok: "rq_ok q" and d: "loop_done q (resp q states) None 0 q1 (Some m) mx" and r: "idx q1 mx = Some r" "r \<noteq> u64_MAX" "mx < length (rq_reads q)"
  shows "j < mx \<Longrightarrow> idx (settled q1 m mx r) j \<noteq> None" "idx (settled q1 m mx r) mx = Some r"
    "mx < j \<Longrightarrow> j < length (rq_reads q) \<Longrightarrow> idx (settled q1 m mx r) j = idx q j"
proof -
  have same: "idx q1 j = idx q j" if "j < length (rq_reads q)" "j < m \<or> mx < j" for j by (rule loop_same [OF d that])
  have len: "length (rq_reads q1) = length (rq_reads q)" using loop_doneD(7) [OF d] by simp
  have "\<forall>j < mx. ri_read_index (fold_loop mx (rq_reads q1) r m ! j) \<noteq> None"
  proof (rule fold_loop_some)
    have "idx q1 i \<noteq> None" if "j < mx" "j < m" "idx q1 j \<noteq> None" "i \<le> j" for i j
      using same [of j] same [of i] rq_okD(3) [OF ok, of j] rq_okD(3) [OF ok, of i] that r(3) by auto
    then show "\<forall>j < mx. j < m \<longrightarrow> idx q1 j \<noteq> None \<longrightarrow> (\<forall>i \<le> j. idx q1 i \<noteq> None)" by blast
  qed (use len r in simp_all)
  then show "j < mx \<Longrightarrow> idx (settled q1 m mx r) j \<noteq> None" by (simp add: settled_def)
  show "idx (settled q1 m mx r) mx = Some r" using fold_loop_same(3) [of mx mx "rq_reads q1" r m] r by (simp add: settled_def)
  show "mx < j \<Longrightarrow> j < length (rq_reads q) \<Longrightarrow> idx (settled q1 m mx r) j = idx q j"
    using fold_loop_same(3) [of mx j "rq_reads q1" r m] same [of j] by (simp add: settled_def)
qed

lemma settled_least:
  assumes ok: "rq_ok q" and d: "loop_done q (resp q states) None 0 q1 (Some m) mx" and r: "idx q1 mx = Some r" "r \<noteq> u64_MAX" "mx < length (rq_reads q)"
    and srt: "rq_sorted q" and x: "idx (settled q1 m mx r) i = Some x" "i \<le> mx"
  shows "least_from (answer q states) i x"
proof -
  let ?R = "\<lambda>j y. j < mx \<and> idx q1 j = Some y \<or> j = mx \<and> y = r"
  have len: "length (rq_reads q1) = length (rq_reads q)" using loop_doneD(7) [OF d] by simp
  have same: "idx q1 j = idx q j" if "j < length (rq_reads q)" "j < m \<or> mx < j" for j by (rule loop_same [OF d that])
  have "\<forall>j < mx. \<forall>x. ri_read_index (fold_loop mx (rq_reads q1) r m ! j) = Some x \<longrightarrow> least_from ?R j x"
  proof (rule fold_loop_least)
    have "\<exists>y. idx q1 i = Some y \<and> y \<le> x" if a: "j < mx" "j < m" "idx q1 j = Some x" "i \<le> j" for i j x
    proof -
      have "idx q j = Some x" "j < length (rq_reads q)" "i < length (rq_reads q)" using same [of j] a r(3) by auto
      then obtain y where "idx q i = Some y" using rq_okD(3) [OF ok, of j] rq_okD(3) [OF ok, of i] a(4) by auto
      then show ?thesis using srt \<open>idx q j = Some x\<close> same [of i] a r(3) unfolding rq_sorted_def by auto
    qed
    then show "\<forall>j < mx. j < m \<longrightarrow> (\<forall>x. idx q1 j = Some x \<longrightarrow> (\<forall>i \<le> j. \<exists>y. idx q1 i = Some y \<and> y \<le> x))" by blast
  qed (use len r in simp_all)
  moreover have "least_from ?R mx r" unfolding least_from_def by auto
  ultimately have "least_from ?R i x" using x settled_idx(2) [OF ok d r] by (cases "i = mx") (auto simp: settled_def)
  then show ?thesis
  proof (rule least_from_shift)
    fix j y assume "i \<le> j" "?R j y"
    then show "\<exists>j' \<ge> i. answer q states j' y" using loop_answers(1) [OF d, of j y] r by auto
  next
    fix j y assume j: "i \<le> j" "answer q states j y"
    then obtain y' where y': "y' \<le> y" "idx q1 j = Some y'" "j < length (rq_reads q)" using loop_answers(2) [OF d, of j y] unfolding answer_def by auto
    show "\<exists>j' \<ge> i. \<exists>y' \<le> y. ?R j' y'"
    proof (cases "j \<le> mx")
      case True
      then show ?thesis using y' j(1) r(1) by (intro exI [of _ j] exI [of _ y'] conjI) auto
    next
      case False
      then have "idx q j = Some y'" using same y' by simp
      moreover obtain z where z: "idx q mx = Some z"
        using rq_okD(3) [OF ok, of j] rq_okD(3) [OF ok, of mx] \<open>idx q j = Some y'\<close> y'(3) False r(3) by auto
      ultimately have "z \<le> y'" using srt y'(3) False unfolding rq_sorted_def by (metis nat_le_linear)
      moreover have "r \<le> z" using loop_doneD(1) [OF d r(3)] r(1) z by (cases "resp q states mx") auto
      ultimately show ?thesis using x(2) y'(1) by (intro exI [of _ mx] exI [of _ r]) auto
    qed
  qed
qed

lemma settled_ok:
  assumes ok: "rq_ok q" and d: "loop_done q (resp q states) None 0 q1 (Some m) mx" and r: "idx q1 mx = Some r" "mx < length (rq_reads q)"
    and small: "\<forall>(u, x) \<in> set states. x \<noteq> u64_MAX"
  shows "r \<noteq> u64_MAX" "rq_ok (settled q1 m mx r)"
proof -
  note q1 = loop_doneD(7) [OF d]
  have nm: "idx q1 j \<noteq> Some u64_MAX" if "j < length (rq_reads q)" for j
    using loop_doneD(1) [OF d that] merge_idx_cases [of "idx q j" "resp q states j" u64_MAX] rq_okD(4) [OF ok that] resp_small [OF small]
    by metis
  then show rm: "r \<noteq> u64_MAX" using r by metis
  let ?q = "settled q1 m mx r"
  note i = settled_idx [OF ok d r(1) rm r(2)]
  have len: "length (rq_reads ?q) = length (rq_reads q)" using q1 by (simp add: settled_def fold_loop_same(1))
  have "ctx_ok ?q"
  proof (rule ctx_ok_same)
    fix j assume "j < length (rq_reads q1)"
    then show "ri_id (rq_reads ?q ! j) = ri_id (rq_reads q1 ! j) \<and> ri_in_contexts (rq_reads ?q ! j) = ri_in_contexts (rq_reads q1 ! j)"
      by (simp add: settled_def fold_loop_fields)
  qed (use q1 len in \<open>simp_all add: settled_def\<close>)
  moreover have "\<forall>j < length (rq_reads q). idx ?q j \<noteq> Some u64_MAX"
    using fold_loop_not_max [of mx "rq_reads q1" r m] nm q1 r rm by (simp add: settled_def)
  moreover have "idx ?q j \<noteq> None \<longleftrightarrow> j < rq_ready_cnt ?q" if "j < length (rq_reads q)" for j
  proof (cases "j \<le> mx")
    case True
    then have "idx ?q j \<noteq> None" using i(1,2) by (cases "j = mx") auto
    then show ?thesis using True by (simp add: settled_def)
  next
    case False
    then have "idx ?q j = idx q j" using i(3) that by simp
    then show ?thesis using False rq_okD(3) [OF ok that] q1 by (simp add: settled_def less_max_iff_disj)
  qed
  moreover have "rq_ready_cnt ?q \<le> length (rq_reads q)" using rq_okD(2) [OF ok] r(2) q1 by (simp add: settled_def)
  ultimately show "rq_ok ?q" unfolding rq_ok_def len by blast
qed

lemma settled_batch:
  assumes ok: "rq_ok q" and d: "loop_done q (resp q states) None 0 q1 (Some m) mx" and r: "idx q1 mx = Some r" "mx < length (rq_reads q)"
    and small: "\<forall>(u, x) \<in> set states. x \<noteq> u64_MAX"
  shows "batch_done q states (settled q1 m mx r)"
proof -
  let ?q = "settled q1 m mx r"
  note q1 = loop_doneD(7) [OF d] and s = settled_ok [OF ok d r small]
  note i = settled_idx [OF ok d r(1) s(1) r(2)]
  have ready: "i < rq_ready_cnt ?q \<longleftrightarrow> i \<le> mx \<or> i < rq_ready_cnt q" for i using q1 by (auto simp: settled_def)
  have low: "\<exists>y' \<le> y. idx q j = Some y'" if "answer q states j y" "mx < j" for j y
    using loop_answers(2) [OF d, of j y] loop_same [OF d, of j] that unfolding answer_def by auto
  have "map ri_id (rq_reads ?q) = map ri_id (rq_reads q1)"
  proof (rule nth_equalityI)
    fix j assume "j < length (map ri_id (rq_reads ?q))"
    then have "j < length (rq_reads q1)" by (simp add: settled_def fold_loop_same(1))
    then show "map ri_id (rq_reads ?q) ! j = map ri_id (rq_reads q1) ! j" by (simp add: settled_def fold_loop_same(1) fold_loop_fields)
  qed (simp add: settled_def fold_loop_same(1))
  moreover have "i < rq_ready_cnt ?q \<longleftrightarrow> (\<exists>j \<ge> i. \<exists>y. answer q states j y)" for i
  proof
    assume "i < rq_ready_cnt ?q"
    then consider "i \<le> mx" | "i < rq_ready_cnt q" using ready by blast
    then show "\<exists>j \<ge> i. \<exists>y. answer q states j y"
    proof cases
      case 1
      then show ?thesis using loop_answers(1) [OF d r(2,1)] by blast
    next
      case 2
      then obtain x where "idx q i = Some x" "i < length (rq_reads q)" using rq_okD(2) [OF ok] rq_okD(3) [OF ok, of i] by auto
      then have "answer q states i x" by (simp add: answer_def)
      then show ?thesis by blast
    qed
  next
    assume "\<exists>j \<ge> i. \<exists>y. answer q states j y"
    then obtain j y where j: "j \<ge> i" "answer q states j y" by blast
    show "i < rq_ready_cnt ?q"
    proof (cases "j \<le> mx")
      case False
      then have "idx q j \<noteq> None" "j < length (rq_reads q)" using low [OF j(2)] j(2) unfolding answer_def by auto
      then show ?thesis using rq_okD(3) [OF ok, of j] j(1) ready by auto
    qed (use j(1) ready in auto)
  qed
  moreover have "least_from (answer q states) i x" if srt: "rq_sorted q" and x: "i < length (rq_reads q)" "idx ?q i = Some x" for i x
  proof (cases "i \<le> mx")
    case True
    then show ?thesis using settled_least [OF ok d r(1) s(1) r(2) srt x(2)] by blast
  next
    case False
    then have qi: "idx q i = Some x" using i(3) x by simp
    show ?thesis unfolding least_from_def
    proof (intro conjI allI impI)
      show "\<exists>j \<ge> i. answer q states j x" using qi x(1) unfolding answer_def by blast
      fix j y assume j: "i \<le> j" "answer q states j y"
      then obtain y' where y': "y' \<le> y" "idx q j = Some y'" "j < length (rq_reads q)" using low [OF j(2)] False unfolding answer_def by auto
      then have "x \<le> y'" using srt qi j(1) unfolding rq_sorted_def by blast
      then show "x \<le> y" using y'(1) by simp
    qed
  qed
  ultimately show ?thesis using q1 s(2) unfolding batch_done_def by (simp add: settled_def)
qed

lemma advance_replica_batch:
  assumes "rq_ok q" "\<forall>(u, x) \<in> set states. x \<noteq> u64_MAX"
  shows "\<exists>q'. advance_replica_reads q states = Ok q' \<and> batch_done q states q'"
  using advance_replica_cases [OF assms(1), of states thesis for thesis] unchanged_batch [OF assms(1)] settled_batch [OF assms(1) _ _ _ assms(2)]
  by metis

section \<open>The queue of a peer\<close>

text \<open>
  What a peer does with its queue. The flag says that the peer has been a follower since the queue was
  empty: only a leader uses \<open>advance_leader_reads\<close>. A request is new, waits for its index, and no
  read index is the largest 64-bit number.
\<close>

inductive reach :: "bool \<Rightarrow> ('c, 't) ReadIndexQueue \<Rightarrow> bool" for follower where
  start: "reach follower ReadIndexQueue_default"
| push: "reach follower (push_back q read is_leader)"
    if "reach follower q" "ri_id read \<notin> ri_id ` set (rq_reads q)" "ri_read_index read = None"
| push_cmd: "reach follower q'" if "reach follower q" "back_mut q (\<lambda>r. push_command r req i) = Some q'"
| leader: "reach follower q'"
    if "reach follower q" "\<not> follower" "advance_leader_reads q states = Ok q'" "\<forall>(u, x) \<in> set states. x \<noteq> u64_MAX"
| replica: "reach follower q'"
    if "reach follower q" "advance_replica_reads q states = Ok q'" "\<forall>(u, x) \<in> set states. x \<noteq> u64_MAX"
| pop: "reach follower q'" if "reach follower q" "pop_front q = Ok (q', read)"
| pop_push: "reach follower q''" if "reach follower q" "pop_front q = Ok (q', Some read)" "push_front q' read = Ok q''"
| clear: "reach follower (fst (clear_all q notify))" if "reach follower q"
| role: "reach follower q'" if "reach follower q" "clear_uncommitted_on_role_change q new_term = Ok (q', ns)"
| retry: "reach follower (fst (check_needs_retry q ticks))" if "reach follower q"

lemma ctx_okI:
  assumes "distinct (map ri_id (rq_reads q))"
    and "\<And>u off. rq_contexts q u = Some off \<Longrightarrow> rq_handled_cnt q \<le> off \<and> off < rq_handled_cnt q + length (rq_reads q) \<and>
       ri_id (rq_reads q ! (off - rq_handled_cnt q)) = u \<and> ri_in_contexts (rq_reads q ! (off - rq_handled_cnt q))"
  shows "ctx_ok q"
  using assms unfolding ctx_ok_def by blast

lemma ctx_okD:
  assumes "ctx_ok q" "rq_contexts q u = Some off"
  shows "rq_handled_cnt q \<le> off \<and> off < rq_handled_cnt q + length (rq_reads q) \<and>
       ri_id (rq_reads q ! (off - rq_handled_cnt q)) = u \<and> ri_in_contexts (rq_reads q ! (off - rq_handled_cnt q))"
  using assms unfolding ctx_ok_def by blast

lemma push_back_ok:
  assumes ok: "rq_ok q" and new: "ri_id read \<notin> ri_id ` set (rq_reads q)" "ri_read_index read = None"
  shows "rq_ok (push_back q read l)"
proof -
  let ?q = "push_back q read l" and ?n = "length (rq_reads q)"
  obtain read' where read': "rq_reads ?q = rq_reads q @ [read']" "ri_id read' = ri_id read" "ri_read_index read' = None" "l \<or> ri_in_contexts read'"
    using new(2) by (cases l) (auto simp: push_back_def Let_def)
  have same: "rq_handled_cnt ?q = rq_handled_cnt q" "rq_ready_cnt ?q = rq_ready_cnt q" by (auto simp: push_back_def Let_def)
  have ctx: "rq_contexts ?q = (if l then rq_contexts q else (rq_contexts q)(ri_id read \<mapsto> rq_handled_cnt q + ?n))"
    by (auto simp: push_back_def Let_def)
  have "ctx_ok ?q"
  proof (rule ctx_okI)
    show "distinct (map ri_id (rq_reads ?q))" using rq_okD(1) [OF ok] new(1) read' by (auto simp: ctx_ok_def)
    fix u off assume "rq_contexts ?q u = Some off"
    then have c: "(if \<not> l \<and> u = ri_id read then Some (rq_handled_cnt q + ?n) else rq_contexts q u) = Some off" unfolding ctx by (cases l) simp_all
    show "rq_handled_cnt ?q \<le> off \<and> off < rq_handled_cnt ?q + length (rq_reads ?q) \<and>
       ri_id (rq_reads ?q ! (off - rq_handled_cnt ?q)) = u \<and> ri_in_contexts (rq_reads ?q ! (off - rq_handled_cnt ?q))"
    proof (cases "\<not> l \<and> u = ri_id read")
      case True
      then have "off = rq_handled_cnt q + ?n" using c by simp
      then show ?thesis using True read'(2,4) unfolding same read'(1) by simp
    next
      case False
      then have "rq_contexts q u = Some off" using c unfolding if_not_P [OF False] by simp
      from ctx_okD [OF rq_okD(1) [OF ok] this] have o: "rq_handled_cnt q \<le> off" "off - rq_handled_cnt q < ?n"
        "ri_id (rq_reads q ! (off - rq_handled_cnt q)) = u" "ri_in_contexts (rq_reads q ! (off - rq_handled_cnt q))" by auto
      then show ?thesis unfolding same read'(1) nth_append by simp
    qed
  qed
  then show ?thesis
  proof (rule rq_okI)
    show "rq_ready_cnt ?q \<le> length (rq_reads ?q)" using rq_okD(2) [OF ok] unfolding same read'(1) by simp
    fix j assume "j < length (rq_reads ?q)"
    then have "j < ?n \<or> j = ?n" unfolding read'(1) by auto
    then show "(idx ?q j \<noteq> None \<longleftrightarrow> j < rq_ready_cnt ?q) \<and> idx ?q j \<noteq> Some u64_MAX"
      using rq_okD(2) [OF ok] rq_okD(3,4) [OF ok, of j] read'(3) unfolding same read'(1) by (auto simp: nth_append)
  qed
qed

lemma same_queue_ok:
  assumes ok: "rq_ok q" and same: "rq_contexts q' = rq_contexts q" "rq_handled_cnt q' = rq_handled_cnt q" "length (rq_reads q') = length (rq_reads q)"
      "rq_ready_cnt q' = rq_ready_cnt q"
    and reads: "\<And>j. j < length (rq_reads q) \<Longrightarrow> ri_id (rq_reads q' ! j) = ri_id (rq_reads q ! j) \<and>
      ri_in_contexts (rq_reads q' ! j) = ri_in_contexts (rq_reads q ! j) \<and> idx q' j = idx q j"
  shows "rq_ok q'" "rq_sorted q \<Longrightarrow> rq_sorted q'"
proof -
  have "ctx_ok q'" using ctx_ok_same [OF rq_okD(1) [OF ok] same(1-3)] reads by blast
  then show "rq_ok q'" using rq_okD(2) [OF ok] rq_okD(3,4) [OF ok] reads same by (intro rq_okI) auto
  show "rq_sorted q'" if srt: "rq_sorted q" unfolding rq_sorted_def
  proof (intro allI impI)
    fix i j x y assume a: "i \<le> j" "j < length (rq_reads q')" "idx q' i = Some x" "idx q' j = Some y"
    then have "idx q i = Some x" "idx q j = Some y" "j < length (rq_reads q)" using reads [of i] reads [of j] same(3) by auto
    then show "x \<le> y" using srt a(1) unfolding rq_sorted_def by blast
  qed
qed

lemma push_cmd_ok:
  assumes ok: "rq_ok q" and b: "back_mut q (\<lambda>r. push_command r req i) = Some q'"
  shows "rq_ok q'" "rq_sorted q \<Longrightarrow> rq_sorted q'"
proof -
  obtain xs x where x: "rq_reads q = xs @ [x]" using b by (cases "rq_reads q" rule: rev_cases) (auto simp: back_mut_def)
  have q': "q' = q\<lparr>rq_reads := xs @ [push_command x req i]\<rparr>" using b x by (simp add: back_mut_def)
  show "rq_ok q'" "rq_sorted q \<Longrightarrow> rq_sorted q'"
    by (rule same_queue_ok [OF ok]; auto simp: q' x push_command_def nth_append less_Suc_eq)+
qed

lemma advance_leader_ok:
  "rq_ok q \<Longrightarrow> advance_leader_reads q states = Ok q' \<Longrightarrow> \<forall>(u, x) \<in> set states. x \<noteq> u64_MAX \<Longrightarrow> rq_ok q'"
proof (induction q states rule: advance_leader_reads.induct)
  case (2 q u x states)
  let ?n = "rq_ready_cnt q"
  let ?q = "(set_read_index q ?n x)\<lparr>rq_ready_cnt := ?n + 1\<rparr>"
  have n: "?n < length (rq_reads q)" "u = ri_id (rq_reads q ! ?n)" using "2.prems"(2) by (auto split: if_splits)
  have "ctx_ok ?q" using rq_okD(1) [OF "2.prems"(1)] n(1)
    by (rule_tac ctx_ok_same) (auto simp: set_read_index_def nth_list_update)
  then have "rq_ok ?q"
  proof (rule rq_okI)
    show "rq_ready_cnt ?q \<le> length (rq_reads ?q)" using n(1) by (simp add: set_read_index_def)
    fix j assume "j < length (rq_reads ?q)"
    then show "(idx ?q j \<noteq> None \<longleftrightarrow> j < rq_ready_cnt ?q) \<and> idx ?q j \<noteq> Some u64_MAX"
      using rq_okD(3,4) [OF "2.prems"(1), of j] "2.prems"(3) n(1) by (cases "j = ?n") (auto simp: set_read_index_def)
  qed
  then show ?case using "2.IH" "2.prems"(2,3) n by (simp add: Let_def set_read_index_def)
qed simp

lemma pop_front_cases:
  assumes ok: "rq_ok q"
  obtains "pop_front q = Ok (q, None)" "rq_ready_cnt q = 0"
  | res reads q' where "rq_reads q = res # reads" "rq_ready_cnt q > 0" "pop_front q = Ok (q', Some (res\<lparr>ri_in_contexts := False\<rparr>))"
      "rq_reads q' = reads" "rq_ready_cnt q' = rq_ready_cnt q - 1" "rq_handled_cnt q' = rq_handled_cnt q + 1"
      "\<And>u off. rq_contexts q' u = Some off \<Longrightarrow> rq_contexts q u = Some off \<and> u \<noteq> ri_id res"
proof (cases "rq_ready_cnt q = 0")
  case True
  then show ?thesis using that(1) by (simp add: pop_front_def)
next
  case False
  then obtain res reads where r: "rq_reads q = res # reads" using rq_okD(2) [OF ok] by (cases "rq_reads q") auto
  define c where "c = (if ri_in_contexts res then (rq_contexts q)(ri_id res := None) else rq_contexts q)"
  define q' where "q' = q\<lparr>rq_ready_cnt := rq_ready_cnt q - 1, rq_handled_cnt := rq_handled_cnt q + 1, rq_reads := reads, rq_contexts := c\<rparr>"
  have "res\<lparr>ri_in_contexts := False\<rparr> = res" if "\<not> ri_in_contexts res" using that by (cases res) simp
  moreover have "q\<lparr>rq_ready_cnt := a, rq_handled_cnt := b, rq_reads := reads, rq_contexts := rq_contexts q\<rparr> =
      q\<lparr>rq_ready_cnt := a, rq_handled_cnt := b, rq_reads := reads\<rparr>" for a b by (cases q) simp
  ultimately have "pop_front q = Ok (q', Some (res\<lparr>ri_in_contexts := False\<rparr>))"
    using False r by (auto simp: pop_front_def q'_def c_def Let_def)
  moreover have "rq_contexts q u = Some off \<and> u \<noteq> ri_id res" if u: "rq_contexts q' u = Some off" for u off
  proof -
    have c: "rq_contexts q u = Some off" using u unfolding q'_def c_def by (simp split: if_splits)
    have "ri_in_contexts res" if "u = ri_id res"
    proof -
      note o = ctx_okD [OF rq_okD(1) [OF ok] c]
      have "distinct (map ri_id (rq_reads q))" using rq_okD(1) [OF ok] by (simp add: ctx_ok_def)
      moreover have l: "off - rq_handled_cnt q < length (rq_reads q)" "0 < length (rq_reads q)" using o r by auto
      moreover have "map ri_id (rq_reads q) ! (off - rq_handled_cnt q) = map ri_id (rq_reads q) ! 0"
        unfolding nth_map [OF l(1)] nth_map [OF l(2)] using o that r by simp
      ultimately have "off - rq_handled_cnt q = 0" by (metis length_map nth_eq_iff_index_eq)
      then show ?thesis using o r by simp
    qed
    then show ?thesis using u c unfolding q'_def c_def by (auto split: if_splits)
  qed
  ultimately show ?thesis using that(2) [of res reads q'] r False by (simp add: q'_def)
qed

lemma pop_front_ok:
  assumes ok: "rq_ok q" and p: "pop_front q = Ok (q', read)"
  shows "rq_ok q'" "rq_sorted q \<Longrightarrow> rq_sorted q'"
proof -
  have "rq_ok q' \<and> (rq_sorted q \<longrightarrow> rq_sorted q')" using ok
  proof (cases rule: pop_front_cases)
    case 1
    then show ?thesis using p ok by simp
  next
    case (2 res reads q1)
    have q1: "q' = q1" using 2(3) p by simp
    have len: "length (rq_reads q) = Suc (length reads)" and nth: "rq_reads q ! Suc j = reads ! j" for j using 2(1) by simp_all
    have "ctx_ok q1"
    proof (rule ctx_okI)
      show "distinct (map ri_id (rq_reads q1))" using rq_okD(1) [OF ok] 2(1,4) by (simp add: ctx_ok_def)
      fix u off assume "rq_contexts q1 u = Some off"
      from 2(7) [OF this] have c: "rq_contexts q u = Some off" "u \<noteq> ri_id res" by auto
      note o = ctx_okD [OF rq_okD(1) [OF ok] c(1)]
      then have "off - rq_handled_cnt q \<noteq> 0" using c(2) 2(1) by (metis nth_Cons_0)
      then obtain k where "off - rq_handled_cnt q = Suc k" by (cases "off - rq_handled_cnt q") auto
      then have "off = rq_handled_cnt q + 1 + k" using o by linarith
      then show "rq_handled_cnt q1 \<le> off \<and> off < rq_handled_cnt q1 + length (rq_reads q1) \<and>
          ri_id (rq_reads q1 ! (off - rq_handled_cnt q1)) = u \<and> ri_in_contexts (rq_reads q1 ! (off - rq_handled_cnt q1))"
        using o unfolding 2(4,6) len by (simp add: nth)
    qed
    moreover have "(idx q1 j \<noteq> None \<longleftrightarrow> j < rq_ready_cnt q1) \<and> idx q1 j \<noteq> Some u64_MAX" if "j < length (rq_reads q1)" for j
      using rq_okD(3,4) [OF ok, of "Suc j"] that 2(2) unfolding 2(4,5) len nth by auto
    ultimately have "rq_ok q1" using rq_okD(2) [OF ok] 2(4,5) len by (intro rq_okI) auto
    moreover have "rq_sorted q1" if "rq_sorted q" using that nth unfolding rq_sorted_def 2(4) len by (metis Suc_le_mono Suc_less_eq)
    ultimately show ?thesis using q1 by simp
  qed
  then show "rq_ok q'" "rq_sorted q \<Longrightarrow> rq_sorted q'" by auto
qed

lemma pop_push_ok:
  assumes ok: "rq_ok q" and p: "pop_front q = Ok (q', Some read)" and f: "push_front q' read = Ok q''"
  shows "rq_ok q''" "rq_sorted q \<Longrightarrow> rq_sorted q''"
proof -
  have "rq_ok q'' \<and> (rq_sorted q \<longrightarrow> rq_sorted q'')" using ok
  proof (cases rule: pop_front_cases)
    case 1
    then show ?thesis using p by simp
  next
    case (2 res reads q1)
    have "q' = q1" "read = res\<lparr>ri_in_contexts := False\<rparr>" using 2(3) p by simp_all
    then have q'': "rq_reads q'' = res\<lparr>ri_in_contexts := False\<rparr> # reads" "rq_ready_cnt q'' = rq_ready_cnt q"
      "rq_handled_cnt q'' = rq_handled_cnt q" "rq_contexts q'' = rq_contexts q1"
      using f 2(2,4-6) by (auto simp: push_front_def split: if_splits)
    have id: "ri_id (rq_reads q'' ! j) = ri_id (rq_reads q ! j)" "idx q'' j = idx q j" "j > 0 \<Longrightarrow> rq_reads q'' ! j = rq_reads q ! j" for j
      unfolding q''(1) 2(1) by (cases j; simp)+
    have len: "length (rq_reads q'') = length (rq_reads q)" unfolding q''(1) 2(1) by simp
    have "ctx_ok q''"
    proof (rule ctx_okI)
      show "distinct (map ri_id (rq_reads q''))" using rq_okD(1) [OF ok] unfolding q''(1) 2(1) ctx_ok_def by simp
      fix u off assume "rq_contexts q'' u = Some off"
      then have "rq_contexts q1 u = Some off" using q''(4) by simp
      from 2(7) [OF this] have c: "rq_contexts q u = Some off" "u \<noteq> ri_id res" by auto
      note o = ctx_okD [OF rq_okD(1) [OF ok] c(1)]
      then have "off - rq_handled_cnt q > 0" using c(2) 2(1) by (metis nth_Cons_0 gr0I)
      then show "rq_handled_cnt q'' \<le> off \<and> off < rq_handled_cnt q'' + length (rq_reads q'') \<and>
          ri_id (rq_reads q'' ! (off - rq_handled_cnt q'')) = u \<and> ri_in_contexts (rq_reads q'' ! (off - rq_handled_cnt q''))"
        using o unfolding q''(3) len id(1) by (simp add: id(3))
    qed
    then have "rq_ok q''" using rq_okD(2) [OF ok] rq_okD(3,4) [OF ok] q''(2) len id(2) by (intro rq_okI) auto
    then show ?thesis unfolding rq_sorted_def len id(2) by blast
  qed
  then show "rq_ok q''" "rq_sorted q \<Longrightarrow> rq_sorted q''" by auto
qed

lemma reach_ok:
  assumes "reach follower q"
  shows "rq_ok q \<and> (follower \<longrightarrow> rq_sorted q)"
  using assms
proof (induction rule: reach.induct)
  case start
  then show ?case by (simp add: rq_ok_def ctx_ok_def rq_sorted_def ReadIndexQueue_default_def)
next
  case (push q read is_leader)
  obtain read' where r: "rq_reads (push_back q read is_leader) = rq_reads q @ [read']" "ri_read_index read' = None"
    using push(3) by (cases is_leader) (auto simp: push_back_def Let_def)
  have "rq_sorted (push_back q read is_leader)" if srt: "rq_sorted q" unfolding rq_sorted_def r(1)
  proof (intro allI impI)
    fix i j x y assume a: "i \<le> j" "j < length (rq_reads q @ [read'])" "ri_read_index ((rq_reads q @ [read']) ! i) = Some x"
      "ri_read_index ((rq_reads q @ [read']) ! j) = Some y"
    then have "j < length (rq_reads q)" using r(2) by (cases "j = length (rq_reads q)") auto
    then show "x \<le> y" using srt a(1,3,4) unfolding rq_sorted_def by (auto simp: nth_append)
  qed
  then show ?case using push push_back_ok by blast
next
  case (push_cmd q req i q')
  then show ?case using push_cmd_ok [OF _ push_cmd(2)] by simp
next
  case (leader q states q')
  then show ?case using advance_leader_ok by blast
next
  case (replica q states q')
  then have "batch_done q states q'" using advance_replica_batch [of q states] by auto
  then show ?case using replica(4) batch_sorted unfolding batch_done_def by blast
next
  case (pop q q' read)
  then show ?case using pop_front_ok by blast
next
  case (pop_push q q' read q'')
  then show ?case using pop_push_ok by blast
next
  case (clear q notify)
  then show ?case by (simp add: rq_ok_def ctx_ok_def rq_sorted_def clear_all_def)
next
  case (role q new_term q' ns)
  then have q': "q' = q\<lparr>rq_reads := take (rq_ready_cnt q) (rq_reads q), rq_contexts := Map.empty\<rparr>"
    by (auto simp: clear_uncommitted_on_role_change_def split: if_splits)
  have "rq_ok q'" using role(3) unfolding q' rq_ok_def ctx_ok_def by (auto simp: take_map [symmetric])
  then show ?case using role(3) unfolding q' rq_sorted_def by auto
next
  case (retry q ticks)
  have "rq_ok (q\<lparr>rq_retry_countdown := n\<rparr>) = rq_ok q" "rq_sorted (q\<lparr>rq_retry_countdown := n\<rparr>) = rq_sorted q" for n
    by (simp_all add: rq_ok_def ctx_ok_def rq_sorted_def)
  then show ?case using retry by (auto simp: check_needs_retry_def)
qed

text \<open>The calls of \<open>check_needs_retry\<close> on successive ticks.\<close>

primrec retries :: "nat \<Rightarrow> ('c, 't) ReadIndexQueue \<Rightarrow> u64 \<Rightarrow> bool list" where
  "retries 0 q ticks = []"
| "retries (Suc n) q ticks = (let (q, b) = check_needs_retry q ticks in b # retries n q ticks)"

lemma retries_countdown:
  assumes "has_unresolved q" "unat c = n" "c \<noteq> u64_MAX"
  shows "retries (Suc n) (q\<lparr>rq_retry_countdown := c\<rparr>) ticks = replicate n False @ [True]"
  using assms(2,3)
proof (induction n arbitrary: c)
  case 0
  then have "c = 0" by (simp add: unat_eq_zero)
  then show ?case using assms(1) by (auto simp: check_needs_retry_def has_unresolved_def)
next
  case (Suc n)
  have "c \<noteq> 0" using Suc.prems(1) by auto
  then have c: "c > 0" "unat (c - 1) = n" using Suc.prems(1) by (simp_all add: word_gt_0 unat_minus_one)
  have "c - 1 \<noteq> u64_MAX" using c(1) by auto
  from Suc.IH [OF c(2) this] show ?case using assms(1) c(1) Suc.prems(2)
    by (simp add: check_needs_retry_def has_unresolved_def)
qed

section \<open>Properties\<close>

lemma advance_leader_total:
  "rq_ready_cnt q + length idxs \<le> length (rq_reads q) \<Longrightarrow>
    \<exists>q'. advance_leader_reads q (zip (map ri_id (drop (rq_ready_cnt q) (rq_reads q))) idxs) = Ok q'"
proof (induction idxs arbitrary: q)
  case (Cons x idxs)
  let ?n = "rq_ready_cnt q"
  let ?q = "(set_read_index q ?n x)\<lparr>rq_ready_cnt := ?n + 1\<rparr>"
  have n: "?n < length (rq_reads q)" using Cons.prems by simp
  have "map ri_id (drop (rq_ready_cnt ?q) (rq_reads ?q)) = map ri_id (drop (Suc ?n) (rq_reads q))" by (simp add: set_read_index_def)
  then show ?case using Cons.IH [of ?q] Cons.prems n by (simp add: Cons_nth_drop_Suc [symmetric] set_read_index_def Let_def)
qed simp

text \<open>
  (C12) The queue of a peer never panics, whatever the order of its operations: after any of them
  the requests that are ready are exactly those with a read index, they come first, and the next
  operation succeeds. In particular a batch of answers for a follower may name requests in any order,
  twice, or that are gone; a leader's batch names the next requests in order; a popped request has its read
  index, and can be put back.
\<close>

theorem read_queue_safe:
  assumes "reach follower q"
  shows "rq_ready_cnt q \<le> length (rq_reads q) \<and>
    (\<forall>j < length (rq_reads q). ri_read_index (rq_reads q ! j) \<noteq> None \<longleftrightarrow> j < rq_ready_cnt q) \<and>
    (\<forall>states. (\<forall>(u, x) \<in> set states. x \<noteq> u64_MAX) \<longrightarrow> (\<exists>q'. advance_replica_reads q states = Ok q')) \<and>
    (\<forall>idxs. rq_ready_cnt q + length idxs \<le> length (rq_reads q) \<longrightarrow>
      (\<exists>q'. advance_leader_reads q (zip (map ri_id (drop (rq_ready_cnt q) (rq_reads q))) idxs) = Ok q')) \<and>
    (\<exists>q' ns. clear_uncommitted_on_role_change q new_term = Ok (q', ns)) \<and> (\<exists>r. last_ready q = Ok r) \<and>
    (\<exists>q' r. pop_front q = Ok (q', r) \<and> (r = None \<longleftrightarrow> rq_ready_cnt q = 0) \<and>
      (\<forall>read. r = Some read \<longrightarrow> ri_read_index read \<noteq> None \<and> (\<exists>q''. push_front q' read = Ok q'')))"
proof -
  have ok: "rq_ok q" using reach_ok [OF assms] by blast
  have "\<exists>q' r. pop_front q = Ok (q', r) \<and> (r = None \<longleftrightarrow> rq_ready_cnt q = 0) \<and>
      (\<forall>read. r = Some read \<longrightarrow> ri_read_index read \<noteq> None \<and> (\<exists>q''. push_front q' read = Ok q''))"
    using ok
  proof (cases rule: pop_front_cases)
    case (2 res reads q')
    have "ri_read_index res \<noteq> None" using rq_okD(3) [OF ok, of 0] 2(1,2) by simp
    then show ?thesis using 2(2,3,6) by (simp add: push_front_def)
  qed simp
  moreover have "\<exists>r. last_ready q = Ok r" using rq_okD(2) [OF ok] by (auto simp: last_ready_def)
  moreover have "\<exists>q' ns. clear_uncommitted_on_role_change q new_term = Ok (q', ns)"
    using rq_okD(2) [OF ok] by (simp add: clear_uncommitted_on_role_change_def)
  moreover have "\<forall>states. (\<forall>(u, x) \<in> set states. x \<noteq> u64_MAX) \<longrightarrow> (\<exists>q'. advance_replica_reads q states = Ok q')"
    using advance_replica_batch [OF ok] by blast
  ultimately show ?thesis using rq_okD(2,3) [OF ok] advance_leader_total by blast
qed

text \<open>
  (C3) A batch of answers settles, in the queue of a follower, every request up to the last one that has
  an answer, and nothing behind it. A settled request gets an index that was given to it or to a request
  sent after it, which is what makes the read linearizable, and the least such index, so that it waits no longer
  than it must.
\<close>

theorem replica_reads_least:
  assumes "reach True q" "\<forall>(u, x) \<in> set states. x \<noteq> u64_MAX" "advance_replica_reads q states = Ok q'"
  shows "(\<forall>i. i < rq_ready_cnt q' \<longleftrightarrow> (\<exists>j \<ge> i. \<exists>y. answer q states j y)) \<and>
    (\<forall>i < rq_ready_cnt q'. \<exists>x. ri_read_index (rq_reads q' ! i) = Some x \<and> least_from (answer q states) i x)"
proof -
  have ok: "rq_ok q" "rq_sorted q" using reach_ok [OF assms(1)] by auto
  have d: "batch_done q states q'" using advance_replica_batch [OF ok(1) assms(2)] assms(3) by auto
  then have q': "rq_ok q'" and len: "length (rq_reads q') = length (rq_reads q)" unfolding batch_done_def by (blast, metis length_map)
  have "\<exists>x. idx q' i = Some x \<and> least_from (answer q states) i x" if "i < rq_ready_cnt q'" for i
  proof -
    have "i < length (rq_reads q')" using that rq_okD(2) [OF q'] by simp
    then show ?thesis using that rq_okD(3) [OF q'] d ok(2) len unfolding batch_done_def by (metis option.exhaust)
  qed
  then show ?thesis using d unfolding batch_done_def by blast
qed

text \<open>
  (C30) A queue whose last request stays unanswered asks for a retry on the tick after an
  election timeout, and not before.
\<close>

theorem retry_after_timeout:
  assumes "reach follower q" "ticks \<noteq> 0" "ticks \<noteq> u64_MAX"
  shows "retries (unat ticks + 1) (push_back q read is_leader) ticks = replicate (unat ticks) False @ [True]"
proof -
  let ?q = "push_back q read is_leader"
  have "has_unresolved ?q" using reach_ok [OF assms(1)] rq_okD(2) [of q] by (auto simp: has_unresolved_def push_back_def Let_def)
  moreover have "rq_retry_countdown ?q = u64_MAX" by (simp add: push_back_def Let_def)
  moreover obtain n where n: "unat ticks = Suc n" using assms(2) by (cases "unat ticks") (auto simp: unat_eq_zero)
  moreover have "unat (ticks - 1) = n" using n assms(2) by (simp add: unat_minus_one)
  moreover have "ticks - 1 \<noteq> u64_MAX" using assms(2) by auto
  ultimately show ?thesis using retries_countdown [of ?q "ticks - 1" n ticks]
    by (simp add: check_needs_retry_def has_unresolved_def)
qed

text \<open>A follower with two requests and an answer for the second one.\<close>

definition sample_queue :: "(nat, nat) ReadIndexQueue" where
  "sample_queue = push_back (push_back ReadIndexQueue_default (with_command 1 0 0) False) (with_command 2 0 0) False"

lemma sample_reach: "reach True sample_queue"
  unfolding sample_queue_def
  by (intro reach.push reach.start) (simp_all add: push_back_def with_command_def ReadIndexQueue_default_def)

lemmas sample_queue_simps = sample_queue_def push_back_def with_command_def ReadIndexQueue_default_def advance_replica_reads_def
  ReadIndexQueue_fold_def set_read_index_def

theorem read_queue_safe_witness:
  "reach True sample_queue \<and> rq_ready_cnt sample_queue \<le> 2 \<and> (\<exists>q'. advance_replica_reads sample_queue [(3, 9), (2, 7)] = Ok q')"
  using read_queue_safe [OF sample_reach] sample_reach by (simp add: sample_queue_simps)

theorem replica_reads_least_witness:
  "\<exists>q'. advance_replica_reads sample_queue [(2, 7)] = Ok q' \<and> rq_ready_cnt q' = 2 \<and> least_from (answer sample_queue [(2, 7)]) 0 7"
proof -
  obtain q' where q': "advance_replica_reads sample_queue [(2, 7)] = Ok q'" "rq_ready_cnt q' = 2" "ri_read_index (rq_reads q' ! 0) = Some 7"
    by (simp add: sample_queue_simps)
  have "\<forall>(u, x) \<in> set [(2 :: Uuid, 7 :: u64)]. x \<noteq> u64_MAX" by simp
  from conjunct2 [OF replica_reads_least [OF sample_reach this q'(1)], rule_format, of 0] q' show ?thesis by simp
qed

theorem retry_after_timeout_witness:
  "retries 4 (push_back sample_queue (with_command 3 0 0) False) 3 = [False, False, False, True]"
proof -
  have u: "unat (3 :: u64) = 3" "3 + 1 = (4 :: nat)" by simp_all
  have "(3 :: u64) \<noteq> 0" "(3 :: u64) \<noteq> u64_MAX" by simp_all
  from retry_after_timeout [OF sample_reach this, of "with_command 3 0 0" False, unfolded u]
  show ?thesis by (simp only: numeral_3_eq_3 replicate.simps append.simps)
qed

end
