(* ===== verification/Spec2Isabelle.thy ===== *)
theory Spec2Isabelle
  imports Fact_Byte Txn_Write Resolver Lock_Table Leader_Lease Brane_Collector Lru_Cache Read_Queue
begin

text \<open>
  \<^bold>\<open>Verification of EinsteinDB.\<close> EinsteinDB is a replicated, transactional key-value store with a query
  engine on top. This development models its lower layers and how they rest on each other:

  \<^item> The \<^emph>\<open>codecs\<close> turn integers, floats and byte strings into bytes whose lexicographic order is the order
  of the values. There are two of them, \<open>einsteindb_util::codec\<close> (\<open>src/edb/edbn/einsteindb_util/src/codec\<close>)
  and the crate \<open>codec\<close> (\<open>src/sentry/einst_util/data_types/language_fact/src\<close>), which write the same formats.
  \<^item> The \<^emph>\<open>transaction types\<close> (\<open>src/edb/LSH-Tree/txn_types/src\<close>) build versioned keys, locks and write
  records out of the codecs.
  \<^item> The \<^emph>\<open>lock table\<close> (\<open>src/edb/LSH-Tree/interlock_directorate/src\<close>) keeps locks in memory by key; the
  \<^emph>\<open>resolver\<close> (\<open>src/edb/LSH-Tree/log_wrappers/resolved_ts/src/lib.rs\<close>) follows the locks of a region to know
  below which timestamp nothing can be committed any more.
  \<^item> The \<^emph>\<open>store\<close> (\<open>src/violetabftstore/src\<close>) divides the key space into regions, which the code calls branes,
  each replicated by a group of peers. Modelled are the epoch and range checks, the lease that lets a leader
  answer reads alone, the queue of reads a follower has sent to its leader, the collector that follows the regions of a node, and the crate \<open>keys\<close>
  (\<open>src/sentry/einst_util/data_types/keys/src\<close>) that lays out what a store keeps in its engine.
  \<^item> A \<^emph>\<open>cache\<close> (\<open>src/edb/edbn/einsteindb_util/src/lru.rs\<close>) built with raw pointers.

  \<^bold>\<open>Conventions.\<close> \<open>Prelude\<close> has the types and the outcome of a call: \<^const>\<open>Ok\<close> and \<^const>\<open>Err\<close> are the constructors of
  Rust's \<open>Result\<close>, \<^const>\<open>Panic\<close> is a panic and \<^const>\<open>Undef\<close> undefined behaviour (an unchecked access outside its
  slice, a dangling pointer). Machine integers are words where their width matters; lengths and positions
  (\<open>usize\<close>) are natural numbers. Operations on \<open>&mut self\<close> return the new state. Definitions have the names of
  the functions they model, with the name of the type in front where two would clash; a loop is a recursive
  function named after the function it stands in. Log lines and metrics are left out throughout.

  \<^bold>\<open>Code outside the repository\<close> is a parameter with a locale that states its documented behaviour; each locale
  is interpreted on a concrete instance, which the witnesses use: \<open>byteorder\<close> (\<open>Byte_Order\<close>), the memory of
  a growing vector \<open>vec_alloc\<close> (\<open>Fact_Buffer\<close>), \<open>libc_memcmp\<close> (\<open>Fact_Byte\<close>), the crate \<open>time\<close> as \<open>time_crate\<close>
  (\<open>Leader_Lease\<close>), the concurrent map of \<open>crossbeam\<close> as \<open>skip_map\<close> (\<open>Lock_Table\<close>). The functions of \<open>farmhash\<close>
  and the protobuf messages appear as plain parameters and records.

  \<^bold>\<open>Theories.\<close>

  \<^item> \<open>Byte_Order\<close>, \<open>Ordered_Map\<close>: the byte orders, and \<open>std::collections::BTreeMap\<close> as a sorted list with the laws
  a client relies on (locale \<open>ordered_map\<close>).
  \<^item> \<open>Number_Codec\<close>: \<open>codec/mod.rs\<close> and \<open>codec/number.rs\<close>. The encodings of integers and floats order like the values,
  variable-length integers are read back, and the decoder is total: a value, an error, never an unchecked access.
  \<^item> \<open>Bytes_Codec\<close>: \<open>codec/bytes.rs\<close>. The memory-comparable code is exact (the decoder accepts the encodings and
  nothing else), keeps the order with anything appended, and the shortcuts (in-place decoding, length scanning,
  \<open>is_encoded_from\<close>) agree with it. The locale \<open>memcomparable\<close> is the contract its clients use, for the ascending and
  the descending code.
  \<^item> \<open>Fact_Buffer\<close>, \<open>Fact_Number\<close>, \<open>Fact_Byte\<close>: the crate \<open>codec\<close>. The buffer traits are locales, interpreted on
  slices, cursors and vectors; the pointer arithmetic of \<open>byte.rs\<close> is modelled with the addresses it touches and shown to
  refine the codec above.
  \<^item> \<open>Txn_Key\<close>, \<open>Txn_Dagger\<close>, \<open>Txn_Write\<close>: \<open>timestamp.rs\<close>, \<open>types.rs\<close>, \<open>lib.rs\<close>, \<open>dagger.rs\<close>, \<open>write.rs\<close>. Versioned keys
  sort by key and then from the newest version; locks and write records are read back from their bytes; a lock that
  lets a reader pass lets every earlier reader pass.
  \<^item> \<open>Resolver\<close>: the client's promise as a step relation, the invariant that ties it to the resolver's state, and that no
  commit falls to or below a resolved timestamp.
  \<^item> \<open>Lock_Table\<close>: the tasks that lock keys, as atomic steps in any interleaving, with the reference counts of the
  handles. A handle is held once; locking sorted keys cannot deadlock; an uncontended lock is visible to reads; and a
  trace in which a contended one is lost.
  \<^item> \<open>Leader_Lease\<close>, \<open>Brane_Util\<close>: \<open>store/util.rs\<close>. A remote copy of a lease never outlives the lease; the epoch checks
  refuse what a change of the region invalidates; sibling regions merge.
  \<^item> \<open>Read_Queue\<close>: \<open>store/read_queue.rs\<close>. The queue never panics whatever order the answers come in, each settled read
  has the least index that its own or a later answer allows, and an unanswered queue asks again after an election timeout.
  \<^item> \<open>Keys\<close>: \<open>keys/src/lib.rs\<close> and \<open>rewrite.rs\<close>. Data keys keep ranges, log keys are parsed exactly, \<open>next_key\<close> bounds a
  prefix, prefixes in range bounds are rewritten exactly.
  \<^item> \<open>Brane_Collector\<close>: \<open>interlock/region_info_accessor.rs\<close>. Its two maps stay consistent and its regions disjoint under any
  events, versions grow, and a seek finds exactly the regions behind a key.
  \<^item> \<open>Lru_Cache\<close>: \<open>lru.rs\<close> on a heap of records. Every sequence of calls refines a list ordered by last use, without
  undefined behaviour and without leaking a record.

  \<^bold>\<open>Bounds and fuel.\<close> Recursion is structural or has a termination proof. One loop takes a number of rounds, that of
  \<open>Trace::clear\<close>, which follows pointers: as many rounds as the cache has entries are enough (\<open>lru_clear_terminates\<close>), and
  \<open>LruCache_clear\<close> is called with that number. Instants are assumed to stay below \<open>2 ^ 60\<close> seconds in \<open>Leader_Lease\<close>.

  \<^bold>\<open>Not modelled.\<close> The consensus state machine, apply, snapshots and background workers of the store, which drive an
  external consensus library, protobuf messages and the storage engine; the engines, encryption, import, backup and
  network clients, which are input and output; the query engine (decimals, times, JSON, expressions, executors), whose
  data types form a system of their own above the codecs; the datalog front end, which translates to SQL. In the
  modelled files the printers (\<open>Debug\<close>, \<open>Display\<close>), metrics, threads and channels are left out.
\<close>

end
